(* ===== verification/Prelude.thy ===== *)
theory Prelude
  imports Main "HOL-Library.Word" "HOL-Library.Multiset"
begin

unbundle bit_operations_syntax

text \<open>
  Shared vocabulary of the development: the exceptions of the C++ code as values, the
  fixed-width conversions the code performs, byte buffers with the copy primitives
  \<^verbatim>\<open>memcpy\<close>/\<^verbatim>\<open>memmove\<close>, and the generic lemmas on lists and ordered association
  lists that several components use.
\<close>

named_theorems buf_simps \<open>reading back what a buffer write stored\<close>
named_theorems page_simps \<open>page operations as list operations on the stored rows\<close>
named_theorems mvcc_simps \<open>version-chain and transaction-table rewriting\<close>
named_theorems arc_simps \<open>replacer bookkeeping\<close>

section \<open>Exceptions\<close>

text \<open>
  The exception classes of \<^verbatim>\<open>common/exception.h\<close> and of the standard library that the modelled
  code throws, with their messages, and two values for what the C++ does not define:
  \<open>OutOfPageAccess\<close> is a copy that leaves the page buffer or overwrites the page header (undefined
  behaviour in the source), \<open>AssertionFailed\<close> is a failed \<^verbatim>\<open>BUMBLEBEE_ASSERT\<close>.
\<close>

datatype exn =
    Exception string
  | ExecutionException string
  | ConflictException string
  | NotImplementedException string
  | RangeError string
  | AssertionFailed string
  | OutOfPageAccess

type_synonym 'a result = "exn + 'a"

section \<open>Fixed-width conversions\<close>

type_synonym byte = "8 word"

text \<open>\<^verbatim>\<open>static_cast<uint16_t>\<close> and the \<^verbatim>\<open>size_t\<close> value of a possibly negative sum.\<close>

definition to_u16 :: "int \<Rightarrow> nat" where
  "to_u16 i = nat (i mod 2 ^ 16)"

definition to_size_t :: "int \<Rightarrow> nat" where
  "to_size_t i = nat (i mod 2 ^ 64)"

lemma to_u16_id [simp]: "0 \<le> i \<Longrightarrow> i < 65536 \<Longrightarrow> to_u16 i = nat i"
  by (simp add: to_u16_def)

lemma to_u16_less: "to_u16 i < 65536"
  by (simp add: to_u16_def nat_less_iff)

lemma to_size_t_id [simp]: "0 \<le> i \<Longrightarrow> i < 2 ^ 64 \<Longrightarrow> to_size_t i = nat i"
  by (simp add: to_size_t_def)

lemma to_size_t_neg:
  assumes "i < 0" and "- (2 ^ 64) \<le> i"
  shows "to_size_t i = nat (i + 2 ^ 64)"
proof -
  have "i mod 2 ^ 64 = (i + 2 ^ 64) mod 2 ^ 64" by simp
  also have "\<dots> = i + 2 ^ 64" using assms by (intro mod_pos_pos_trivial) auto
  finally show ?thesis by (simp add: to_size_t_def)
qed

lemma to_u16_neg:
  assumes "i < 0" and "- 65536 \<le> i"
  shows "to_u16 i = nat (i + 65536)"
proof -
  have "i mod 2 ^ 16 = (i + 2 ^ 16) mod 2 ^ 16" by simp
  also have "\<dots> = i + 2 ^ 16" using assms by (intro mod_pos_pos_trivial) auto
  finally show ?thesis by (simp add: to_u16_def)
qed

section \<open>Byte buffers\<close>

text \<open>
  A buffer is a list of bytes; \<open>buf_read\<close> is the bytes \<^verbatim>\<open>[off, off + n)\<close>, \<open>buf_write\<close> is
  \<^verbatim>\<open>memcpy(buf + off, data, |data|)\<close> into a buffer that is long enough.
\<close>

definition buf_read :: "nat \<Rightarrow> nat \<Rightarrow> 'a list \<Rightarrow> 'a list" where
  "buf_read off n bs = take n (drop off bs)"

definition buf_write :: "nat \<Rightarrow> 'a list \<Rightarrow> 'a list \<Rightarrow> 'a list" where
  "buf_write off data bs = take off bs @ data @ drop (off + length data) bs"

lemma length_buf_write [simp]:
  "off + length data \<le> length bs \<Longrightarrow> length (buf_write off data bs) = length bs"
  by (simp add: buf_write_def)

lemma length_buf_read [simp]:
  "off + n \<le> length bs \<Longrightarrow> length (buf_read off n bs) = n"
  by (simp add: buf_read_def)

lemma buf_read_write_same [buf_simps]:
  "off \<le> length bs \<Longrightarrow> buf_read off (length data) (buf_write off data bs) = data"
  by (simp add: buf_read_def buf_write_def)

lemma buf_read_write_above [buf_simps]:
  assumes "off + length data \<le> length bs" and "off + length data \<le> off'"
  shows "buf_read off' n (buf_write off data bs) = buf_read off' n bs"
proof -
  have "drop off' (buf_write off data bs) = drop off' bs"
    using assms by (simp add: buf_write_def min_def)
  then show ?thesis by (simp add: buf_read_def)
qed

lemma buf_read_write_below [buf_simps]:
  assumes "off + length data \<le> length bs" and "off' + n \<le> off"
  shows "buf_read off' n (buf_write off data bs) = buf_read off' n bs"
proof -
  have "off' \<le> length bs" "n \<le> off - off'" using assms by auto
  then show ?thesis using assms
    by (simp add: buf_read_def buf_write_def take_drop min_def)
qed

lemma buf_read_write_inside:
  assumes "off + length data \<le> length bs" and "off \<le> off'" and "off' + n \<le> off + length data"
  shows "buf_read off' n (buf_write off data bs) = take n (drop (off' - off) data)"
proof -
  have l: "length (take off bs) = off" using assms(1) by simp
  have "drop off' (buf_write off data bs) = drop (off' - off) data @ drop (off + length data) bs"
    using assms l by (simp add: buf_write_def)
  then show ?thesis using assms by (simp add: buf_read_def)
qed

section \<open>Lists\<close>

lemma map_list_update_idle:
  "i < length xs \<Longrightarrow> f (xs ! i) = y \<Longrightarrow> (map f xs)[i := y] = map f xs"
  by (metis length_map list_update_id nth_map)

lemma upt_split: "i \<le> j \<Longrightarrow> j \<le> k \<Longrightarrow> [i..<j] @ [j..<k] = [i..<k]"
  using upt_add_eq_append [of i j "k - j"] by simp

lemma distinct_removeAll1: "distinct xs \<Longrightarrow> remove1 x xs = removeAll x xs"
  by (rule distinct_remove1_removeAll)

end
