(* ===== verification/Rid.thy ===== *)
theory Rid
  imports Prelude
begin

text \<open>
  Record identifiers (\<^verbatim>\<open>storage/table/rid.h\<close>): a page id and a slot number, packed into the 64-bit
  integer that travels through row-id vectors. Page ids are \<^verbatim>\<open>int32_t\<close>, slot numbers \<^verbatim>\<open>uint32_t\<close>.
\<close>

record packed_rid =
  page_id :: "32 word"
  slot_num :: "32 word"

definition rid_get :: "packed_rid \<Rightarrow> 64 word" where
  "rid_get r = push_bit 32 (scast (page_id r)) OR ucast (slot_num r)"

definition rid_of_int64 :: "64 word \<Rightarrow> packed_rid" where
  "rid_of_int64 v = \<lparr>page_id = ucast (signed_drop_bit 32 v), slot_num = ucast v\<rparr>"

definition rid_eq :: "packed_rid \<Rightarrow> packed_rid \<Rightarrow> bool" where
  "rid_eq a b \<longleftrightarrow> page_id a = page_id b \<and> slot_num a = slot_num b"

lemma rid_page_of_get: "page_id (rid_of_int64 (rid_get r)) = page_id r"
proof (rule bit_word_eqI)
  fix n assume "n < LENGTH(32)"
  moreover have "\<not> bit (slot_num r) (32 + n)" by (auto dest: bit_imp_le_length)
  ultimately show "bit (page_id (rid_of_int64 (rid_get r))) n = bit (page_id r) n"
    by (cases "n = 31") (auto simp: rid_of_int64_def rid_get_def bit_simps min_def)
qed

lemma rid_slot_of_get: "slot_num (rid_of_int64 (rid_get r)) = slot_num r"
  by (rule bit_word_eqI)
    (auto simp: rid_of_int64_def rid_get_def bit_simps)

lemma rid_get_of_int64_bits: "rid_get (rid_of_int64 v) = v"
proof (rule bit_word_eqI)
  fix n assume "n < LENGTH(64)"
  then show "bit (rid_get (rid_of_int64 v)) n = bit v n"
    by (cases "n = 63") (auto simp: rid_of_int64_def rid_get_def bit_simps min_def not_le)
qed


end
