(* ===== verification/TablePage.thy ===== *)
theory TablePage
  imports Prelude
begin

text \<open>
  The slotted page of the row store (\<^verbatim>\<open>storage/page/table_page.{h,cpp}\<close>,
  \<^verbatim>\<open>storage/table/tuple_meta.h\<close>).

  The C++ class is an overlay on an 8192-byte frame: an 8-byte header, a slot array growing forward
  and row payloads growing backward from the end of the page. The record below keeps the header
  fields and the slot array as structured data and the frame as a byte list; every copy into the
  frame goes through \<open>page_copy\<close>, which yields \<open>OutOfPageAccess\<close> when the copy would leave the frame
  or overwrite the header or the slot array. \<open>page_rows\<close> is the abstract content: one
  (metadata, bytes) pair per slot. The lemmas show that under \<open>page_wf\<close> the operations are the
  list operations one expects on \<open>page_rows\<close>, and where that fails.
\<close>

section \<open>Data\<close>

record tuple_meta =
  ts :: int
  is_deleted :: bool

record slot_info =
  si_offset :: nat
  si_size :: nat
  si_meta :: tuple_meta

record table_page =
  next_page_id :: int
  num_deleted_tuples :: nat
  tuple_info :: "slot_info list"
  page_bytes :: "byte list"

definition PAGE_SIZE :: nat where "PAGE_SIZE = 8192"

definition TABLE_PAGE_HEADER_SIZE :: nat where "TABLE_PAGE_HEADER_SIZE = 8"

definition TUPLE_INFO_SIZE :: nat where "TUPLE_INFO_SIZE = 24"

definition INVALID_PAGE_ID :: int where "INVALID_PAGE_ID = -1"

definition num_tuples :: "table_page \<Rightarrow> nat" where
  "num_tuples p = length (tuple_info p)"

definition header_end :: "table_page \<Rightarrow> nat" where
  "header_end p = TABLE_PAGE_HEADER_SIZE + TUPLE_INFO_SIZE * num_tuples p"

lemmas page_consts = PAGE_SIZE_def TABLE_PAGE_HEADER_SIZE_def TUPLE_INFO_SIZE_def

section \<open>Operations\<close>

definition page_init :: "table_page \<Rightarrow> table_page" where
  "page_init p = p\<lparr>next_page_id := INVALID_PAGE_ID, tuple_info := [], num_deleted_tuples := 0\<rparr>"

definition set_next_page_id :: "int \<Rightarrow> table_page \<Rightarrow> table_page" where
  "set_next_page_id pid p = p\<lparr>next_page_id := pid\<rparr>"

definition get_next_row_offset :: "table_page \<Rightarrow> nat \<Rightarrow> nat option" where
  "get_next_row_offset p row_size =
     (let slot_end_offset = (if num_tuples p > 0 then si_offset (last (tuple_info p)) else PAGE_SIZE);
          offset_size = TABLE_PAGE_HEADER_SIZE + TUPLE_INFO_SIZE * (num_tuples p + 1)
      in if row_size > slot_end_offset \<or> slot_end_offset - row_size < offset_size then None
         else Some (to_u16 (int (slot_end_offset - row_size))))"

text \<open>\<^verbatim>\<open>memcpy\<close> of \<open>data\<close> to \<^verbatim>\<open>page_start_ + dst\<close>.\<close>

definition page_copy :: "nat \<Rightarrow> byte list \<Rightarrow> table_page \<Rightarrow> table_page result" where
  "page_copy dst data p =
     (if header_end p \<le> dst \<and> dst + length data \<le> PAGE_SIZE
      then Inr (p\<lparr>page_bytes := buf_write dst data (page_bytes p)\<rparr>)
      else Inl OutOfPageAccess)"

definition insert_row :: "tuple_meta \<Rightarrow> byte list \<Rightarrow> nat \<Rightarrow> table_page \<Rightarrow> (nat option \<times> table_page) result" where
  "insert_row meta row_data row_size p =
     (case get_next_row_offset p row_size of
        None \<Rightarrow> Inr (None, p)
      | Some row_offset \<Rightarrow>
          let slot = num_tuples p;
              p1 = p\<lparr>tuple_info := tuple_info p @
                      [\<lparr>si_offset = row_offset, si_size = row_size, si_meta = meta\<rparr>]\<rparr>
          in case page_copy row_offset (take row_size row_data) p1 of
               Inl e \<Rightarrow> Inl e
             | Inr p2 \<Rightarrow> Inr (Some slot, p2))"

text \<open>The deleted-tuple counter, a \<^verbatim>\<open>uint16_t\<close> bumped on each live-to-deleted transition.\<close>

definition bump_deleted :: "tuple_meta \<Rightarrow> tuple_meta \<Rightarrow> nat \<Rightarrow> nat" where
  "bump_deleted old_meta meta n =
     (if \<not> is_deleted old_meta \<and> is_deleted meta then (n + 1) mod 2 ^ 16 else n)"

definition update_tuple_meta :: "tuple_meta \<Rightarrow> nat \<Rightarrow> table_page \<Rightarrow> table_page result" where
  "update_tuple_meta meta slot p =
     (if slot \<ge> num_tuples p then Inl (Exception ''Slot out of range'')
      else let info = tuple_info p ! slot
           in Inr (p\<lparr>num_deleted_tuples := bump_deleted (si_meta info) meta (num_deleted_tuples p),
                     tuple_info := (tuple_info p)[slot := info\<lparr>si_meta := meta\<rparr>]\<rparr>))"

definition get_row :: "table_page \<Rightarrow> nat \<Rightarrow> (tuple_meta \<times> byte list) result" where
  "get_row p slot =
     (if slot \<ge> num_tuples p then Inl (Exception ''Slot out of range'')
      else let info = tuple_info p ! slot
           in Inr (si_meta info, buf_read (si_offset info) (si_size info) (page_bytes p)))"

definition get_tuple_meta :: "table_page \<Rightarrow> nat \<Rightarrow> tuple_meta result" where
  "get_tuple_meta p slot =
     (if slot \<ge> num_tuples p then Inl (Exception ''Slot out of range'')
      else Inr (si_meta (tuple_info p ! slot)))"

definition update_row_in_place_unsafe ::
  "tuple_meta \<Rightarrow> byte list \<Rightarrow> nat \<Rightarrow> nat \<Rightarrow> table_page \<Rightarrow> table_page result" where
  "update_row_in_place_unsafe meta row_data row_size slot p =
     (if slot \<ge> num_tuples p then Inl (Exception ''Slot out of range'')
      else let info = tuple_info p ! slot
           in if si_size info \<noteq> row_size then Inl (Exception ''Row size mismatch'')
              else page_copy (si_offset info) (take row_size row_data)
                     (p\<lparr>num_deleted_tuples := bump_deleted (si_meta info) meta (num_deleted_tuples p),
                        tuple_info := (tuple_info p)[slot := info\<lparr>si_meta := meta\<rparr>]\<rparr>))"

definition shift_offset :: "int \<Rightarrow> slot_info \<Rightarrow> slot_info" where
  "shift_offset delta s = s\<lparr>si_offset := to_u16 (int (si_offset s) + delta)\<rparr>"

definition update_row ::
  "tuple_meta \<Rightarrow> byte list \<Rightarrow> nat \<Rightarrow> nat \<Rightarrow> table_page \<Rightarrow> (bool \<times> table_page) result" where
  "update_row meta row_data row_size slot p =
     (if slot \<ge> num_tuples p then Inl (Exception ''Slot out of range'')
      else
        let info = tuple_info p ! slot;
            off_s = si_offset info; old_size = si_size info; old_meta = si_meta info;
            n_del = bump_deleted old_meta meta (num_deleted_tuples p)
        in
        if row_size = old_size then
          (case page_copy off_s (take row_size row_data)
                  (p\<lparr>num_deleted_tuples := n_del,
                     tuple_info := (tuple_info p)[slot := \<lparr>si_offset = off_s, si_size = row_size, si_meta = meta\<rparr>]\<rparr>) of
             Inl e \<Rightarrow> Inl e
           | Inr p' \<Rightarrow> Inr (True, p'))
        else
          let delta = int old_size - int row_size;
              off_last = si_offset (last (tuple_info p));
              below_size = to_u16 (int off_s - int off_last);
              new_below_start = to_size_t (int off_last + delta)
          in
          if new_below_start < header_end p then Inr (False, p)
          else
            (case (if below_size > 0
                   then page_copy new_below_start (buf_read off_last below_size (page_bytes p)) p
                   else Inr p) of
               Inl e \<Rightarrow> Inl e
             | Inr p1 \<Rightarrow>
                 let new_off_s = to_u16 (int off_s + delta) in
                 (case page_copy new_off_s (take row_size row_data) p1 of
                    Inl e \<Rightarrow> Inl e
                  | Inr p2 \<Rightarrow>
                      Inr (True, p2\<lparr>num_deleted_tuples := n_del,
                                    tuple_info := take slot (tuple_info p) @
                                      [\<lparr>si_offset = new_off_s, si_size = row_size, si_meta = meta\<rparr>] @
                                      map (shift_offset delta) (drop (Suc slot) (tuple_info p))\<rparr>))))"

section \<open>Well-formed pages and their rows\<close>

fun packed :: "nat \<Rightarrow> slot_info list \<Rightarrow> bool" where
  "packed hi [] \<longleftrightarrow> True"
| "packed hi (s # ss) \<longleftrightarrow> si_offset s + si_size s = hi \<and> packed (si_offset s) ss"

fun low_off :: "nat \<Rightarrow> slot_info list \<Rightarrow> nat" where
  "low_off hi [] = hi"
| "low_off hi (s # ss) = low_off (si_offset s) ss"

definition page_wf :: "table_page \<Rightarrow> bool" where
  "page_wf p \<longleftrightarrow> length (page_bytes p) = PAGE_SIZE \<and> packed PAGE_SIZE (tuple_info p) \<and>
     header_end p \<le> low_off PAGE_SIZE (tuple_info p)"

definition page_rows :: "table_page \<Rightarrow> (tuple_meta \<times> byte list) list" where
  "page_rows p = map (\<lambda>s. (si_meta s, buf_read (si_offset s) (si_size s) (page_bytes p))) (tuple_info p)"

text \<open>The bytes still available between the slot array and the lowest row.\<close>

definition free_space :: "table_page \<Rightarrow> nat" where
  "free_space p = low_off PAGE_SIZE (tuple_info p) - header_end p"

text \<open>An empty page as the pool hands it out and \<^verbatim>\<open>Init\<close> prepares it.\<close>

definition empty_page :: table_page where
  "empty_page = page_init \<lparr>next_page_id = 0, num_deleted_tuples = 0, tuple_info = [],
                           page_bytes = replicate PAGE_SIZE 0\<rparr>"

definition two_row_page :: table_page where
  "two_row_page = empty_page\<lparr>tuple_info :=
     [\<lparr>si_offset = 8189, si_size = 3, si_meta = \<lparr>ts = 1, is_deleted = False\<rparr>\<rparr>,
      \<lparr>si_offset = 8187, si_size = 2, si_meta = \<lparr>ts = 2, is_deleted = False\<rparr>\<rparr>]\<rparr>"

section \<open>Layout lemmas\<close>

lemma packed_append [simp]: "packed hi (xs @ ys) \<longleftrightarrow> packed hi xs \<and> packed (low_off hi xs) ys"
  by (induction xs arbitrary: hi) auto

lemma low_off_append [simp]: "low_off hi (xs @ ys) = low_off (low_off hi xs) ys"
  by (induction xs arbitrary: hi) auto

lemma packed_low_le: "packed hi xs \<Longrightarrow> low_off hi xs \<le> hi"
  by (induction xs arbitrary: hi) fastforce+

lemma low_off_last: "xs \<noteq> [] \<Longrightarrow> low_off hi xs = si_offset (last xs)"
  by (induction xs arbitrary: hi) auto

lemma packed_member:
  assumes "packed hi xs" and "s \<in> set xs"
  shows "si_offset s + si_size s \<le> hi \<and> low_off hi xs \<le> si_offset s"
proof -
  from assms(2) obtain ys zs where xs: "xs = ys @ s # zs" by (auto simp: in_set_conv_decomp)
  from assms(1) xs have "packed hi ys" "si_offset s + si_size s = low_off hi ys"
    "packed (si_offset s) zs" by auto
  then show ?thesis
    using xs packed_low_le [of hi ys] packed_low_le [of "si_offset s" zs] by auto
qed

lemma packed_split:
  assumes "packed hi xs" and "i < length xs"
  shows "packed hi (take i xs)" and "si_offset (xs ! i) + si_size (xs ! i) = low_off hi (take i xs)"
    and "packed (si_offset (xs ! i)) (drop (Suc i) xs)"
    and "low_off (si_offset (xs ! i)) (drop (Suc i) xs) = low_off hi xs"
proof -
  have xs: "xs = take i xs @ xs ! i # drop (Suc i) xs" using assms(2) by (rule id_take_nth_drop)
  then have "packed hi (take i xs @ xs ! i # drop (Suc i) xs)" using assms(1) by simp
  then show "packed hi (take i xs)" "si_offset (xs ! i) + si_size (xs ! i) = low_off hi (take i xs)"
    "packed (si_offset (xs ! i)) (drop (Suc i) xs)" by auto
  show "low_off (si_offset (xs ! i)) (drop (Suc i) xs) = low_off hi xs"
    by (subst (2) xs) simp
qed

lemma packed_shift:
  assumes "packed hi xs" and "0 \<le> int (low_off hi xs) + d" and "int hi + d < 65536"
    and "int hi' = int hi + d"
  shows "packed hi' (map (shift_offset d) xs)"
    and "int (low_off hi' (map (shift_offset d) xs)) = int (low_off hi xs) + d"
  using assms
proof (induction xs arbitrary: hi hi')
  case (Cons s ss)
  { case 1
    then have le: "low_off (si_offset s) ss \<le> si_offset s" by (auto intro: packed_low_le)
    with 1 have "int (si_offset (shift_offset d s)) = int (si_offset s) + d"
      by (auto simp: shift_offset_def)
    then show ?case using Cons.IH [of "si_offset s" "si_offset (shift_offset d s)"] 1 le
      by (auto simp: shift_offset_def) }
  { case 2
    then have le: "low_off (si_offset s) ss \<le> si_offset s" by (auto intro: packed_low_le)
    with 2 have "int (si_offset (shift_offset d s)) = int (si_offset s) + d"
      by (auto simp: shift_offset_def)
    then show ?case using Cons.IH [of "si_offset s" "si_offset (shift_offset d s)"] 2 le
      by (auto simp: shift_offset_def) }
qed auto

lemma length_page_rows [simp]: "length (page_rows p) = num_tuples p"
  by (simp add: page_rows_def num_tuples_def)

lemma page_wf_slots: "page_wf p \<Longrightarrow> header_end p \<le> PAGE_SIZE"
  by (auto simp: page_wf_def dest: packed_low_le)

lemma page_wf_num_tuples: "page_wf p \<Longrightarrow> num_tuples p \<le> 341"
  using page_wf_slots [of p] by (simp add: header_end_def page_consts)

section \<open>Operations on the rows of a page\<close>

lemma get_row_rows [page_simps]:
  "get_row p slot = (if slot < num_tuples p then Inr (page_rows p ! slot)
                     else Inl (Exception ''Slot out of range''))"
  by (simp add: get_row_def page_rows_def num_tuples_def Let_def)

lemma get_tuple_meta_rows [page_simps]:
  "get_tuple_meta p slot = (if slot < num_tuples p then Inr (fst (page_rows p ! slot))
                            else Inl (Exception ''Slot out of range''))"
  by (simp add: get_tuple_meta_def page_rows_def num_tuples_def)

lemma page_init_wf:
  "length (page_bytes p) = PAGE_SIZE \<Longrightarrow> page_wf (page_init p) \<and> page_rows (page_init p) = []"
  by (simp add: page_init_def page_wf_def page_rows_def header_end_def num_tuples_def page_consts)

lemma set_next_page_id_rows [simp]:
  "page_wf (set_next_page_id pid p) = page_wf p" "page_rows (set_next_page_id pid p) = page_rows p"
  "num_tuples (set_next_page_id pid p) = num_tuples p"
  by (simp_all add: set_next_page_id_def page_wf_def page_rows_def header_end_def num_tuples_def)

lemma low_off_slots:
  "num_tuples p > 0 \<Longrightarrow> si_offset (last (tuple_info p)) = low_off PAGE_SIZE (tuple_info p)"
  by (simp add: num_tuples_def low_off_last)

lemma page_wf_low_bounds:
  assumes "page_wf p"
  shows "header_end p \<le> low_off PAGE_SIZE (tuple_info p)" "low_off PAGE_SIZE (tuple_info p) \<le> 8192"
  using assms packed_low_le [of PAGE_SIZE "tuple_info p"] by (auto simp: page_wf_def page_consts)

lemma get_next_row_offset_wf:
  assumes "page_wf p"
  shows "get_next_row_offset p n =
           (if n + TUPLE_INFO_SIZE \<le> free_space p
            then Some (low_off PAGE_SIZE (tuple_info p) - n) else None)"
proof -
  have low: "(if num_tuples p > 0 then si_offset (last (tuple_info p)) else PAGE_SIZE)
      = low_off PAGE_SIZE (tuple_info p)"
    using low_off_slots [of p] by (auto simp: num_tuples_def)
  show ?thesis
    using page_wf_low_bounds [OF assms]
    unfolding get_next_row_offset_def low Let_def
    by (auto simp: free_space_def header_end_def page_consts)
qed

lemma map_rows_write_below:
  assumes "packed hi xs" and "hi \<le> length bs" and "off + length data \<le> low_off hi xs"
  shows "map (\<lambda>s. (si_meta s, buf_read (si_offset s) (si_size s) (buf_write off data bs))) xs
       = map (\<lambda>s. (si_meta s, buf_read (si_offset s) (si_size s) bs)) xs"
proof (rule map_cong [OF refl])
  fix s assume "s \<in> set xs"
  with assms(1) have "si_offset s + si_size s \<le> hi" "low_off hi xs \<le> si_offset s"
    by (auto dest: packed_member)
  with assms show "(si_meta s, buf_read (si_offset s) (si_size s) (buf_write off data bs))
      = (si_meta s, buf_read (si_offset s) (si_size s) bs)"
    by (simp add: buf_simps)
qed

lemma insert_row_fits:
  assumes wf: "page_wf p" and fits: "row_size + TUPLE_INFO_SIZE \<le> free_space p"
    and len: "row_size \<le> length row_data"
  shows "\<exists>p'. insert_row meta row_data row_size p = Inr (Some (num_tuples p), p') \<and> page_wf p' \<and>
           page_rows p' = page_rows p @ [(meta, take row_size row_data)] \<and>
           next_page_id p' = next_page_id p"
proof -
  let ?low = "low_off PAGE_SIZE (tuple_info p)"
  let ?info = "\<lparr>si_offset = ?low - row_size, si_size = row_size, si_meta = meta\<rparr>"
  let ?p1 = "p\<lparr>tuple_info := tuple_info p @ [?info]\<rparr>"
  let ?data = "take row_size row_data"
  let ?p2 = "?p1\<lparr>page_bytes := buf_write (?low - row_size) ?data (page_bytes p)\<rparr>"
  note bnd = page_wf_low_bounds [OF wf]
  have room: "row_size \<le> ?low" "header_end ?p1 \<le> ?low - row_size"
    using fits bnd by (auto simp: free_space_def header_end_def num_tuples_def page_consts)
  have dl: "length ?data = row_size" using len by simp
  have copy: "page_copy (?low - row_size) ?data ?p1 = Inr ?p2"
    using room bnd dl by (simp add: page_copy_def page_consts)
  have ins: "insert_row meta row_data row_size p = Inr (Some (num_tuples p), ?p2)"
    unfolding insert_row_def get_next_row_offset_wf [OF wf] using fits copy by (simp add: Let_def)
  have wf2: "page_wf ?p2"
    using wf room bnd dl by (auto simp: page_wf_def header_end_def num_tuples_def page_consts)
  have "page_rows ?p2 = page_rows p @ [(meta, ?data)]"
    using wf room dl map_rows_write_below [of PAGE_SIZE "tuple_info p" "page_bytes p" "?low - row_size" ?data]
      buf_read_write_same [of "?low - row_size" "page_bytes p" ?data] bnd
    by (simp add: page_rows_def page_wf_def page_consts)
  with ins wf2 show ?thesis by (intro exI [of _ ?p2]) simp
qed

lemma insert_row_full:
  "page_wf p \<Longrightarrow> \<not> row_size + TUPLE_INFO_SIZE \<le> free_space p \<Longrightarrow>
     insert_row meta row_data row_size p = Inr (None, p)"
  by (simp add: insert_row_def get_next_row_offset_wf)

lemma update_tuple_meta_rows:
  assumes "page_wf p" and "slot < num_tuples p"
  shows "\<exists>p'. update_tuple_meta meta slot p = Inr p' \<and> page_wf p' \<and>
           page_rows p' = (page_rows p)[slot := (meta, snd (page_rows p ! slot))] \<and>
           next_page_id p' = next_page_id p"
proof -
  let ?i = "tuple_info p ! slot"
  let ?p' = "p\<lparr>num_deleted_tuples := bump_deleted (si_meta ?i) meta (num_deleted_tuples p),
               tuple_info := (tuple_info p)[slot := ?i\<lparr>si_meta := meta\<rparr>]\<rparr>"
  have sl: "slot < length (tuple_info p)" using assms(2) by (simp add: num_tuples_def)
  have upd: "(tuple_info p)[slot := ?i\<lparr>si_meta := meta\<rparr>]
      = take slot (tuple_info p) @ ?i\<lparr>si_meta := meta\<rparr> # drop (Suc slot) (tuple_info p)"
    using sl by (simp add: upd_conv_take_nth_drop)
  have "packed PAGE_SIZE (tuple_info p)" using assms(1) by (simp add: page_wf_def)
  note ps = packed_split [OF this sl]
  have "packed PAGE_SIZE (tuple_info ?p') \<and>
      low_off PAGE_SIZE (tuple_info ?p') = low_off PAGE_SIZE (tuple_info p)"
    using ps by (simp add: upd)
  then have "page_wf ?p'"
    using assms(1) by (simp add: page_wf_def header_end_def num_tuples_def)
  moreover have "page_rows ?p' = (page_rows p)[slot := (meta, snd (page_rows p ! slot))]"
    using sl by (simp add: page_rows_def map_update)
  ultimately show ?thesis
    using assms(2) by (simp add: update_tuple_meta_def Let_def)
qed

section \<open>Resizing a row in place\<close>

lemma update_row_same_size:
  assumes wf: "page_wf p" and sl: "slot < num_tuples p"
    and sz: "row_size = si_size (tuple_info p ! slot)" and len: "row_size \<le> length row_data"
  shows "\<exists>p'. update_row meta row_data row_size slot p = Inr (True, p') \<and> page_wf p' \<and>
           page_rows p' = (page_rows p)[slot := (meta, take row_size row_data)] \<and>
           next_page_id p' = next_page_id p"
proof -
  let ?infos = "tuple_info p" let ?i = "?infos ! slot" let ?data = "take row_size row_data"
  let ?new = "\<lparr>si_offset = si_offset ?i, si_size = row_size, si_meta = meta\<rparr>"
  let ?q = "p\<lparr>num_deleted_tuples := bump_deleted (si_meta ?i) meta (num_deleted_tuples p),
               tuple_info := ?infos[slot := ?new]\<rparr>"
  let ?p' = "?q\<lparr>page_bytes := buf_write (si_offset ?i) ?data (page_bytes p)\<rparr>"
  have sl': "slot < length ?infos" using sl by (simp add: num_tuples_def)
  have pk: "packed PAGE_SIZE ?infos" using wf by (simp add: page_wf_def)
  note ps = packed_split [OF pk sl']
  have dl: "length ?data = row_size" using len by simp
  have upd: "?infos[slot := ?new] = take slot ?infos @ ?new # drop (Suc slot) ?infos"
    using sl' by (simp add: upd_conv_take_nth_drop)
  have lows: "low_off PAGE_SIZE (take slot ?infos) \<le> PAGE_SIZE" "low_off PAGE_SIZE ?infos \<le> si_offset ?i"
    using ps packed_low_le by (auto simp: packed_low_le) (metis packed_low_le)
  have hdr: "header_end ?q = header_end p" by (simp add: header_end_def num_tuples_def)
  have copy: "page_copy (si_offset ?i) ?data ?q = Inr ?p'"
    using wf lows ps(2) sz dl hdr by (auto simp: page_copy_def page_wf_def)
  have wf': "page_wf ?p'"
    using wf ps lows dl sz sl' unfolding page_wf_def header_end_def num_tuples_def
    by (simp add: upd [unfolded sz] Suc_diff_Suc flip: add_mult_distrib2 mult_Suc_right)
  let ?r = "\<lambda>bs s. (si_meta s, buf_read (si_offset s) (si_size s) bs)"
  let ?bs = "buf_write (si_offset ?i) ?data (page_bytes p)"
  have lb: "length (page_bytes p) = PAGE_SIZE" using wf by (simp add: page_wf_def)
  have above: "map (?r ?bs) (take slot ?infos) = map (?r (page_bytes p)) (take slot ?infos)"
    by (rule map_rows_write_below [of PAGE_SIZE]) (use ps lb sz dl in simp_all)
  have below: "map (?r ?bs) (drop (Suc slot) ?infos) = map (?r (page_bytes p)) (drop (Suc slot) ?infos)"
  proof (rule map_cong [OF refl])
    fix s assume "s \<in> set (drop (Suc slot) ?infos)"
    with ps(3) have "si_offset s + si_size s \<le> si_offset ?i" by (auto dest: packed_member)
    then show "?r ?bs s = ?r (page_bytes p) s"
      using lb lows ps(2) sz dl by (simp add: buf_simps)
  qed
  have "page_rows ?p' = (page_rows p)[slot := (meta, ?data)]"
    using above below sl' sz dl lb lows ps(2)
      buf_read_write_same [of "si_offset ?i" "page_bytes p" ?data]
    by (simp add: page_rows_def upd upd_conv_take_nth_drop take_map drop_map)
  with copy wf' sl' sz show ?thesis
    by (intro exI [of _ ?p']) (simp add: update_row_def num_tuples_def Let_def)
qed

text \<open>A size-changing update that leaves room for the slot array.\<close>

lemma update_row_resize_fits:
  assumes wf: "page_wf p" and sl: "slot < num_tuples p"
    and ne: "row_size \<noteq> si_size (tuple_info p ! slot)"
    and fits: "row_size \<le> si_size (tuple_info p ! slot) + free_space p"
    and len: "row_size \<le> length row_data"
  shows "\<exists>p'. update_row meta row_data row_size slot p = Inr (True, p') \<and> page_wf p' \<and>
           page_rows p' = (page_rows p)[slot := (meta, take row_size row_data)] \<and>
           next_page_id p' = next_page_id p"
proof -
  let ?infos = "tuple_info p" let ?i = "?infos ! slot" let ?data = "take row_size row_data"
  let ?low = "low_off PAGE_SIZE ?infos" let ?os = "si_offset ?i" let ?old = "si_size ?i"
  define d where "d = int ?old - int row_size"
  have sl': "slot < length ?infos" using sl by (simp add: num_tuples_def)
  have pk: "packed PAGE_SIZE ?infos" and lb: "length (page_bytes p) = PAGE_SIZE"
    using wf by (simp_all add: page_wf_def)
  note ps = packed_split [OF pk sl'] and bnd = page_wf_low_bounds [OF wf]
  define hi where "hi = low_off PAGE_SIZE (take slot ?infos)"
  have hi: "?os + ?old = hi" "hi \<le> 8192" "?low \<le> ?os"
    using ps packed_low_le [OF ps(1)] packed_low_le [OF ps(3)] by (auto simp: hi_def page_consts)
  have last: "si_offset (last ?infos) = ?low" using sl' by (simp add: low_off_last [symmetric] flip: length_greater_0_conv)
  have nb: "int ?low + d \<ge> int (header_end p)" "int ?low + d < 65536" "int ?os + d \<ge> 0" "int ?os + d < 65536"
    using fits hi bnd by (auto simp: d_def free_space_def)
  define nbs where "nbs = nat (int ?low + d)"
  define nos where "nos = nat (int ?os + d)"
  have nbs: "to_size_t (int ?low + d) = nbs" and nos: "to_u16 (int ?os + d) = nos"
    and bsz: "to_u16 (int ?os - int ?low) = ?os - ?low"
    using nb hi by (auto simp: nbs_def nos_def nat_diff_distrib)
  have eqs: "nos + row_size = hi" "nbs + (?os - ?low) = nos" "header_end p \<le> nbs" "int nbs = int ?low + d"
    "int nos = int ?os + d"
    using nb hi by (auto simp: nbs_def nos_def d_def)
  have dl: "length ?data = row_size" using len by simp
  let ?blk = "buf_read ?low (?os - ?low) (page_bytes p)"
  have bl: "length ?blk = ?os - ?low" using hi lb by (simp add: page_consts)
  define bs1 where "bs1 = (if ?os - ?low > 0 then buf_write nbs ?blk (page_bytes p) else page_bytes p)"
  have bs1: "(if ?os - ?low > 0 then page_copy nbs ?blk p else Inr p) = Inr (p\<lparr>page_bytes := bs1\<rparr>)"
    using eqs bl hi by (auto simp: bs1_def page_copy_def page_consts)
  have lb1: "length bs1 = PAGE_SIZE" using lb eqs bl hi by (auto simp: bs1_def page_consts)
  define bs2 where "bs2 = buf_write nos ?data bs1"
  have bs2: "page_copy nos ?data (p\<lparr>page_bytes := bs1\<rparr>) = Inr (p\<lparr>page_bytes := bs2\<rparr>)"
    using eqs dl hi by (auto simp: bs2_def page_copy_def header_end_def num_tuples_def page_consts)
  let ?new = "\<lparr>si_offset = nos, si_size = row_size, si_meta = meta\<rparr>"
  let ?infos' = "take slot ?infos @ [?new] @ map (shift_offset d) (drop (Suc slot) ?infos)"
  let ?p' = "p\<lparr>page_bytes := bs2, num_deleted_tuples := bump_deleted (si_meta ?i) meta (num_deleted_tuples p),
               tuple_info := ?infos'\<rparr>"
  have res: "update_row meta row_data row_size slot p = Inr (True, ?p')"
    using sl ne eqs(3) bs2
    unfolding update_row_def Let_def last d_def [symmetric] nbs nos bsz bs1 by simp
  have sh: "packed nos (map (shift_offset d) (drop (Suc slot) ?infos))"
    "int (low_off nos (map (shift_offset d) (drop (Suc slot) ?infos))) = int ?low + d"
    using packed_shift [OF ps(3), of d nos] ps(4) nb eqs by auto
  have wf': "page_wf ?p'"
    using sh ps(1) eqs lb1 dl hi sl' nb(1) unfolding page_wf_def hi_def [symmetric]
    by (auto simp: bs2_def header_end_def num_tuples_def page_consts hi_def)
  let ?r = "\<lambda>bs s. (si_meta s, buf_read (si_offset s) (si_size s) bs)"
  have above: "map (?r bs2) (take slot ?infos) = map (?r (page_bytes p)) (take slot ?infos)"
  proof -
    have "map (?r bs2) (take slot ?infos) = map (?r bs1) (take slot ?infos)"
      unfolding bs2_def
      by (rule map_rows_write_below [of PAGE_SIZE]) (use ps(1) lb1 eqs dl hi_def in simp_all)
    also have "\<dots> = map (?r (page_bytes p)) (take slot ?infos)"
      unfolding bs1_def using map_rows_write_below [of PAGE_SIZE "take slot ?infos" "page_bytes p" nbs ?blk]
        ps(1) lb eqs bl hi_def by (simp split: if_split)
    finally show ?thesis .
  qed
  have below: "map (?r bs2) (map (shift_offset d) (drop (Suc slot) ?infos)) = map (?r (page_bytes p)) (drop (Suc slot) ?infos)"
    unfolding map_map
  proof (rule map_cong [OF refl])
    fix s assume s: "s \<in> set (drop (Suc slot) ?infos)"
    with ps(3,4) have o: "si_offset s + si_size s \<le> ?os" "?low \<le> si_offset s" by (auto dest: packed_member)
    have so: "si_offset (shift_offset d s) = nat (int (si_offset s) + d)"
      "si_size (shift_offset d s) = si_size s" "si_meta (shift_offset d s) = si_meta s"
      using o nb by (auto simp: shift_offset_def)
    define o' where "o' = nat (int (si_offset s) + d)"
    have o': "int o' = int (si_offset s) + d" using o nb by (simp add: o'_def)
    have rd2: "buf_read o' (si_size s) bs2 = buf_read o' (si_size s) bs1"
      unfolding bs2_def by (rule buf_read_write_below) (use o o' eqs dl lb1 hi in \<open>auto simp: page_consts\<close>)
    have rd1: "buf_read o' (si_size s) bs1 = buf_read (si_offset s) (si_size s) (page_bytes p)"
    proof (cases "?os - ?low > 0")
      case True
      have "buf_read o' (si_size s) bs1 = take (si_size s) (drop (o' - nbs) ?blk)"
        using True o o' eqs bl lb hi unfolding bs1_def
        by (simp add: buf_read_write_inside page_consts)
      also have "o' - nbs = si_offset s - ?low" using o' eqs o by linarith
      also have "take (si_size s) (drop (si_offset s - ?low) ?blk) = buf_read (si_offset s) (si_size s) (page_bytes p)"
        using o by (simp add: buf_read_def drop_take min_def)
      finally show ?thesis .
    next
      case False
      with o have "si_size s = 0" by linarith
      then show ?thesis by (simp add: buf_read_def)
    qed
    show "(?r bs2 \<circ> shift_offset d) s = ?r (page_bytes p) s"
      using rd1 rd2 so by (simp add: o'_def)
  qed
  have self: "buf_read nos row_size bs2 = ?data"
    unfolding bs2_def using buf_read_write_same [of nos bs1 ?data] dl lb1 eqs hi by (simp add: page_consts)
  have "page_rows ?p' = (page_rows p)[slot := (meta, ?data)]"
    using above below self sl'
    by (simp add: page_rows_def upd_conv_take_nth_drop take_map drop_map)
  with res wf' show ?thesis by (intro exI [of _ ?p']) simp
qed

lemma update_row_too_big:
  assumes wf: "page_wf p" and sl: "slot < num_tuples p"
    and big: "si_size (tuple_info p ! slot) + free_space p < row_size"
    and le: "row_size \<le> si_size (tuple_info p ! slot) + low_off PAGE_SIZE (tuple_info p)"
  shows "update_row meta row_data row_size slot p = Inr (False, p)"
proof -
  let ?infos = "tuple_info p"
  have last: "si_offset (last ?infos) = low_off PAGE_SIZE ?infos"
    using sl by (subst low_off_last) (auto simp: num_tuples_def)
  have "to_size_t (int (low_off PAGE_SIZE ?infos) + (int (si_size (?infos ! slot)) - int row_size)) < header_end p"
    using big le page_wf_low_bounds [OF wf] by (auto simp: free_space_def nat_less_iff)
  with sl big show ?thesis unfolding update_row_def Let_def last by simp
qed

lemma update_row_wraps:
  assumes wf: "page_wf p" and sl: "slot < num_tuples p"
    and big: "si_size (tuple_info p ! slot) + low_off PAGE_SIZE (tuple_info p) < row_size"
    and u16: "row_size < 65536" and len: "row_size \<le> length row_data"
  shows "update_row meta row_data row_size slot p = Inl OutOfPageAccess"
proof -
  let ?infos = "tuple_info p" let ?i = "?infos ! slot" let ?os = "si_offset ?i" let ?old = "si_size ?i"
  let ?low = "low_off PAGE_SIZE ?infos"
  have sl': "slot < length ?infos" using sl by (simp add: num_tuples_def)
  have last: "si_offset (last ?infos) = ?low"
    using sl by (subst low_off_last) (auto simp: num_tuples_def)
  have pk: "packed PAGE_SIZE ?infos" using wf by (simp add: page_wf_def)
  note ps = packed_split [OF pk sl'] and bnd = page_wf_low_bounds [OF wf]
  have os: "?low \<le> ?os" "?os + ?old \<le> 8192"
    using ps packed_low_le [OF ps(1)] packed_low_le [OF ps(3)] by (auto simp: page_consts)
  have bsz: "to_u16 (int ?os - int ?low) = ?os - ?low" using os by (simp add: nat_diff_distrib)
  let ?nb = "to_size_t (int ?low + (int ?old - int row_size))"
  have nb: "?nb = nat (int ?low + (int ?old - int row_size) + 2 ^ 64)"
    using big u16 by (intro to_size_t_neg) auto
  have nb_big: "2 ^ 63 < ?nb" unfolding nb using u16 by simp
  show ?thesis
  proof (cases "?low < ?os")
    case True
    then have "page_copy ?nb x p = Inl OutOfPageAccess" for x
      using nb_big by (simp add: page_copy_def page_consts)
    then show ?thesis using sl big nb_big bnd page_wf_slots [OF wf] True
      unfolding update_row_def Let_def last bsz by (simp add: page_consts)
  next
    case False
    with os have eq: "?os = ?low" by simp
    have "to_u16 (int ?os + (int ?old - int row_size)) + row_size > PAGE_SIZE"
      using big u16 eq os by (subst to_u16_neg) (auto simp: page_consts)
    then have "page_copy (to_u16 (int ?os + (int ?old - int row_size))) (take row_size row_data) p = Inl OutOfPageAccess"
      using len by (simp add: page_copy_def)
    then show ?thesis using sl big nb_big bnd page_wf_slots [OF wf] False eq
      unfolding update_row_def Let_def last bsz by (simp add: page_consts)
  qed
qed

section \<open>Properties\<close>

text \<open>
  (C13) Inserting into a well-formed page: when the row and its 24-byte slot entry fit in the gap
  between the slot array and the lowest row, the row is appended under the next slot number and
  every stored row is untouched; otherwise the page is returned unchanged with no slot. The
  insert never copies outside the frame.
\<close>

theorem insert_row_appends:
  assumes "page_wf p" and "row_size \<le> length row_data"
  shows "if row_size + TUPLE_INFO_SIZE \<le> free_space p
         then \<exists>p'. insert_row meta row_data row_size p = Inr (Some (num_tuples p), p') \<and> page_wf p' \<and>
                page_rows p' = page_rows p @ [(meta, take row_size row_data)]
         else insert_row meta row_data row_size p = Inr (None, p)"
  using insert_row_fits [OF assms(1) _ assms(2)] insert_row_full [OF assms(1)] by fastforce

lemma empty_page_wf: "page_wf empty_page" and empty_page_num: "num_tuples empty_page = 0"
  and empty_page_free: "free_space empty_page = 8184"
  by (simp_all add: empty_page_def page_init_def page_wf_def header_end_def num_tuples_def
        free_space_def page_consts)

lemma two_row_page_wf: "page_wf two_row_page" and two_row_page_num: "num_tuples two_row_page = 2"
  and two_row_page_free: "free_space two_row_page = 8131"
  and two_row_page_low: "low_off PAGE_SIZE (tuple_info two_row_page) = 8187"
  and two_row_page_size: "si_size (tuple_info two_row_page ! 0) = 3"
  by (simp_all add: two_row_page_def empty_page_def page_init_def page_wf_def header_end_def
        num_tuples_def free_space_def page_consts)

lemmas two_row_page_facts = two_row_page_wf two_row_page_num two_row_page_free two_row_page_low
  two_row_page_size

theorem insert_row_appends_witness:
  "\<exists>p'. insert_row \<lparr>ts = 7, is_deleted = False\<rparr> [1, 2, 3] 3 empty_page = Inr (Some 0, p') \<and>
     page_wf p' \<and> page_rows p' = page_rows empty_page @ [(\<lparr>ts = 7, is_deleted = False\<rparr>, [1, 2, 3])]"
  using insert_row_appends [OF empty_page_wf, of 3 "[1, 2, 3]" "\<lparr>ts = 7, is_deleted = False\<rparr>"]
  by (simp add: empty_page_free empty_page_num page_consts)

text \<open>
  (C14) Rewriting a row in a well-formed page, also with a size change that slides the rows below:
  when the grown row still fits, exactly the addressed slot changes and every other row keeps its
  metadata and bytes; when it does not fit and the grow is at most the lowest row offset, the page
  is returned unchanged with \<^verbatim>\<open>false\<close>.
\<close>

theorem update_row_rewrites:
  assumes "page_wf p" and "slot < num_tuples p" and "row_size \<le> length row_data"
    and "row_size \<le> si_size (tuple_info p ! slot) + low_off PAGE_SIZE (tuple_info p)"
  shows "if row_size \<le> si_size (tuple_info p ! slot) + free_space p
         then \<exists>p'. update_row meta row_data row_size slot p = Inr (True, p') \<and> page_wf p' \<and>
                page_rows p' = (page_rows p)[slot := (meta, take row_size row_data)]
         else update_row meta row_data row_size slot p = Inr (False, p)"
  using update_row_same_size [OF assms(1,2) _ assms(3)] update_row_resize_fits [OF assms(1,2) _ _ assms(3)]
    update_row_too_big [OF assms(1,2) _ assms(4)]
  by (cases "row_size = si_size (tuple_info p ! slot)") fastforce+

theorem update_row_rewrites_witness:
  "\<exists>p'. update_row \<lparr>ts = 9, is_deleted = False\<rparr> [1, 2, 3, 4, 5] 5 0 two_row_page = Inr (True, p') \<and>
     page_wf p' \<and> page_rows p' = (page_rows two_row_page)[0 := (\<lparr>ts = 9, is_deleted = False\<rparr>, [1, 2, 3, 4, 5])]"
  using update_row_rewrites [of two_row_page 0 5 "[1, 2, 3, 4, 5]" "\<lparr>ts = 9, is_deleted = False\<rparr>"]
  by (simp add: two_row_page_facts)

text \<open>
  (C15) The fit check of the size-changing update is computed in \<^verbatim>\<open>size_t\<close>: when the grow exceeds
  the lowest row offset the sum wraps around, the check passes and the code copies outside the
  frame instead of returning \<^verbatim>\<open>false\<close>.
\<close>

theorem update_row_wraparound:
  assumes "page_wf p" and "slot < num_tuples p" and "row_size \<le> length row_data" and "row_size < 65536"
    and "si_size (tuple_info p ! slot) + low_off PAGE_SIZE (tuple_info p) < row_size"
  shows "update_row meta row_data row_size slot p = Inl OutOfPageAccess"
  using assms by (intro update_row_wraps)

theorem update_row_wraparound_witness:
  "update_row \<lparr>ts = 9, is_deleted = False\<rparr> (replicate 9000 0) 9000 0 two_row_page = Inl OutOfPageAccess"
  by (rule update_row_wraparound) (simp_all add: two_row_page_facts)

text \<open>
  The metadata write that stamps a commit timestamp or a delete mark changes the addressed
  slot's metadata and nothing else of the page's content, and reading the slot gives it back.
\<close>

theorem update_tuple_meta_only_meta:
  assumes "page_wf p" and "slot < num_tuples p"
  shows "\<exists>p'. update_tuple_meta meta slot p = Inr p' \<and> page_wf p' \<and>
           page_rows p' = (page_rows p)[slot := (meta, snd (page_rows p ! slot))] \<and>
           get_tuple_meta p' slot = Inr meta \<and> get_row p' slot = Inr (meta, snd (page_rows p ! slot))"
proof -
  from update_tuple_meta_rows [OF assms] obtain p' where
    p': "update_tuple_meta meta slot p = Inr p'" "page_wf p'"
    "page_rows p' = (page_rows p)[slot := (meta, snd (page_rows p ! slot))]" by blast
  then have "num_tuples p' = num_tuples p" by (metis length_list_update length_page_rows)
  with p' assms show ?thesis by (simp add: page_simps)
qed

theorem update_tuple_meta_only_meta_witness:
  "\<exists>p'. update_tuple_meta \<lparr>ts = 9, is_deleted = True\<rparr> 1 two_row_page = Inr p' \<and>
     get_tuple_meta p' 1 = Inr \<lparr>ts = 9, is_deleted = True\<rparr>"
  using update_tuple_meta_only_meta [of two_row_page 1 "\<lparr>ts = 9, is_deleted = True\<rparr>"]
  by (auto simp: two_row_page_facts)

end
