(* ===== verification/Transaction.thy ===== *)
theory Transaction
  imports Prelude "HOL-Library.AList"
begin

text \<open>
  A transaction object (\<^verbatim>\<open>include/concurrency/transaction.h\<close>): its snapshot and commit timestamps,
  lifecycle state, undo buffer, write set and recorded scan predicates, and the admission protocol
  that keeps the timeout collector from rolling back underneath a running statement.

  The unordered maps and sets of the C++ class are association lists and duplicate-free lists in the
  order of first insertion; every client of their iteration order is stated for an arbitrary one.
  Scan predicates are functions of the row bytes (the row layout they close over is fixed per
  table). Indexing \<^verbatim>\<open>undo_logs_\<close> out of range is undefined in the source and unspecified here.
\<close>

type_synonym rid = "int \<times> nat"
type_synonym row = "byte list"

definition INVALID_TXN_ID :: int where "INVALID_TXN_ID = -1"

definition TXN_START_ID :: int where "TXN_START_ID = 2 ^ 62"

datatype transaction_state = RUNNING | TAINTED | COMMITTED | ABORTED

datatype isolation_level = SNAPSHOT_ISOLATION | SERIALIZABLE

record undo_link =
  prev_txn :: int
  prev_log_idx :: nat

definition undo_link_invalid :: undo_link where
  "undo_link_invalid = \<lparr>prev_txn = INVALID_TXN_ID, prev_log_idx = 0\<rparr>"

definition link_valid :: "undo_link \<Rightarrow> bool" where
  "link_valid l \<longleftrightarrow> prev_txn l \<noteq> INVALID_TXN_ID"

record undo_log =
  ul_is_deleted :: bool
  ul_row :: row
  ul_ts :: int
  ul_prev_version :: undo_link

type_synonym scan_predicate = "row \<Rightarrow> bool"

record txn =
  txn_state :: transaction_state
  read_ts :: int
  commit_ts :: int
  cancellation_requested :: bool
  active_statements :: nat
  undo_logs :: "undo_log list"
  write_set :: "(nat \<times> rid list) list"
  scan_predicates :: "(nat \<times> scan_predicate list) list"
  txn_isolation :: isolation_level
  txn_id :: int
  start_time :: int

definition txn_new :: "int \<Rightarrow> isolation_level \<Rightarrow> int \<Rightarrow> txn" where
  "txn_new i level now =
     \<lparr>txn_state = RUNNING, read_ts = 0, commit_ts = INVALID_TXN_ID, cancellation_requested = False,
      active_statements = 0, undo_logs = [], write_set = [], scan_predicates = [],
      txn_isolation = level, txn_id = i, start_time = now\<rparr>"

definition is_temp_ts :: "int \<Rightarrow> bool" where
  "is_temp_ts t \<longleftrightarrow> t \<ge> TXN_START_ID"

definition txn_live :: "txn \<Rightarrow> bool" where
  "txn_live t \<longleftrightarrow> txn_state t = RUNNING \<or> txn_state t = TAINTED"

section \<open>Cancellation and statement admission\<close>

definition request_cancellation :: "txn \<Rightarrow> bool \<times> txn" where
  "request_cancellation t =
     (if txn_state t \<noteq> RUNNING \<and> txn_state t \<noteq> TAINTED then (False, t)
      else if cancellation_requested t then (False, t)
      else (True, t\<lparr>cancellation_requested := True\<rparr>))"

definition leave_statement :: "txn \<Rightarrow> txn" where
  "leave_statement t = t\<lparr>active_statements := (active_statements t + (2 ^ 64 - 1)) mod 2 ^ 64\<rparr>"

definition enter_statement :: "txn \<Rightarrow> unit result \<times> txn" where
  "enter_statement t =
     (if cancellation_requested t
      then (Inl (ExecutionException ''transaction was cancelled by its timeout''), t)
      else let t1 = t\<lparr>active_statements := (active_statements t + 1) mod 2 ^ 64\<rparr>
           in if cancellation_requested t1 \<or> (txn_state t1 \<noteq> RUNNING \<and> txn_state t1 \<noteq> TAINTED)
              then (Inl (ExecutionException ''transaction is no longer active''), leave_statement t1)
              else (Inr (), t1))"

definition throw_if_cancellation_requested :: "txn \<Rightarrow> unit result" where
  "throw_if_cancellation_requested t =
     (if cancellation_requested t
      then Inl (ExecutionException ''transaction was cancelled by its timeout'') else Inr ())"

definition is_expired :: "int \<Rightarrow> int \<Rightarrow> txn \<Rightarrow> bool" where
  "is_expired timeout now t \<longleftrightarrow> now - start_time t \<ge> timeout"

section \<open>Undo buffer, write set and read set\<close>

definition modify_undo_log :: "nat \<Rightarrow> undo_log \<Rightarrow> txn \<Rightarrow> txn" where
  "modify_undo_log i l t = t\<lparr>undo_logs := (undo_logs t)[i := l]\<rparr>"

definition append_undo_log :: "undo_log \<Rightarrow> txn \<Rightarrow> undo_link \<times> txn" where
  "append_undo_log l t =
     (let logs = undo_logs t @ [l]
      in (\<lparr>prev_txn = txn_id t, prev_log_idx = length logs - 1\<rparr>, t\<lparr>undo_logs := logs\<rparr>))"

definition get_undo_log :: "nat \<Rightarrow> txn \<Rightarrow> undo_log" where
  "get_undo_log i t = undo_logs t ! i"

definition append_write_set :: "nat \<Rightarrow> rid \<Rightarrow> txn \<Rightarrow> txn" where
  "append_write_set oid r t =
     (let rids = (case map_of (write_set t) oid of None \<Rightarrow> [] | Some rs \<Rightarrow> rs)
      in t\<lparr>write_set := AList.update oid (List.insert r rids) (write_set t)\<rparr>)"

definition append_scan_predicate :: "nat \<Rightarrow> scan_predicate \<Rightarrow> txn \<Rightarrow> txn" where
  "append_scan_predicate oid pred t =
     (let preds = (case map_of (scan_predicates t) oid of None \<Rightarrow> [] | Some ps \<Rightarrow> ps)
      in t\<lparr>scan_predicates := AList.update oid (preds @ [pred]) (scan_predicates t)\<rparr>)"

definition is_scan_tuple :: "nat \<Rightarrow> row \<Rightarrow> txn \<Rightarrow> bool" where
  "is_scan_tuple oid r t =
     (case map_of (scan_predicates t) oid of
        None \<Rightarrow> False
      | Some preds \<Rightarrow> \<exists>pred \<in> set preds. pred r)"

definition set_tainted :: "txn \<Rightarrow> unit result \<times> txn" where
  "set_tainted t =
     (if txn_state t \<noteq> RUNNING then (Inl (Exception ''only a RUNNING transaction can be tainted''), t)
      else (Inr (), t\<lparr>txn_state := TAINTED\<rparr>))"

text \<open>The record ids a transaction wrote, in the iteration order of its write set.\<close>

definition written :: "txn \<Rightarrow> (nat \<times> rid) list" where
  "written t = concat (map (\<lambda>(oid, rids). map (\<lambda>r. (oid, r)) rids) (write_set t))"

definition write_set_wf :: "txn \<Rightarrow> bool" where
  "write_set_wf t \<longleftrightarrow> distinct (map fst (write_set t)) \<and> (\<forall>(oid, rids) \<in> set (write_set t). distinct rids)"

section \<open>Lemmas\<close>

lemma txn_live_state [simp]:
  "txn_state t = RUNNING \<Longrightarrow> txn_live t" "txn_state t = TAINTED \<Longrightarrow> txn_live t"
  "txn_state t = COMMITTED \<Longrightarrow> \<not> txn_live t" "txn_state t = ABORTED \<Longrightarrow> \<not> txn_live t"
  by (auto simp: txn_live_def)

lemma set_written: "set (written t) = {(oid, r). \<exists>rids. (oid, rids) \<in> set (write_set t) \<and> r \<in> set rids}"
  by (auto simp: written_def)

lemma append_undo_log_sel:
  "append_undo_log l t = (\<lparr>prev_txn = txn_id t, prev_log_idx = length (undo_logs t)\<rparr>,
                          t\<lparr>undo_logs := undo_logs t @ [l]\<rparr>)"
  by (simp add: append_undo_log_def Let_def)

lemma append_write_set_sel [simp]:
  "txn_state (append_write_set oid r t) = txn_state t" "read_ts (append_write_set oid r t) = read_ts t"
  "commit_ts (append_write_set oid r t) = commit_ts t" "txn_id (append_write_set oid r t) = txn_id t"
  "undo_logs (append_write_set oid r t) = undo_logs t"
  "txn_isolation (append_write_set oid r t) = txn_isolation t"
  "scan_predicates (append_write_set oid r t) = scan_predicates t"
  by (simp_all add: append_write_set_def Let_def)

lemma append_write_set_wf: "write_set_wf t \<Longrightarrow> write_set_wf (append_write_set oid r t)"
proof -
  assume wf: "write_set_wf t"
  have upd: "set (AList.update k v xs) \<subseteq> insert (k, v) (set xs)" for k and v :: "rid list" and xs
    by (induction xs) auto
  have "distinct (case map_of (write_set t) oid of None \<Rightarrow> [] | Some rs \<Rightarrow> rs)"
    using wf by (auto simp: write_set_wf_def split: option.splits dest!: map_of_SomeD)
  then show ?thesis
    using wf upd [of oid _ "write_set t"]
    by (fastforce simp: write_set_wf_def append_write_set_def Let_def distinct_update)
qed

lemma set_written_append:
  assumes "write_set_wf t"
  shows "set (written (append_write_set oid r t)) = insert (oid, r) (set (written t))"
proof -
  let ?rids = "case map_of (write_set t) oid of None \<Rightarrow> [] | Some rs \<Rightarrow> rs"
  have d: "distinct (map fst (write_set t))" using assms by (simp add: write_set_wf_def)
  then have d': "distinct (map fst (AList.update oid (List.insert r ?rids) (write_set t)))"
    by (rule distinct_update)
  have mem: "(x, rids) \<in> set (write_set (append_write_set oid r t)) \<longleftrightarrow>
      (if x = oid then rids = List.insert r ?rids else (x, rids) \<in> set (write_set t))" for x rids
    using d d' map_of_eq_Some_iff [OF d, of x rids] map_of_eq_Some_iff [OF d', of x rids]
    by (auto simp: append_write_set_def Let_def update_conv')
  have old: "(oid, rids) \<in> set (write_set t) \<longleftrightarrow> map_of (write_set t) oid = Some rids" for rids
    using d by simp
  have "(x, y) \<in> set (written (append_write_set oid r t)) \<longleftrightarrow> (x, y) \<in> insert (oid, r) (set (written t))" for x y
    by (cases "x = oid") (auto simp: set_written mem old split: option.splits)
  then show ?thesis by (intro set_eqI) force
qed

lemma distinct_written: "write_set_wf t \<Longrightarrow> distinct (written t)"
proof -
  have "distinct (map fst ws) \<Longrightarrow> \<forall>(oid, rids) \<in> set ws. distinct rids \<Longrightarrow>
      distinct (concat (map (\<lambda>(oid, rids). map (\<lambda>r. (oid, r)) rids) ws))" for ws :: "(nat \<times> rid list) list"
    by (induction ws) (force simp: distinct_map inj_on_def)+
  then show "write_set_wf t \<Longrightarrow> distinct (written t)"
    by (auto simp: written_def write_set_wf_def)
qed

section \<open>Properties\<close>

text \<open>
  Statement admission against the timeout collector: once a cancellation request has been
  accepted, every later attempt to enter a statement is refused and leaves the transaction as it
  was, and a second request is not accepted; before it, entering and leaving a statement of a live
  transaction restores the statement count.
\<close>

theorem cancellation_blocks_statements:
  assumes "active_statements t < 2 ^ 64 - 1"
  shows "(fst (request_cancellation t) \<longrightarrow>
            (let t' = snd (request_cancellation t)
             in snd (enter_statement t') = t' \<and>
                isl (fst (enter_statement t')) \<and> \<not> fst (request_cancellation t'))) \<and>
         (txn_live t \<and> \<not> cancellation_requested t \<longrightarrow>
            fst (enter_statement t) = Inr () \<and> leave_statement (snd (enter_statement t)) = t)"
  using assms by (auto simp: request_cancellation_def enter_statement_def leave_statement_def txn_live_def Let_def)

theorem cancellation_blocks_statements_witness:
  "fst (request_cancellation (txn_new 7 SERIALIZABLE 0)) \<and>
   isl (fst (enter_statement (snd (request_cancellation (txn_new 7 SERIALIZABLE 0)))))"
  using cancellation_blocks_statements [of "txn_new 7 SERIALIZABLE 0"]
  by (simp add: txn_new_def request_cancellation_def Let_def)

end
