(* ===== verification/TableHeap.thy ===== *)
theory TableHeap
  imports TablePage Transaction "HOL-Library.Monad_Syntax"
begin

text \<open>
  The row-format table (\<^verbatim>\<open>storage/table/table_heap.{h,cpp}\<close>): a singly linked list of slotted pages
  with a page directory, and the page-index morsels of a parallel scan.

  The buffer pool appears here through its contract only: a total map from page ids to page
  contents (a page that was never written reads back as zeros), the allocator's free list and
  high-water mark, and whether a page is pinned. A \<^verbatim>\<open>DataChunk\<close> to be written is the list of the
  row byte strings \<^verbatim>\<open>ScatterChunk\<close> produces. Operations that throw return the exception next to the
  state they leave behind.
\<close>

section \<open>The page store\<close>

record page_store =
  page_of :: "int \<Rightarrow> table_page"
  free_pages :: "int list"
  next_new_page :: int
  page_pinned :: "int \<Rightarrow> bool"

definition zero_page :: table_page where
  "zero_page = \<lparr>next_page_id = 0, num_deleted_tuples = 0, tuple_info = [], page_bytes = replicate PAGE_SIZE 0\<rparr>"

definition new_page :: "page_store \<Rightarrow> int \<times> page_store" where
  "new_page st =
     (if free_pages st \<noteq> []
      then (last (free_pages st), st\<lparr>free_pages := butlast (free_pages st)\<rparr>)
      else (next_new_page st, st\<lparr>next_new_page := next_new_page st + 1\<rparr>))"

definition delete_page :: "int \<Rightarrow> page_store \<Rightarrow> bool \<times> page_store" where
  "delete_page pid st =
     (if page_pinned st pid then (False, st)
      else (True, st\<lparr>page_of := (page_of st)(pid := zero_page), free_pages := free_pages st @ [pid]\<rparr>))"

definition put_page :: "int \<Rightarrow> table_page \<Rightarrow> page_store \<Rightarrow> page_store" where
  "put_page pid p st = st\<lparr>page_of := (page_of st)(pid := p)\<rparr>"

text \<open>\<^verbatim>\<open>RID::GetSlotNum\<close> is 32 bits wide, the slot parameter of every page operation 16 bits.\<close>

definition page_slot :: "rid \<Rightarrow> nat" where
  "page_slot r = snd r mod 2 ^ 16"

section \<open>The heap\<close>

record table_heap =
  first_page_id :: int
  last_page_id :: int
  page_directory :: "int list"

definition table_heap_new :: "page_store \<Rightarrow> table_heap \<times> page_store" where
  "table_heap_new st =
     (let (pid, st1) = new_page st
      in (\<lparr>first_page_id = pid, last_page_id = pid, page_directory = [pid]\<rparr>,
          put_page pid (page_init (page_of st1 pid)) st1))"

text \<open>Recovery: rebuild the directory by walking the on-disk chain; \<^const>\<open>None\<close> is a walk that never ends.\<close>

partial_function (option) walk_chain :: "page_store \<Rightarrow> int \<Rightarrow> int list option" where
  [code]: "walk_chain st pid =
     (if pid = INVALID_PAGE_ID then Some []
      else Option.bind (walk_chain st (next_page_id (page_of st pid))) (\<lambda>dir. Some (pid # dir)))"

definition table_heap_open :: "page_store \<Rightarrow> int \<Rightarrow> int \<Rightarrow> table_heap option" where
  "table_heap_open st first_pid last_pid =
     map_option (\<lambda>dir. \<lparr>first_page_id = first_pid, last_page_id = last_pid, page_directory = dir\<rparr>) (walk_chain st first_pid)"

function append_row_bytes ::
  "tuple_meta \<Rightarrow> row \<Rightarrow> nat \<Rightarrow> table_heap \<Rightarrow> page_store \<Rightarrow> rid result \<times> table_heap \<times> page_store" where
  "append_row_bytes meta row_data row_size h st =
     (case insert_row meta row_data row_size (page_of st (last_page_id h)) of
        Inl e \<Rightarrow> (Inl e, h, st)
      | Inr (Some slot, p) \<Rightarrow> (Inr (last_page_id h, slot), h, put_page (last_page_id h) p st)
      | Inr (None, p) \<Rightarrow>
          if num_tuples p = 0
          then (Inl (ExecutionException ''row is too large to fit in a page''), h, put_page (last_page_id h) p st)
          else
            let (new_page_id, st1) = new_page st;
                st2 = put_page (last_page_id h) (set_next_page_id new_page_id p) st1;
                st3 = put_page new_page_id (page_init (page_of st2 new_page_id)) st2
            in append_row_bytes meta row_data row_size
                 (h\<lparr>last_page_id := new_page_id, page_directory := page_directory h @ [new_page_id]\<rparr>) st3)"
  by pat_completeness auto
termination
  by (relation "measure (\<lambda>(_, _, _, h, st). num_tuples (page_of st (last_page_id h)))")
    (auto simp: put_page_def page_init_def num_tuples_def insert_row_def Let_def
      split: option.splits sum.splits)

declare append_row_bytes.simps [simp del]

fun heap_append :: "row list \<Rightarrow> table_heap \<Rightarrow> page_store \<Rightarrow> rid list result \<times> table_heap \<times> page_store" where
  "heap_append [] h st = (Inr [], h, st)"
| "heap_append (r # rs) h st =
     (case append_row_bytes \<lparr>ts = 0, is_deleted = False\<rparr> r (length r mod 2 ^ 16) h st of
        (Inl e, h1, st1) \<Rightarrow> (Inl e, h1, st1)
      | (Inr rid, h1, st1) \<Rightarrow>
          (case heap_append rs h1 st1 of
             (Inl e, h2, st2) \<Rightarrow> (Inl e, h2, st2)
           | (Inr rids, h2, st2) \<Rightarrow> (Inr (rid # rids), h2, st2)))"

fun heap_delete :: "rid list \<Rightarrow> page_store \<Rightarrow> unit result \<times> page_store" where
  "heap_delete [] st = (Inr (), st)"
| "heap_delete (rid # rids) st =
     (case get_tuple_meta (page_of st (fst rid)) (page_slot rid) of
        Inl e \<Rightarrow> (Inl e, st)
      | Inr meta \<Rightarrow>
          (case update_tuple_meta (meta\<lparr>is_deleted := True\<rparr>) (page_slot rid) (page_of st (fst rid)) of
             Inl e \<Rightarrow> (Inl e, st)
           | Inr p \<Rightarrow> heap_delete rids (put_page (fst rid) p st)))"

fun heap_update :: "(rid \<times> row) list \<Rightarrow> page_store \<Rightarrow> unit result \<times> page_store" where
  "heap_update [] st = (Inr (), st)"
| "heap_update ((rid, r) # rest) st =
     (case get_row (page_of st (fst rid)) (page_slot rid) of
        Inl e \<Rightarrow> (Inl e, st)
      | Inr (meta, old) \<Rightarrow>
          (case update_row meta r (length r mod 2 ^ 16) (page_slot rid) (page_of st (fst rid)) of
             Inl e \<Rightarrow> (Inl e, st)
           | Inr (ok, p) \<Rightarrow>
               if \<not> ok then (Inl (ExecutionException ''updated row is too large to fit in its page''), put_page (fst rid) p st)
               else heap_update rest (put_page (fst rid) p st)))"

fun heap_fetch :: "rid list \<Rightarrow> page_store \<Rightarrow> row list result" where
  "heap_fetch [] st = Inr []"
| "heap_fetch (rid # rids) st =
     (case get_row (page_of st (fst rid)) (page_slot rid) of
        Inl e \<Rightarrow> Inl e
      | Inr (meta, r) \<Rightarrow>
          (case heap_fetch rids st of Inl e \<Rightarrow> Inl e | Inr rs \<Rightarrow> Inr (r # rs)))"

definition estimated_row_count :: "table_heap \<Rightarrow> page_store \<Rightarrow> nat" where
  "estimated_row_count h st = sum_list (map (\<lambda>pid. num_tuples (page_of st pid)) (page_directory h))"

definition free_all_pages :: "table_heap \<Rightarrow> page_store \<Rightarrow> table_heap \<times> page_store" where
  "free_all_pages h st =
     (\<lparr>first_page_id = INVALID_PAGE_ID, last_page_id = INVALID_PAGE_ID, page_directory = []\<rparr>,
      fold (\<lambda>pid st. snd (delete_page pid st)) (page_directory h) st)"

section \<open>Morsels of a parallel scan\<close>

record morsel_state =
  ms_pages :: "int list"
  ms_stop_slot :: nat
  ms_next_page_idx :: nat
  ms_morsel_pages :: nat

definition begin_parallel_scan :: "nat \<Rightarrow> table_heap \<Rightarrow> page_store \<Rightarrow> morsel_state" where
  "begin_parallel_scan morsel_pages h st =
     \<lparr>ms_pages = page_directory h, ms_stop_slot = num_tuples (page_of st (last_page_id h)),
      ms_next_page_idx = 0, ms_morsel_pages = morsel_pages\<rparr>"

definition next_morsel :: "morsel_state \<Rightarrow> (nat \<times> nat) option \<times> morsel_state" where
  "next_morsel s =
     (let start = ms_next_page_idx s;
          s' = s\<lparr>ms_next_page_idx := start + ms_morsel_pages s\<rparr>
      in if start \<ge> length (ms_pages s) then (None, s')
         else (Some (start, min (start + ms_morsel_pages s) (length (ms_pages s))), s'))"

text \<open>The morsels \<open>n\<close> consecutive claims hand out.\<close>

fun claim_morsels :: "nat \<Rightarrow> morsel_state \<Rightarrow> (nat \<times> nat) list \<times> morsel_state" where
  "claim_morsels 0 s = ([], s)"
| "claim_morsels (Suc n) s =
     (let (m, s1) = next_morsel s; (ms, s2) = claim_morsels n s1
      in ((case m of None \<Rightarrow> ms | Some x \<Rightarrow> x # ms), s2))"

section \<open>Well-formed heaps\<close>

fun linked :: "page_store \<Rightarrow> int list \<Rightarrow> bool" where
  "linked st [] \<longleftrightarrow> False"
| "linked st [p] \<longleftrightarrow> next_page_id (page_of st p) = INVALID_PAGE_ID"
| "linked st (p # q # ps) \<longleftrightarrow> next_page_id (page_of st p) = q \<and> linked st (q # ps)"

definition allocated :: "page_store \<Rightarrow> int \<Rightarrow> bool" where
  "allocated st pid \<longleftrightarrow> 0 \<le> pid \<and> pid < next_new_page st \<and> pid \<notin> set (free_pages st)"

definition store_wf :: "page_store \<Rightarrow> bool" where
  "store_wf st \<longleftrightarrow> (\<forall>pid. page_wf (page_of st pid)) \<and> distinct (free_pages st) \<and>
     (\<forall>pid \<in> set (free_pages st). 0 \<le> pid \<and> pid < next_new_page st) \<and> 0 \<le> next_new_page st \<and>
     (\<forall>pid. \<not> allocated st pid \<longrightarrow> num_tuples (page_of st pid) = 0)"

text \<open>The stored tuple at a record id, if the slot exists.\<close>

definition row_at :: "page_store \<Rightarrow> rid \<Rightarrow> (tuple_meta \<times> row) option" where
  "row_at st r = (let p = page_of st (fst r) in if snd r < num_tuples p then Some (page_rows p ! snd r) else None)"

definition heap_wf :: "table_heap \<Rightarrow> page_store \<Rightarrow> bool" where
  "heap_wf h st \<longleftrightarrow> linked st (page_directory h) \<and> distinct (page_directory h) \<and>
     (\<forall>pid \<in> set (page_directory h). allocated st pid) \<and>
     first_page_id h = hd (page_directory h) \<and> last_page_id h = last (page_directory h)"

definition heap_rows :: "table_heap \<Rightarrow> page_store \<Rightarrow> (rid \<times> tuple_meta \<times> row) list" where
  "heap_rows h st =
     concat (map (\<lambda>pid. map (\<lambda>(i, r). ((pid, i), r)) (List.enumerate 0 (page_rows (page_of st pid)))) (page_directory h))"

section \<open>Pages of the store\<close>

lemma store_wf_page: "store_wf st \<Longrightarrow> page_wf (page_of st pid)"
  by (simp add: store_wf_def)

lemma zero_page_wf [simp]: "page_wf zero_page" "num_tuples zero_page = 0"
  by (simp_all add: zero_page_def page_wf_def header_end_def num_tuples_def page_consts)

lemma put_page_sel [simp]:
  "page_of (put_page pid p st) = (page_of st)(pid := p)" "free_pages (put_page pid p st) = free_pages st"
  "next_new_page (put_page pid p st) = next_new_page st" "allocated (put_page pid p st) = allocated st"
  by (simp_all add: put_page_def allocated_def fun_eq_iff)

lemma store_wf_put:
  "store_wf st \<Longrightarrow> page_wf p \<Longrightarrow> allocated st pid \<or> num_tuples p = 0 \<Longrightarrow> store_wf (put_page pid p st)"
  unfolding store_wf_def by auto

lemma page_slot_id:
  assumes "store_wf st" and "snd r < num_tuples (page_of st (fst r))"
  shows "page_slot r = snd r"
  using assms page_wf_num_tuples [OF store_wf_page [OF assms(1)], of "fst r"] by (simp add: page_slot_def)

lemma row_at_Some: "row_at st r = Some x \<longleftrightarrow>
    snd r < num_tuples (page_of st (fst r)) \<and> page_rows (page_of st (fst r)) ! snd r = x"
  by (auto simp: row_at_def Let_def)

lemma row_at_allocated: "store_wf st \<Longrightarrow> row_at st r = Some x \<Longrightarrow> allocated st (fst r)"
  unfolding store_wf_def row_at_Some by (metis not_less_zero)

lemma row_at_put:
  "row_at (put_page pid p st) r =
     (if fst r = pid then if snd r < num_tuples p then Some (page_rows p ! snd r) else None else row_at st r)"
  by (simp add: row_at_def Let_def)

lemma row_at_put_rows:
  assumes "page_rows p = page_rows (page_of st pid)"
  shows "row_at (put_page pid p st) = row_at st"
proof
  fix r
  from assms have "num_tuples p = num_tuples (page_of st pid)" by (metis length_page_rows)
  with assms show "row_at (put_page pid p st) r = row_at st r"
    by (simp add: row_at_put) (simp add: row_at_def)
qed

lemma row_at_put_update:
  assumes "page_rows p = (page_rows (page_of st pid))[i := x]" and "i < num_tuples (page_of st pid)"
  shows "row_at (put_page pid p st) = (row_at st)((pid, i) \<mapsto> x)"
proof
  fix r
  from assms have "num_tuples p = num_tuples (page_of st pid)" by (metis length_list_update length_page_rows)
  with assms show "row_at (put_page pid p st) r = ((row_at st)((pid, i) \<mapsto> x)) r"
    by (cases r) (simp add: row_at_put nth_list_update, simp add: row_at_def)
qed

lemma row_at_put_append:
  assumes "page_rows p = page_rows (page_of st pid) @ [x]"
  shows "row_at (put_page pid p st) = (row_at st)((pid, num_tuples (page_of st pid)) \<mapsto> x)"
proof
  fix r
  from assms have "num_tuples p = Suc (num_tuples (page_of st pid))"
    by (metis length_append_singleton length_page_rows)
  with assms show "row_at (put_page pid p st) r = ((row_at st)((pid, num_tuples (page_of st pid)) \<mapsto> x)) r"
    by (cases r) (simp add: row_at_put nth_append less_Suc_eq, simp add: row_at_def)
qed

lemma new_page_fresh:
  assumes wf: "store_wf st" and new: "new_page st = (pid, st1)"
  shows "\<not> allocated st pid" "allocated st1 = (\<lambda>x. x = pid \<or> allocated st x)" "store_wf st1"
    "page_of st1 = page_of st"
proof -
  have "\<not> allocated st pid \<and> page_of st1 = page_of st \<and> (\<forall>x. allocated st1 x \<longleftrightarrow> x = pid \<or> allocated st x) \<and>
      distinct (free_pages st1) \<and> (\<forall>x \<in> set (free_pages st1). 0 \<le> x \<and> x < next_new_page st1) \<and> 0 \<le> next_new_page st1"
  proof (cases "free_pages st" rule: rev_cases)
    case Nil
    then have "pid = next_new_page st" "st1 = st\<lparr>next_new_page := next_new_page st + 1\<rparr>"
      using new by (auto simp: new_page_def)
    then show ?thesis using Nil wf by (auto simp: allocated_def store_wf_def)
  next
    case (snoc ys y)
    then have "pid = y" "st1 = st\<lparr>free_pages := ys\<rparr>" using new by (auto simp: new_page_def)
    then show ?thesis using snoc wf by (auto simp: allocated_def store_wf_def)
  qed
  then show "\<not> allocated st pid" "allocated st1 = (\<lambda>x. x = pid \<or> allocated st x)" "store_wf st1"
    "page_of st1 = page_of st"
    using wf by (auto simp: store_wf_def)
qed

section \<open>Linking a fresh page\<close>

lemma free_space_empty: "num_tuples p = 0 \<Longrightarrow> free_space p = 8184"
  by (simp add: free_space_def header_end_def num_tuples_def page_consts)

lemma page_rows_empty: "num_tuples p = 0 \<Longrightarrow> page_rows p = []"
  by (simp add: page_rows_def num_tuples_def)

lemma page_init_facts: "page_wf p \<Longrightarrow> page_wf (page_init p)" "num_tuples (page_init p) = 0"
  "next_page_id (page_init p) = INVALID_PAGE_ID"
  by (simp_all add: page_init_def page_wf_def header_end_def num_tuples_def page_consts)

lemma linked_nonempty: "linked st ps \<Longrightarrow> ps \<noteq> []"
  by auto

lemma linked_cong:
  "(\<And>p. p \<in> set ps \<Longrightarrow> next_page_id (page_of st' p) = next_page_id (page_of st p)) \<Longrightarrow> linked st' ps = linked st ps"
  by (induction st ps rule: linked.induct) auto

lemma linked_snoc:
  "linked st (ps @ [l]) \<Longrightarrow> next_page_id (page_of st' l) = q \<Longrightarrow> next_page_id (page_of st' q) = INVALID_PAGE_ID \<Longrightarrow>
   (\<And>p. p \<in> set ps \<Longrightarrow> next_page_id (page_of st' p) = next_page_id (page_of st p)) \<Longrightarrow> linked st' (ps @ [l, q])"
proof (induction ps)
  case (Cons p ps)
  then show ?case by (cases ps) auto
qed simp

lemma linked_last: "linked st (ps @ [l]) \<Longrightarrow> next_page_id (page_of st l) = INVALID_PAGE_ID"
proof (induction ps)
  case (Cons p ps)
  then show ?case by (cases ps) auto
qed simp

lemma heap_wf_last: "heap_wf h st \<Longrightarrow> last_page_id h \<in> set (page_directory h) \<and> page_directory h \<noteq> []"
  by (auto simp: heap_wf_def intro: last_in_set dest: linked_nonempty)

lemma heap_wf_put:
  assumes "heap_wf h st" and "next_page_id p = next_page_id (page_of st pid)"
  shows "heap_wf h (put_page pid p st)"
  using assms linked_cong [of "page_directory h" "put_page pid p st" st] by (auto simp: heap_wf_def)

text \<open>What an append may do to a heap and to the pages around it.\<close>

definition heap_extends :: "table_heap \<Rightarrow> page_store \<Rightarrow> table_heap \<Rightarrow> page_store \<Rightarrow> bool" where
  "heap_extends h st h' st' \<longleftrightarrow> store_wf st' \<and> heap_wf h' st' \<and>
     (\<exists>new. page_directory h' = page_directory h @ new \<and> (\<forall>p \<in> set new. \<not> allocated st p)) \<and>
     (\<forall>x. allocated st' x \<longleftrightarrow> allocated st x \<or> x \<in> set (page_directory h')) \<and>
     (\<forall>x. allocated st x \<and> x \<notin> set (page_directory h) \<longrightarrow> page_of st' x = page_of st x)"

lemma heap_extends_trans:
  assumes "heap_extends h st h' st'" and "heap_extends h' st' h'' st''"
  shows "heap_extends h st h'' st''"
proof -
  from assms obtain new new' where n: "page_directory h' = page_directory h @ new" "\<forall>p \<in> set new. \<not> allocated st p"
    "page_directory h'' = page_directory h' @ new'" "\<forall>p \<in> set new'. \<not> allocated st' p"
    by (auto simp: heap_extends_def)
  then show ?thesis
    using assms unfolding heap_extends_def by (auto intro!: exI [of _ "new @ new'"])
qed

lemma heap_rows_cong:
  assumes "\<And>pid. pid \<in> set (page_directory h) \<Longrightarrow> page_rows (page_of st' pid) = page_rows (page_of st pid)"
    and "page_directory h' = page_directory h @ new" and "\<forall>p \<in> set new. num_tuples (page_of st' p) = 0"
  shows "heap_rows h' st' = heap_rows h st"
proof -
  let ?f = "\<lambda>st pid. map (\<lambda>(i, r). ((pid, i), r)) (List.enumerate 0 (page_rows (page_of st pid)))"
  have "map (?f st') (page_directory h) = map (?f st) (page_directory h)" using assms(1) by simp
  moreover have "concat (map (?f st') new) = []" using assms(3) by (simp add: page_rows_empty)
  ultimately show ?thesis by (simp only: heap_rows_def assms(2) map_append concat_append append_Nil2)
qed

lemma heap_grow:
  assumes wf: "store_wf st" "heap_wf h st" and new: "new_page st = (n, st1)"
  defines "l \<equiv> last_page_id h"
  defines "st2 \<equiv> put_page l (set_next_page_id n (page_of st l)) st1"
  defines "st3 \<equiv> put_page n (page_init (page_of st2 n)) st2"
  defines "h' \<equiv> h\<lparr>last_page_id := n, page_directory := page_directory h @ [n]\<rparr>"
  shows "heap_extends h st h' st3" "row_at st3 = row_at st" "heap_rows h' st3 = heap_rows h st"
    "num_tuples (page_of st3 n) = 0"
proof -
  note f = new_page_fresh [OF wf(1) new]
  have l: "l \<in> set (page_directory h)" "page_directory h \<noteq> []" "allocated st l" "last (page_directory h) = l"
    using heap_wf_last [OF wf(2)] wf(2) by (auto simp: heap_wf_def l_def)
  then have ne: "n \<noteq> l" and nd: "n \<notin> set (page_directory h)" using f(1) wf(2) by (auto simp: heap_wf_def)
  have wf2: "store_wf st2" unfolding st2_def
    by (rule store_wf_put) (use f wf l set_next_page_id_rows store_wf_page in auto)
  have wf3: "store_wf st3" unfolding st3_def
    by (rule store_wf_put [OF wf2]) (simp_all add: page_init_facts store_wf_page [OF wf2])
  have pages: "page_of st3 = (page_of st)(l := set_next_page_id n (page_of st l), n := page_init (page_of st n))"
    using ne f by (simp add: st3_def st2_def)
  have dir: "page_directory h = butlast (page_directory h) @ [l]" using l by (metis append_butlast_last_id)
  have "distinct (butlast (page_directory h) @ [l])" using wf(2) dir by (metis heap_wf_def)
  then have "l \<notin> set (butlast (page_directory h))" by simp
  then have lk: "linked st3 (butlast (page_directory h) @ [l, n])"
    using wf(2) dir nd ne pages by (intro linked_snoc [of st])
      (auto simp: heap_wf_def page_init_facts set_next_page_id_def dest: in_set_butlastD)
  have dir': "page_directory h @ [n] = butlast (page_directory h) @ [l, n]"
    by (subst dir) simp
  have al: "allocated st3 = (\<lambda>x. x = n \<or> allocated st x)" using f by (simp add: st3_def st2_def)
  have hwf: "heap_wf h' st3"
    using lk [folded dir'] wf(2) nd l(2) by (simp add: heap_wf_def h'_def al)
  show "heap_extends h st h' st3"
    unfolding heap_extends_def using wf3 hwf f(1) pages l(1) wf(2)
    by (auto simp: h'_def al heap_wf_def)
  show z: "num_tuples (page_of st3 n) = 0" using pages by (simp add: page_init_facts)
  have u: "num_tuples (page_of st n) = 0" using wf(1) f(1) by (auto simp: store_wf_def)
  have r: "page_rows (page_of st3 x) = page_rows (page_of st x)" for x
    using pages u z by (auto simp: page_rows_empty page_init_facts)
  show "row_at st3 = row_at st"
    by (rule ext) (metis r length_page_rows row_at_def)
  show "heap_rows h' st3 = heap_rows h st"
    by (rule heap_rows_cong [of _ _ _ _ "[n]"]) (use r z in \<open>auto simp: h'_def\<close>)
qed


section \<open>Appending a row\<close>

text \<open>The payload that fits a fresh page: the page minus its header and one slot entry.\<close>

definition MAX_ROW_SIZE :: nat where "MAX_ROW_SIZE = PAGE_SIZE - TABLE_PAGE_HEADER_SIZE - TUPLE_INFO_SIZE"

lemma heap_rows_put_last:
  assumes "heap_wf h st" and "page_rows p = page_rows (page_of st (last_page_id h)) @ [x]"
  shows "heap_rows h (put_page (last_page_id h) p st)
       = heap_rows h st @ [((last_page_id h, num_tuples (page_of st (last_page_id h))), x)]"
proof -
  let ?l = "last_page_id h"
  let ?f = "\<lambda>st pid. map (\<lambda>(i, r). ((pid, i), r)) (List.enumerate 0 (page_rows (page_of st pid)))"
  have "page_directory h \<noteq> []" "last (page_directory h) = ?l"
    using heap_wf_last [OF assms(1)] assms(1) by (auto simp: heap_wf_def)
  then have dir: "page_directory h = butlast (page_directory h) @ [?l]" by (metis append_butlast_last_id)
  have "distinct (butlast (page_directory h) @ [?l])" using assms(1) dir by (metis heap_wf_def)
  then have "?l \<notin> set (butlast (page_directory h))" by simp
  then have same: "map (?f (put_page ?l p st)) (butlast (page_directory h)) = map (?f st) (butlast (page_directory h))"
    by (intro map_cong) auto
  have "?f (put_page ?l p st) ?l = ?f st ?l @ [((?l, num_tuples (page_of st ?l)), x)]"
    by (simp add: assms(2) enumerate_append_eq)
  then show ?thesis
    unfolding heap_rows_def
    by (subst dir, subst (2) dir) (simp only: map_append concat_append same, simp del: put_page_sel)
qed

lemma append_in_last_page:
  assumes wf: "store_wf st" "heap_wf h st" and len: "row_size \<le> length row_data"
    and fits: "row_size + TUPLE_INFO_SIZE \<le> free_space (page_of st (last_page_id h))"
  defines "rid \<equiv> (last_page_id h, num_tuples (page_of st (last_page_id h)))"
  shows "\<exists>st'. append_row_bytes meta row_data row_size h st = (Inr rid, h, st') \<and> heap_extends h st h st' \<and>
     row_at st rid = None \<and> row_at st' = (row_at st)(rid \<mapsto> (meta, take row_size row_data)) \<and>
     heap_rows h st' = heap_rows h st @ [(rid, meta, take row_size row_data)]"
proof -
  let ?l = "last_page_id h"
  from insert_row_fits [OF store_wf_page [OF wf(1)] fits len] obtain p where
    p: "insert_row meta row_data row_size (page_of st ?l) = Inr (Some (num_tuples (page_of st ?l)), p)"
    "page_wf p" "page_rows p = page_rows (page_of st ?l) @ [(meta, take row_size row_data)]"
    "next_page_id p = next_page_id (page_of st ?l)" by blast
  have l: "?l \<in> set (page_directory h)" "allocated st ?l"
    using heap_wf_last [OF wf(2)] wf(2) by (auto simp: heap_wf_def)
  have app: "append_row_bytes meta row_data row_size h st = (Inr rid, h, put_page ?l p st)"
    by (subst append_row_bytes.simps) (simp add: p rid_def)
  have ext: "heap_extends h st h (put_page ?l p st)"
    unfolding heap_extends_def
    using store_wf_put [OF wf(1) p(2), of ?l] heap_wf_put [OF wf(2) p(4)] l wf(2) by (auto simp: heap_wf_def)
  show ?thesis
    using app ext row_at_put_append [OF p(3)] heap_rows_put_last [OF wf(2) p(3)]
    by (auto simp: rid_def row_at_def)
qed

lemma append_links_page:
  assumes wf: "store_wf st" "heap_wf h st"
    and full: "\<not> row_size + TUPLE_INFO_SIZE \<le> free_space (page_of st (last_page_id h))"
    and ne: "num_tuples (page_of st (last_page_id h)) \<noteq> 0"
  shows "\<exists>h' st'. append_row_bytes meta row_data row_size h st = append_row_bytes meta row_data row_size h' st' \<and>
     heap_extends h st h' st' \<and> row_at st' = row_at st \<and> heap_rows h' st' = heap_rows h st \<and>
     num_tuples (page_of st' (last_page_id h')) = 0"
proof -
  obtain n st1 where new: "new_page st = (n, st1)" by force
  let ?l = "last_page_id h"
  let ?st2 = "put_page ?l (set_next_page_id n (page_of st ?l)) st1"
  let ?st3 = "put_page n (page_init (page_of ?st2 n)) ?st2"
  let ?h' = "h\<lparr>last_page_id := n, page_directory := page_directory h @ [n]\<rparr>"
  have "append_row_bytes meta row_data row_size h st = append_row_bytes meta row_data row_size ?h' ?st3"
    by (subst append_row_bytes.simps)
      (simp add: insert_row_full [OF store_wf_page [OF wf(1)] full] ne new Let_def del: put_page_sel)
  with heap_grow [OF wf new] show ?thesis by (intro exI [of _ ?h'] exI [of _ ?st3]) simp
qed

lemma append_too_large:
  assumes "store_wf st" "heap_wf h st" "num_tuples (page_of st (last_page_id h)) = 0" "MAX_ROW_SIZE < row_size"
  shows "append_row_bytes meta row_data row_size h st =
     (Inl (ExecutionException ''row is too large to fit in a page''), h, st)"
proof -
  have "\<not> row_size + TUPLE_INFO_SIZE \<le> free_space (page_of st (last_page_id h))"
    using assms(3,4) by (simp add: free_space_empty MAX_ROW_SIZE_def page_consts)
  from insert_row_full [OF store_wf_page [OF assms(1)] this] show ?thesis
    by (subst append_row_bytes.simps) (simp add: assms(3) put_page_def)
qed

lemma append_row_bytes_fits:
  assumes wf: "store_wf st" "heap_wf h st" and len: "row_size \<le> length row_data" and max: "row_size \<le> MAX_ROW_SIZE"
  shows "\<exists>rid h' st'. append_row_bytes meta row_data row_size h st = (Inr rid, h', st') \<and> heap_extends h st h' st' \<and>
     fst rid \<in> set (page_directory h') \<and> row_at st rid = None \<and>
     row_at st' = (row_at st)(rid \<mapsto> (meta, take row_size row_data)) \<and>
     heap_rows h' st' = heap_rows h st @ [(rid, meta, take row_size row_data)]"
proof (cases "row_size + TUPLE_INFO_SIZE \<le> free_space (page_of st (last_page_id h))")
  case True
  from append_in_last_page [OF wf len this] show ?thesis using heap_wf_last [OF wf(2)] by fastforce
next
  case False
  then have "num_tuples (page_of st (last_page_id h)) \<noteq> 0"
    using max free_space_empty [of "page_of st (last_page_id h)"] by (auto simp: MAX_ROW_SIZE_def page_consts)
  from append_links_page [OF wf False this] obtain h' st' where
    a: "append_row_bytes meta row_data row_size h st = append_row_bytes meta row_data row_size h' st'"
    "heap_extends h st h' st'" "row_at st' = row_at st" "heap_rows h' st' = heap_rows h st"
    "num_tuples (page_of st' (last_page_id h')) = 0" by blast
  then have wf': "store_wf st'" "heap_wf h' st'" by (auto simp: heap_extends_def)
  have "row_size + TUPLE_INFO_SIZE \<le> free_space (page_of st' (last_page_id h'))"
    using max a(5) by (simp add: free_space_empty MAX_ROW_SIZE_def page_consts)
  from append_in_last_page [OF wf' len this] show ?thesis
    using heap_wf_last [OF wf'(2)] a heap_extends_trans [OF a(2)] by fastforce
qed

lemma append_row_bytes_refused:
  assumes wf: "store_wf st" "heap_wf h st" and max: "MAX_ROW_SIZE < row_size"
  shows "\<exists>h' st'. append_row_bytes meta row_data row_size h st =
       (Inl (ExecutionException ''row is too large to fit in a page''), h', st') \<and> heap_extends h st h' st' \<and>
     row_at st' = row_at st \<and> heap_rows h' st' = heap_rows h st"
proof (cases "num_tuples (page_of st (last_page_id h)) = 0")
  case True
  moreover have "heap_extends h st h st" using wf by (auto simp: heap_extends_def heap_wf_def)
  ultimately show ?thesis using append_too_large [OF wf True max] by blast
next
  case False
  have "\<not> row_size + TUPLE_INFO_SIZE \<le> free_space (page_of st (last_page_id h))"
    using max page_wf_low_bounds [OF store_wf_page [OF wf(1)], of "last_page_id h"]
    by (auto simp: free_space_def MAX_ROW_SIZE_def header_end_def page_consts)
  from append_links_page [OF wf this False] obtain h' st' where
    a: "append_row_bytes meta row_data row_size h st = append_row_bytes meta row_data row_size h' st'"
    "heap_extends h st h' st'" "row_at st' = row_at st" "heap_rows h' st' = heap_rows h st"
    "num_tuples (page_of st' (last_page_id h')) = 0" by blast
  then have "store_wf st'" "heap_wf h' st'" by (auto simp: heap_extends_def)
  from append_too_large [OF this a(5) max] a show ?thesis by metis
qed


lemma get_row_at:
  assumes "store_wf st" and "row_at st r = Some x"
  shows "get_row (page_of st (fst r)) (page_slot r) = Inr x"
    and "get_tuple_meta (page_of st (fst r)) (page_slot r) = Inr (fst x)"
  using assms page_slot_id [OF assms(1), of r]
  by (auto simp: row_at_Some get_row_rows get_tuple_meta_rows)

lemma heap_fetch_rows:
  assumes "store_wf st" and "list_all2 (\<lambda>rid r. \<exists>m. row_at st rid = Some (m, r)) rids rows"
  shows "heap_fetch rids st = Inr rows"
  using assms(2)
proof (induction rule: list_all2_induct)
  case (Cons r rs x xs)
  then obtain m where "row_at st r = Some (m, x)" by blast
  with Cons show ?case by (simp add: get_row_at(1) [OF assms(1)])
qed simp

lemma heap_append_rows:
  assumes "store_wf st" "heap_wf h st" "\<forall>r \<in> set rows. length r \<le> MAX_ROW_SIZE"
  shows "\<exists>rids h' st'. heap_append rows h st = (Inr rids, h', st') \<and> heap_extends h st h' st' \<and>
     list_all2 (\<lambda>rid r. row_at st' rid = Some (\<lparr>ts = 0, is_deleted = False\<rparr>, r)) rids rows \<and>
     (\<forall>r x. row_at st r = Some x \<longrightarrow> row_at st' r = Some x) \<and>
     heap_rows h' st' = heap_rows h st @ zip rids (map (Pair \<lparr>ts = 0, is_deleted = False\<rparr>) rows)"
  using assms
proof (induction rows arbitrary: h st)
  case Nil
  then have "heap_extends h st h st" by (auto simp: heap_extends_def heap_wf_def)
  then show ?case by simp
next
  case (Cons r rows)
  let ?m = "\<lparr>ts = 0, is_deleted = False\<rparr>"
  have len: "length r \<le> MAX_ROW_SIZE" "length r mod 65536 = length r"
    using Cons.prems(3) by (auto simp: MAX_ROW_SIZE_def page_consts)
  from append_row_bytes_fits [OF Cons.prems(1,2), of "length r" r ?m] len obtain rid h1 st1 where
    a: "append_row_bytes ?m r (length r) h st = (Inr rid, h1, st1)" "heap_extends h st h1 st1"
    "row_at st rid = None" "row_at st1 = (row_at st)(rid \<mapsto> (?m, r))"
    "heap_rows h1 st1 = heap_rows h st @ [(rid, ?m, r)]" by auto
  have "store_wf st1" "heap_wf h1 st1" using a(2) by (auto simp: heap_extends_def)
  from Cons.IH [OF this] Cons.prems(3) obtain rids h2 st2 where
    b: "heap_append rows h1 st1 = (Inr rids, h2, st2)" "heap_extends h1 st1 h2 st2"
    "list_all2 (\<lambda>rid r. row_at st2 rid = Some (?m, r)) rids rows"
    "\<forall>r x. row_at st1 r = Some x \<longrightarrow> row_at st2 r = Some x"
    "heap_rows h2 st2 = heap_rows h1 st1 @ zip rids (map (Pair ?m) rows)" by auto
  have "heap_append (r # rows) h st = (Inr (rid # rids), h2, st2)" using a(1) b(1) len by simp
  moreover have "row_at st2 rid = Some (?m, r)" using a(4) b(4) by (metis fun_upd_same)
  moreover have "\<forall>r x. row_at st r = Some x \<longrightarrow> row_at st2 r = Some x"
    using a(3,4) b(4) by (metis fun_upd_apply option.distinct(1))
  ultimately show ?case
    using heap_extends_trans [OF a(2) b(2)] b(3,5) a(5) by (intro exI [of _ "rid # rids"]) simp
qed

lemma heap_delete_rows:
  assumes "store_wf st" "heap_wf h st" "\<forall>r \<in> set rids. row_at st r \<noteq> None"
  shows "\<exists>st'. heap_delete rids st = (Inr (), st') \<and> store_wf st' \<and> heap_wf h st' \<and>
     row_at st' = (\<lambda>r. if r \<in> set rids then map_option (map_prod (\<lambda>m. m\<lparr>is_deleted := True\<rparr>) id) (row_at st r)
                       else row_at st r)"
  using assms
proof (induction rids arbitrary: st)
  case (Cons r rids)
  obtain m b where mb: "row_at st r = Some (m, b)" using Cons.prems(3) by auto
  have sl: "snd r < num_tuples (page_of st (fst r))" "page_slot r = snd r"
    "page_rows (page_of st (fst r)) ! snd r = (m, b)"
    using mb page_slot_id [OF Cons.prems(1)] by (auto simp: row_at_Some)
  from update_tuple_meta_rows [OF store_wf_page [OF Cons.prems(1)] sl(1), of "m\<lparr>is_deleted := True\<rparr>"] sl(3)
  obtain p where p: "update_tuple_meta (m\<lparr>is_deleted := True\<rparr>) (snd r) (page_of st (fst r)) = Inr p" "page_wf p"
    "page_rows p = (page_rows (page_of st (fst r)))[snd r := (m\<lparr>is_deleted := True\<rparr>, b)]"
    "next_page_id p = next_page_id (page_of st (fst r))" by auto
  let ?st1 = "put_page (fst r) p st"
  have wf1: "store_wf ?st1" "heap_wf h ?st1"
    using store_wf_put [OF Cons.prems(1) p(2)] row_at_allocated [OF Cons.prems(1) mb] heap_wf_put [OF Cons.prems(2) p(4)]
    by auto
  have at1: "row_at ?st1 = (row_at st)(r \<mapsto> (m\<lparr>is_deleted := True\<rparr>, b))"
    using row_at_put_update [OF p(3) sl(1)] by simp
  with Cons.prems(3) have "\<forall>x \<in> set rids. row_at ?st1 x \<noteq> None" by auto
  from Cons.IH [OF wf1 this] obtain st' where st': "heap_delete rids ?st1 = (Inr (), st')" "store_wf st'" "heap_wf h st'"
    "row_at st' = (\<lambda>r. if r \<in> set rids then map_option (map_prod (\<lambda>m. m\<lparr>is_deleted := True\<rparr>) id) (row_at ?st1 r)
                       else row_at ?st1 r)" by auto
  have "heap_delete (r # rids) st = (Inr (), st')"
    using get_row_at(2) [OF Cons.prems(1) mb] p(1) sl st'(1) by simp
  moreover have "row_at st' = (\<lambda>x. if x \<in> set (r # rids) then map_option (map_prod (\<lambda>m. m\<lparr>is_deleted := True\<rparr>) id) (row_at st x)
                       else row_at st x)"
    unfolding st'(4) at1 using mb by (auto simp: fun_eq_iff)
  ultimately show ?case using st'(2,3) by blast
qed simp

section \<open>Recovery and morsels\<close>

lemma walk_chain_linked:
  "linked st ps \<Longrightarrow> \<forall>p \<in> set ps. p \<noteq> INVALID_PAGE_ID \<Longrightarrow> walk_chain st (hd ps) = Some ps"
proof (induction st ps rule: linked.induct)
  case (2 st p)
  then show ?case by (subst walk_chain.simps, subst walk_chain.simps) simp
next
  case (3 st p q ps)
  then show ?case by (subst walk_chain.simps) simp
qed simp

lemma claim_morsels_ranges:
  assumes "0 < ms_morsel_pages s"
  shows "concat (map (\<lambda>(b, e). [b..<e]) (fst (claim_morsels n s))) =
     [ms_next_page_idx s ..< min (ms_next_page_idx s + n * ms_morsel_pages s) (length (ms_pages s))]"
  using assms
proof (induction n arbitrary: s)
  case (Suc n)
  let ?k = "ms_next_page_idx s" and ?m = "ms_morsel_pages s" and ?len = "length (ms_pages s)"
  let ?s1 = "s\<lparr>ms_next_page_idx := ?k + ?m\<rparr>"
  obtain ms s2 where cl: "claim_morsels n ?s1 = (ms, s2)" by force
  have IH: "concat (map (\<lambda>(b, e). [b..<e]) ms) = [?k + ?m ..< min (?k + ?m + n * ?m) ?len]"
    using Suc.IH [of ?s1] Suc.prems cl by simp
  show ?case
  proof (cases "?k < ?len")
    case True
    then have "[?k ..< min (?k + ?m) ?len] @ [?k + ?m ..< min (?k + ?m + n * ?m) ?len] = [?k ..< min (?k + Suc n * ?m) ?len]"
      using upt_split [of ?k "?k + ?m" "min (?k + ?m + n * ?m) ?len"]
      by (cases "?k + ?m \<le> ?len") (auto simp: min_def algebra_simps)
    then show ?thesis using True IH cl by (simp add: next_morsel_def Let_def)
  qed (use IH cl in \<open>simp add: next_morsel_def Let_def\<close>)
qed simp


section \<open>Properties\<close>

definition empty_store :: page_store where
  "empty_store = \<lparr>page_of = (\<lambda>_. zero_page), free_pages = [], next_new_page = 0, page_pinned = (\<lambda>_. False)\<rparr>"

lemma empty_store_wf: "store_wf empty_store"
  by (simp add: empty_store_def store_wf_def)

lemma table_heap_new_wf:
  assumes "store_wf st" and "table_heap_new st = (h, st')"
  shows "store_wf st'" and "heap_wf h st'" and "heap_rows h st' = []" and "row_at st' = row_at st"
proof -
  obtain pid st1 where new: "new_page st = (pid, st1)" by force
  note f = new_page_fresh [OF assms(1) new]
  have h: "h = \<lparr>first_page_id = pid, last_page_id = pid, page_directory = [pid]\<rparr>"
    "st' = put_page pid (page_init (page_of st1 pid)) st1"
    using assms(2) new by (simp_all add: table_heap_new_def)
  show "store_wf st'" unfolding h
    by (rule store_wf_put [OF f(3)]) (simp_all add: page_init_facts store_wf_page [OF f(3)])
  show "heap_wf h st'" using f by (simp add: h heap_wf_def page_init_facts)
  show "heap_rows h st' = []" by (simp add: h heap_rows_def page_rows_empty page_init_facts)
  have "num_tuples (page_of st pid) = 0" using assms(1) f(1) by (auto simp: store_wf_def)
  then show "row_at st' = row_at st"
    unfolding h using f(4) by (subst row_at_put_rows) (auto simp: page_rows_empty page_init_facts row_at_def fun_eq_iff)
qed

text \<open>
  (C11) Appending a row to a well-formed heap ends with the row behind all existing ones under a
  record id that was unused, no other stored row changed and the heap still well-formed (linking at
  most one fresh page that no other heap owns); a row that no page can hold is refused and the
  stored rows stay as they were.
\<close>

theorem append_row_bytes_appends:
  assumes "store_wf st" and "heap_wf h st" and "row_size \<le> length row_data"
  shows "if row_size \<le> MAX_ROW_SIZE
         then \<exists>rid h' st'. append_row_bytes meta row_data row_size h st = (Inr rid, h', st') \<and>
                heap_extends h st h' st' \<and> row_at st rid = None \<and>
                row_at st' = (row_at st)(rid \<mapsto> (meta, take row_size row_data)) \<and>
                heap_rows h' st' = heap_rows h st @ [(rid, meta, take row_size row_data)]
         else \<exists>h' st'. append_row_bytes meta row_data row_size h st =
                  (Inl (ExecutionException ''row is too large to fit in a page''), h', st') \<and>
                heap_extends h st h' st' \<and> row_at st' = row_at st \<and> heap_rows h' st' = heap_rows h st"
  using append_row_bytes_fits [OF assms] append_row_bytes_refused [OF assms(1,2)] by (simp add: not_le) blast

theorem append_row_bytes_appends_witness:
  "\<exists>rid h' st'. append_row_bytes \<lparr>ts = 5, is_deleted = False\<rparr> [1, 2] 2
       (fst (table_heap_new empty_store)) (snd (table_heap_new empty_store)) = (Inr rid, h', st') \<and>
     heap_rows h' st' = [(rid, \<lparr>ts = 5, is_deleted = False\<rparr>, [1, 2])]"
proof -
  obtain h st where n: "table_heap_new empty_store = (h, st)" by force
  note w = table_heap_new_wf [OF empty_store_wf n]
  from append_row_bytes_appends [OF w(1,2), of 2 "[1, 2]" "\<lparr>ts = 5, is_deleted = False\<rparr>"] w(3) n show ?thesis
    by (auto simp: MAX_ROW_SIZE_def page_consts)
qed



text \<open>
  (C17) Reopening a heap from its first page rebuilds exactly the page directory the running heap
  had: the walk along the on-disk chain ends and visits every page once, in order.
\<close>

theorem table_heap_open_recovers:
  assumes "heap_wf h st"
  shows "table_heap_open st (first_page_id h) (last_page_id h) = Some h"
proof -
  have "\<forall>p \<in> set (page_directory h). p \<noteq> INVALID_PAGE_ID"
    using assms by (auto simp: heap_wf_def allocated_def INVALID_PAGE_ID_def)
  with assms walk_chain_linked [of st "page_directory h"] show ?thesis
    by (simp add: table_heap_open_def heap_wf_def)
qed

theorem table_heap_open_recovers_witness:
  "table_heap_open (snd (table_heap_new empty_store)) 0 0 = Some (fst (table_heap_new empty_store))"
proof -
  obtain h st where n: "table_heap_new empty_store = (h, st)" by force
  have "first_page_id h = 0 \<and> last_page_id h = 0"
    using n by (auto simp: table_heap_new_def new_page_def empty_store_def)
  with table_heap_open_recovers [OF table_heap_new_wf(2) [OF empty_store_wf n]] n show ?thesis by simp
qed

text \<open>
  (C18) The morsels the atomic cursor hands out, whichever worker claims which, cover every page
  index of the snapshot exactly once and in order once enough claims were made.
\<close>

theorem morsels_partition_pages:
  assumes "0 < mp" and "length (page_directory h) \<le> n * mp"
  shows "concat (map (\<lambda>(b, e). [b..<e]) (fst (claim_morsels n (begin_parallel_scan mp h st))))
       = [0..<length (page_directory h)]"
  using claim_morsels_ranges [of "begin_parallel_scan mp h st" n] assms
  by (simp add: begin_parallel_scan_def min_def)

theorem morsels_partition_pages_witness:
  "concat (map (\<lambda>(b, e). [b..<e]) (fst (claim_morsels 2 (begin_parallel_scan 2
       \<lparr>first_page_id = 4, last_page_id = 9, page_directory = [4, 7, 9]\<rparr> empty_store)))) = [0, 1, 2]"
  using morsels_partition_pages [of 2 "\<lparr>first_page_id = 4, last_page_id = 9, page_directory = [4, 7, 9]\<rparr>" 2 empty_store]
  by (simp add: upt_rec)

text \<open>
  Deleting a list of existing rows outside a transaction sets the deleted mark of exactly
  those rows and keeps all bytes.
\<close>

theorem heap_delete_marks:
  assumes "store_wf st" and "heap_wf h st" and "\<forall>r \<in> set rids. row_at st r \<noteq> None"
  shows "\<exists>st'. heap_delete rids st = (Inr (), st') \<and> store_wf st' \<and> heap_wf h st' \<and>
     row_at st' = (\<lambda>r. if r \<in> set rids then map_option (map_prod (\<lambda>m. m\<lparr>is_deleted := True\<rparr>) id) (row_at st r)
                       else row_at st r)"
  using heap_delete_rows [OF assms] .

theorem heap_delete_marks_witness:
  "\<exists>rid h st st'. append_row_bytes \<lparr>ts = 5, is_deleted = False\<rparr> [1, 2] 2
       (fst (table_heap_new empty_store)) (snd (table_heap_new empty_store)) = (Inr rid, h, st) \<and>
     heap_delete [rid] st = (Inr (), st') \<and> row_at st' rid = Some (\<lparr>ts = 5, is_deleted = True\<rparr>, [1, 2])"
proof -
  obtain h0 st0 where n: "table_heap_new empty_store = (h0, st0)" by force
  note w = table_heap_new_wf [OF empty_store_wf n]
  from append_row_bytes_fits [OF w(1,2), of 2 "[1, 2]" "\<lparr>ts = 5, is_deleted = False\<rparr>"] obtain rid h st where
    a: "append_row_bytes \<lparr>ts = 5, is_deleted = False\<rparr> [1, 2] 2 h0 st0 = (Inr rid, h, st)" "heap_extends h0 st0 h st"
    "row_at st rid = Some (\<lparr>ts = 5, is_deleted = False\<rparr>, [1, 2])" by (auto simp: MAX_ROW_SIZE_def page_consts)
  then have "\<exists>st'. heap_delete [rid] st = (Inr (), st') \<and>
      row_at st' rid = map_option (map_prod (\<lambda>m. m\<lparr>is_deleted := True\<rparr>) id) (row_at st rid)"
    using heap_delete_marks [of st h "[rid]"] by (auto simp: heap_extends_def)
  with a n show ?thesis by fastforce
qed

end
