(* ===== verification/Watermark.thy ===== *)
theory Watermark
  imports Prelude
begin

text \<open>
  The garbage-collection watermark (\<^verbatim>\<open>concurrency/watermark.{h,cpp}\<close>): a reference-counted ordered
  map of the read timestamps of live transactions together with a cached minimum.

  The ordered \<^verbatim>\<open>std::map\<close> is an association list kept strictly ascending; \<open>live_reads\<close> is the
  multiset of timestamps it stands for. The lemmas show that the cache always is the smallest live
  read timestamp, which is what makes reclaiming below it safe.
\<close>

record watermark =
  wm_commit_ts :: int
  wm_watermark :: int
  current_reads :: "(int \<times> int) list"

definition watermark_new :: "int \<Rightarrow> watermark" where
  "watermark_new ct = \<lparr>wm_commit_ts = ct, wm_watermark = ct, current_reads = []\<rparr>"

text \<open>\<^verbatim>\<open>++current_reads_[read_ts]\<close> on the ordered map.\<close>

fun count_up :: "int \<Rightarrow> (int \<times> int) list \<Rightarrow> (int \<times> int) list" where
  "count_up k [] = [(k, 1)]"
| "count_up k ((k', n) # xs) =
     (if k < k' then (k, 1) # (k', n) # xs
      else if k = k' then (k', n + 1) # xs
      else (k', n) # count_up k xs)"

text \<open>\<^verbatim>\<open>if (--it->second == 0) current_reads_.erase(it)\<close> for a key that is present.\<close>

fun count_down :: "int \<Rightarrow> (int \<times> int) list \<Rightarrow> (int \<times> int) list" where
  "count_down k [] = []"
| "count_down k ((k', n) # xs) =
     (if k = k' then (if n - 1 = 0 then xs else (k', n - 1) # xs) else (k', n) # count_down k xs)"

definition add_txn :: "int \<Rightarrow> watermark \<Rightarrow> watermark result" where
  "add_txn read_ts w =
     (if read_ts < wm_commit_ts w then Inl (Exception ''read ts < commit ts in watermark'')
      else let was_empty = (current_reads w = []);
               w1 = w\<lparr>current_reads := count_up read_ts (current_reads w)\<rparr>
           in Inr (if was_empty \<or> read_ts < wm_watermark w then w1\<lparr>wm_watermark := read_ts\<rparr> else w1))"

definition remove_txn :: "int \<Rightarrow> watermark \<Rightarrow> watermark result" where
  "remove_txn read_ts w =
     (case map_of (current_reads w) read_ts of
        None \<Rightarrow> Inl (Exception ''removing a read ts not present in watermark'')
      | Some _ \<Rightarrow>
          let reads = count_down read_ts (current_reads w);
              w1 = w\<lparr>current_reads := reads\<rparr>
          in Inr (if reads \<noteq> [] then w1\<lparr>wm_watermark := fst (hd reads)\<rparr> else w1))"

definition update_commit_ts :: "int \<Rightarrow> watermark \<Rightarrow> watermark" where
  "update_commit_ts ct w = w\<lparr>wm_commit_ts := ct\<rparr>"

definition get_watermark :: "watermark \<Rightarrow> int" where
  "get_watermark w = (if current_reads w = [] then wm_commit_ts w else wm_watermark w)"

section \<open>The live reads and the invariant\<close>

fun reads_mset :: "(int \<times> int) list \<Rightarrow> int multiset" where
  "reads_mset [] = {#}"
| "reads_mset ((k, n) # xs) = replicate_mset (nat n) k + reads_mset xs"

definition live_reads :: "watermark \<Rightarrow> int multiset" where
  "live_reads w = reads_mset (current_reads w)"

definition watermark_inv :: "watermark \<Rightarrow> bool" where
  "watermark_inv w \<longleftrightarrow>
     sorted_wrt (<) (map fst (current_reads w)) \<and> (\<forall>(k, n) \<in> set (current_reads w). 0 < n) \<and>
     (current_reads w \<noteq> [] \<longrightarrow> wm_watermark w = fst (hd (current_reads w)))"

text \<open>The states the two mutators lead to from a fresh watermark.\<close>

inductive watermark_reach :: "watermark \<Rightarrow> bool" where
  new: "watermark_reach (watermark_new ct)"
| add: "watermark_reach w \<Longrightarrow> add_txn r w = Inr w' \<Longrightarrow> watermark_reach w'"
| remove: "watermark_reach w \<Longrightarrow> remove_txn r w = Inr w' \<Longrightarrow> watermark_reach w'"
| commit: "watermark_reach w \<Longrightarrow> watermark_reach (update_commit_ts ct w)"

section \<open>Lemmas\<close>

lemma reads_mset_empty [simp]:
  "\<forall>(k, n) \<in> set xs. 0 < n \<Longrightarrow> reads_mset xs = {#} \<longleftrightarrow> xs = []"
  by (induction xs) auto

lemma set_reads_mset: "\<forall>(k, n) \<in> set xs. 0 < n \<Longrightarrow> set_mset (reads_mset xs) = fst ` set xs"
  by (induction xs) (force split: if_splits)+

lemma count_up_mset: "\<forall>(k, n) \<in> set xs. 0 < n \<Longrightarrow> reads_mset (count_up k xs) = add_mset k (reads_mset xs)"
  by (induction k xs rule: count_up.induct) (auto simp: nat_add_distrib)

lemma count_down_mset:
  "\<forall>(k, n) \<in> set xs. 0 < n \<Longrightarrow> k \<in> fst ` set xs \<Longrightarrow>
     reads_mset xs = add_mset k (reads_mset (count_down k xs))"
proof (induction k xs rule: count_down.induct)
  case (2 k k' n xs)
  then show ?case
  proof (cases "k = k'")
    case True
    with 2 obtain m where "nat n = Suc m" by (cases "nat n") auto
    moreover from this have "nat (n - 1) = m" by simp
    ultimately show ?thesis using True by auto
  qed auto
qed auto

lemma count_up_keys: "fst ` set (count_up k xs) = insert k (fst ` set xs)"
  by (induction k xs rule: count_up.induct) auto

lemma count_up_pos: "\<forall>(k, n) \<in> set xs. 0 < n \<Longrightarrow> \<forall>(k, n) \<in> set (count_up j xs). 0 < n"
  by (induction j xs rule: count_up.induct) auto

lemma count_up_sorted:
  "sorted_wrt (<) (map fst xs) \<Longrightarrow> sorted_wrt (<) (map fst (count_up k xs))"
proof (induction k xs rule: count_up.induct)
  case (2 k k' n xs)
  then show ?case using count_up_keys [of k xs] by auto
qed auto

lemma count_down_keys: "fst ` set (count_down k xs) \<subseteq> fst ` set xs"
  by (induction k xs rule: count_down.induct) auto

lemma count_down_pos: "\<forall>(k, n) \<in> set xs. 0 < n \<Longrightarrow> \<forall>(k, n) \<in> set (count_down j xs). 0 < n"
  by (induction j xs rule: count_down.induct) auto

lemma count_down_sorted:
  "sorted_wrt (<) (map fst xs) \<Longrightarrow> sorted_wrt (<) (map fst (count_down k xs))"
proof (induction k xs rule: count_down.induct)
  case (2 k k' n xs)
  then show ?case using count_down_keys [of k xs] by (auto 0 3)
qed auto

lemma count_up_hd:
  "fst (hd (count_up k xs)) = (if xs = [] \<or> k < fst (hd xs) then k else fst (hd xs))"
  by (cases xs) auto

lemma count_up_nonempty [simp]: "count_up k xs \<noteq> []"
  by (induction k xs rule: count_up.induct) auto

lemma watermark_inv_new [simp]: "watermark_inv (watermark_new ct)"
  by (simp add: watermark_inv_def watermark_new_def)

lemma add_txn_inv: "watermark_inv w \<Longrightarrow> add_txn r w = Inr w' \<Longrightarrow> watermark_inv w'"
  using count_up_pos [of "current_reads w" r] count_up_sorted [of "current_reads w" r]
  by (auto simp: add_txn_def watermark_inv_def count_up_hd Let_def split: if_splits)

lemma remove_txn_inv: "watermark_inv w \<Longrightarrow> remove_txn r w = Inr w' \<Longrightarrow> watermark_inv w'"
  using count_down_pos [of "current_reads w" r] count_down_sorted [of "current_reads w" r]
  by (auto simp: remove_txn_def watermark_inv_def Let_def split: option.splits if_splits)

lemma update_commit_ts_inv [simp]: "watermark_inv (update_commit_ts ct w) = watermark_inv w"
  by (simp add: watermark_inv_def update_commit_ts_def)

lemma live_reads_new [simp]: "live_reads (watermark_new ct) = {#}"
  by (simp add: live_reads_def watermark_new_def)

lemma live_reads_update_commit_ts [simp]: "live_reads (update_commit_ts ct w) = live_reads w"
  by (simp add: live_reads_def update_commit_ts_def)

lemma add_txn_live: "watermark_inv w \<Longrightarrow> add_txn r w = Inr w' \<Longrightarrow> live_reads w' = add_mset r (live_reads w)"
  using count_up_mset [of "current_reads w" r]
  by (auto simp: add_txn_def live_reads_def watermark_inv_def Let_def split: if_splits)

lemma remove_txn_live:
  "watermark_inv w \<Longrightarrow> remove_txn r w = Inr w' \<Longrightarrow> live_reads w = add_mset r (live_reads w')"
  using count_down_mset [of "current_reads w" r]
  by (force simp: remove_txn_def live_reads_def watermark_inv_def Let_def
      dest: map_of_SomeD split: option.splits if_splits)

lemma remove_txn_total: "watermark_inv w \<Longrightarrow> r \<in># live_reads w \<Longrightarrow> \<exists>w'. remove_txn r w = Inr w'"
  by (cases "map_of (current_reads w) r")
    (auto simp: remove_txn_def live_reads_def watermark_inv_def Let_def set_reads_mset map_of_eq_None_iff)

lemma add_txn_total: "wm_commit_ts w \<le> r \<Longrightarrow> \<exists>w'. add_txn r w = Inr w'"
  by (simp add: add_txn_def Let_def)

lemma add_txn_commit_ts: "add_txn r w = Inr w' \<Longrightarrow> wm_commit_ts w' = wm_commit_ts w"
  by (auto simp: add_txn_def Let_def split: if_splits)

lemma remove_txn_commit_ts: "remove_txn r w = Inr w' \<Longrightarrow> wm_commit_ts w' = wm_commit_ts w"
  by (auto simp: remove_txn_def Let_def split: option.splits if_splits)

lemma update_commit_ts_sel [simp]: "wm_commit_ts (update_commit_ts ct w) = ct"
  by (simp add: update_commit_ts_def)

lemma get_watermark_Min:
  assumes "watermark_inv w"
  shows "get_watermark w = (if live_reads w = {#} then wm_commit_ts w else Min_mset (live_reads w))"
proof (cases "current_reads w")
  case (Cons kn xs)
  obtain k n where kn: "kn = (k, n)" by force
  with assms Cons have s: "\<forall>x \<in> fst ` set xs. k < x" "0 < n" "wm_watermark w = k"
    and pos: "\<forall>(k, n) \<in> set xs. 0 < n"
    by (auto simp: watermark_inv_def)
  have "set_mset (live_reads w) = insert k (fst ` set xs)"
    using Cons kn s pos set_reads_mset [of xs] by (simp add: live_reads_def)
  moreover have "Min (insert k (fst ` set xs)) = k"
    using s by (intro Min_eqI) (auto intro: less_imp_le)
  ultimately show ?thesis
    using Cons s by (auto simp: get_watermark_def)
qed (simp add: get_watermark_def live_reads_def)

lemma get_watermark_le: "watermark_inv w \<Longrightarrow> r \<in># live_reads w \<Longrightarrow> get_watermark w \<le> r"
  by (auto simp: get_watermark_Min)

lemma watermark_reach_inv: "watermark_reach w \<Longrightarrow> watermark_inv w"
  by (induction rule: watermark_reach.induct) (auto intro: add_txn_inv remove_txn_inv)

section \<open>Properties\<close>



end
