(* ===== verification/Mvcc.thy ===== *)
theory Mvcc
  imports TableHeap Watermark
begin

text \<open>
  The multi-version read and write paths (\<^verbatim>\<open>storage/mvcc/mvcc.{h,cpp}\<close>) over the state of the
  transaction manager and its version side-table
  (\<^verbatim>\<open>concurrency/transaction_manager.{h,cpp}\<close>, the fields and the undo-link accessors).

  Each operation runs under one page latch in the source and is one state transformer here. A
  \<^verbatim>\<open>Transaction *\<close> is the id of a transaction in the transaction map; using an id that is not there
  is a dangling pointer in the source and the assertion value here. The walk along the version chain
  is a partial function: \<^const>\<open>None\<close> is a walk that never ends.
\<close>

section \<open>State\<close>

record db =
  txn_map :: "(int \<times> txn) list"
  next_txn_id :: int
  last_commit_ts :: int
  running_txns :: watermark
  version_info :: "int \<rightharpoonup> (nat \<rightharpoonup> undo_link)"
  db_store :: page_store
  db_catalog :: "nat \<rightharpoonup> table_heap"
  txn_timeout :: int

definition dangling :: exn where
  "dangling = AssertionFailed ''use of a destroyed transaction''"

definition find_txn :: "db \<Rightarrow> int \<Rightarrow> txn option" where
  "find_txn db tid = map_of (txn_map db) tid"

definition put_txn :: "int \<Rightarrow> txn \<Rightarrow> db \<Rightarrow> db" where
  "put_txn tid t db = db\<lparr>txn_map := AList.update tid t (txn_map db)\<rparr>"

definition put_db_page :: "int \<Rightarrow> table_page \<Rightarrow> db \<Rightarrow> db" where
  "put_db_page pid p db = db\<lparr>db_store := put_page pid p (db_store db)\<rparr>"

definition db_page :: "db \<Rightarrow> rid \<Rightarrow> table_page" where
  "db_page db r = page_of (db_store db) (fst r)"

section \<open>The version side-table\<close>

definition get_undo_link :: "db \<Rightarrow> rid \<Rightarrow> undo_link option" where
  "get_undo_link db r =
     (case version_info db (fst r) of None \<Rightarrow> None | Some prev_links \<Rightarrow> prev_links (snd r))"

definition update_undo_link ::
  "rid \<Rightarrow> undo_link option \<Rightarrow> (undo_link option \<Rightarrow> bool) option \<Rightarrow> db \<Rightarrow> bool \<times> db" where
  "update_undo_link r prev_link check db =
     (let prev_links = (case version_info db (fst r) of None \<Rightarrow> Map.empty | Some ls \<Rightarrow> ls);
          db1 = db\<lparr>version_info := (version_info db)(fst r \<mapsto> prev_links)\<rparr>;
          db2 = db1\<lparr>version_info := (version_info db1)(fst r \<mapsto> prev_links(snd r := prev_link))\<rparr>
      in case check of
           None \<Rightarrow> (True, db2)
         | Some chk \<Rightarrow> if \<not> chk (prev_links (snd r)) then (False, db1) else (True, db2))"

definition get_undo_log_optional :: "db \<Rightarrow> undo_link \<Rightarrow> undo_log option" where
  "get_undo_log_optional db l =
     (case find_txn db (prev_txn l) of None \<Rightarrow> None | Some t \<Rightarrow> Some (get_undo_log (prev_log_idx l) t))"

definition mgr_get_undo_log :: "db \<Rightarrow> undo_link \<Rightarrow> undo_log result" where
  "mgr_get_undo_log db l =
     (case get_undo_log_optional db l of
        None \<Rightarrow> Inl (Exception ''undo log not found - owning transaction was already collected'')
      | Some u \<Rightarrow> Inr u)"

section \<open>Writing\<close>

definition throw_write_write_conflict :: "int \<Rightarrow> txn \<Rightarrow> db \<Rightarrow> unit result \<times> db" where
  "throw_write_write_conflict tid t db =
     (case set_tainted t of
        (Inl e, t') \<Rightarrow> (Inl e, db)
      | (Inr _, t') \<Rightarrow>
          (Inl (ConflictException ''write-write conflict: a concurrent transaction modified this row''),
           put_txn tid t' db))"

text \<open>The lambda \<^verbatim>\<open>apply_base\<close>: a delete flips the tombstone, an update rewrites the row.\<close>

definition apply_base :: "int \<Rightarrow> bool \<Rightarrow> row \<Rightarrow> nat \<Rightarrow> nat \<Rightarrow> table_page \<Rightarrow> table_page result" where
  "apply_base temp_ts del new_row new_size slot p =
     (let new_meta = \<lparr>ts = temp_ts, is_deleted = del\<rparr>
      in if del then update_tuple_meta new_meta slot p
         else case update_row new_meta new_row new_size slot p of
                Inl e \<Rightarrow> Inl e
              | Inr (ok, p') \<Rightarrow>
                  if \<not> ok then Inl (ExecutionException ''updated row is too large to fit in its page'') else Inr p')"

definition apply_mvcc_modify :: "int \<Rightarrow> nat \<Rightarrow> rid \<Rightarrow> bool \<Rightarrow> row \<Rightarrow> nat \<Rightarrow> db \<Rightarrow> unit result \<times> db" where
  "apply_mvcc_modify tid oid r del new_row new_size db =
     (case find_txn db tid of
        None \<Rightarrow> (Inl dangling, db)
      | Some t \<Rightarrow>
     (case get_row (db_page db r) (page_slot r) of
        Inl e \<Rightarrow> (Inl e, db)
      | Inr (meta, old_bytes) \<Rightarrow>
          if ts meta = txn_id t then
            (case apply_base (txn_id t) del new_row new_size (page_slot r) (db_page db r) of
               Inl e \<Rightarrow> (Inl e, db)
             | Inr p \<Rightarrow> (Inr (), put_txn tid (append_write_set oid r t) (put_db_page (fst r) p db)))
          else if ts meta \<le> read_ts t then
            let log = \<lparr>ul_is_deleted = is_deleted meta, ul_row = (if is_deleted meta then [] else old_bytes),
                       ul_ts = ts meta,
                       ul_prev_version = (case get_undo_link db r of None \<Rightarrow> undo_link_invalid | Some l \<Rightarrow> l)\<rparr>;
                (link, t1) = append_undo_log log t;
                db1 = put_txn tid t1 db
            in (case apply_base (txn_id t) del new_row new_size (page_slot r) (db_page db r) of
                  Inl e \<Rightarrow> (Inl e, db1)
                | Inr p \<Rightarrow>
                    let db2 = snd (update_undo_link r (Some link) None (put_db_page (fst r) p db1))
                    in (Inr (), put_txn tid (append_write_set oid r t1) db2))
          else throw_write_write_conflict tid t db))"

fun mvcc_insert :: "int \<Rightarrow> nat \<Rightarrow> row list \<Rightarrow> db \<Rightarrow> rid list result \<times> db" where
  "mvcc_insert tid oid [] db = (Inr [], db)"
| "mvcc_insert tid oid (r # rs) db =
     (case (find_txn db tid, db_catalog db oid) of
        (Some t, Some h) \<Rightarrow>
          (case append_row_bytes \<lparr>ts = txn_id t, is_deleted = False\<rparr> r (length r mod 2 ^ 16) h (db_store db) of
             (Inl e, h', st') \<Rightarrow> (Inl e, db\<lparr>db_store := st', db_catalog := (db_catalog db)(oid \<mapsto> h')\<rparr>)
           | (Inr rid, h', st') \<Rightarrow>
               (case mvcc_insert tid oid rs
                       (put_txn tid (append_write_set oid rid t)
                         (db\<lparr>db_store := st', db_catalog := (db_catalog db)(oid \<mapsto> h')\<rparr>)) of
                  (Inl e, db') \<Rightarrow> (Inl e, db')
                | (Inr rids, db') \<Rightarrow> (Inr (rid # rids), db')))
      | _ \<Rightarrow> (Inl dangling, db))"

fun mvcc_update :: "int \<Rightarrow> nat \<Rightarrow> (rid \<times> row) list \<Rightarrow> db \<Rightarrow> unit result \<times> db" where
  "mvcc_update tid oid [] db = (Inr (), db)"
| "mvcc_update tid oid ((r, new_row) # rest) db =
     (case apply_mvcc_modify tid oid r False new_row (length new_row mod 2 ^ 16) db of
        (Inl e, db') \<Rightarrow> (Inl e, db')
      | (Inr _, db') \<Rightarrow> mvcc_update tid oid rest db')"

fun mvcc_delete :: "int \<Rightarrow> nat \<Rightarrow> rid list \<Rightarrow> db \<Rightarrow> unit result \<times> db" where
  "mvcc_delete tid oid [] db = (Inr (), db)"
| "mvcc_delete tid oid (r # rest) db =
     (case apply_mvcc_modify tid oid r True [] 0 db of
        (Inl e, db') \<Rightarrow> (Inl e, db')
      | (Inr _, db') \<Rightarrow> mvcc_delete tid oid rest db')"

section \<open>Reading\<close>

partial_function (option) walk_versions :: "db \<Rightarrow> int \<Rightarrow> undo_link option \<Rightarrow> row option option" where
  [code]: "walk_versions db rts link =
     (case link of
        None \<Rightarrow> Some None
      | Some l \<Rightarrow>
          if \<not> link_valid l then Some None
          else (case get_undo_log_optional db l of
                  None \<Rightarrow> Some None
                | Some undo \<Rightarrow>
                    if ul_ts undo \<le> rts then Some (if ul_is_deleted undo then None else Some (ul_row undo))
                    else walk_versions db rts (Some (ul_prev_version undo))))"

definition reconstruct_visible :: "db \<Rightarrow> txn \<Rightarrow> tuple_meta \<Rightarrow> row \<Rightarrow> undo_link option \<Rightarrow> row option option" where
  "reconstruct_visible db t meta base_row head_link =
     (if ts meta = txn_id t \<or> ts meta \<le> read_ts t
      then Some (if is_deleted meta then None else Some base_row)
      else walk_versions db (read_ts t) head_link)"

definition collect_visible_version :: "db \<Rightarrow> txn \<Rightarrow> rid \<Rightarrow> row option result option" where
  "collect_visible_version db t r =
     (case get_row (db_page db r) (page_slot r) of
        Inl e \<Rightarrow> Some (Inl e)
      | Inr (meta, base_row) \<Rightarrow>
          map_option Inr (reconstruct_visible db t meta base_row (get_undo_link db r)))"

fun mvcc_fetch :: "db \<Rightarrow> txn \<Rightarrow> rid list \<Rightarrow> row list result option" where
  "mvcc_fetch db t [] = Some (Inr [])"
| "mvcc_fetch db t (r # rids) =
     (case collect_visible_version db t r of
        None \<Rightarrow> None
      | Some (Inl e) \<Rightarrow> Some (Inl e)
      | Some (Inr v) \<Rightarrow>
          (case mvcc_fetch db t rids of
             None \<Rightarrow> None
           | Some (Inl e) \<Rightarrow> Some (Inl e)
           | Some (Inr rows) \<Rightarrow> Some (Inr (case v of None \<Rightarrow> rows | Some row \<Rightarrow> row # rows))))"

section \<open>Finishing a write\<close>

definition mvcc_stamp_commit :: "rid \<Rightarrow> int \<Rightarrow> db \<Rightarrow> unit result \<times> db" where
  "mvcc_stamp_commit r cts db =
     (case get_tuple_meta (db_page db r) (page_slot r) of
        Inl e \<Rightarrow> (Inl e, db)
      | Inr meta \<Rightarrow>
          (case update_tuple_meta (meta\<lparr>ts := cts\<rparr>) (page_slot r) (db_page db r) of
             Inl e \<Rightarrow> (Inl e, db)
           | Inr p \<Rightarrow> (Inr (), put_db_page (fst r) p db)))"

definition restore_base :: "undo_log \<Rightarrow> nat \<Rightarrow> table_page \<Rightarrow> table_page result" where
  "restore_base log slot p =
     (let restored = \<lparr>ts = ul_ts log, is_deleted = ul_is_deleted log\<rparr>
      in if ul_is_deleted log then update_tuple_meta restored slot p
         else case update_row restored (ul_row log) (length (ul_row log) mod 2 ^ 16) slot p of
                Inl e \<Rightarrow> Inl e
              | Inr (ok, p') \<Rightarrow>
                  if \<not> ok then Inl (ExecutionException ''failed to restore pre-image row on rollback'') else Inr p')"

text \<open>The other branch of the rollback: tombstone the base so that no snapshot sees it.\<close>

definition tombstone_fresh :: "rid \<Rightarrow> db \<Rightarrow> unit result \<times> db" where
  "tombstone_fresh r db =
     (case get_tuple_meta (db_page db r) (page_slot r) of
        Inl e \<Rightarrow> (Inl e, db)
      | Inr meta \<Rightarrow>
          (case update_tuple_meta (meta\<lparr>ts := 0, is_deleted := True\<rparr>) (page_slot r) (db_page db r) of
             Inl e \<Rightarrow> (Inl e, db)
           | Inr p \<Rightarrow> (Inr (), put_db_page (fst r) p db)))"

definition mvcc_rollback :: "int \<Rightarrow> rid \<Rightarrow> db \<Rightarrow> unit result \<times> db" where
  "mvcc_rollback tid r db =
     (case find_txn db tid of
        None \<Rightarrow> (Inl dangling, db)
      | Some t \<Rightarrow>
     (case get_undo_link db r of
        Some l \<Rightarrow>
          if link_valid l \<and> prev_txn l = txn_id t then
            let log = get_undo_log (prev_log_idx l) t
            in (case restore_base log (page_slot r) (db_page db r) of
                  Inl e \<Rightarrow> (Inl e, db)
                | Inr p \<Rightarrow>
                    (Inr (), snd (update_undo_link r
                       (if link_valid (ul_prev_version log) then Some (ul_prev_version log) else None) None
                       (put_db_page (fst r) p db))))
          else tombstone_fresh r db
      | None \<Rightarrow> tombstone_fresh r db))"

end
