(* ===== verification/TransactionManager.thy ===== *)
theory TransactionManager
  imports Mvcc
begin

text \<open>
  The transaction lifecycle (\<^verbatim>\<open>concurrency/transaction_manager.{h,cpp}\<close>): begin, commit with
  serializable backward validation, abort, shutdown abort, and garbage collection with the
  transaction timeout.

  \<^verbatim>\<open>Catalog::GetTable\<close> is the map \<^const>\<open>db_catalog\<close> from table oids to row-format heaps, \<^const>\<open>None\<close>
  where \<^verbatim>\<open>GetTableHeap\<close> returns \<^verbatim>\<open>nullptr\<close>. The wall clock is the argument \<open>now\<close>. The nested loops
  over a write set run over its flattened list \<^const>\<open>written\<close>.
\<close>

section \<open>Begin\<close>

definition begin_shared :: "isolation_level \<Rightarrow> int \<Rightarrow> db \<Rightarrow> int result \<times> db" where
  "begin_shared level now db =
     (let tid = next_txn_id db;
          rts = last_commit_ts db;
          t = (txn_new tid level now)\<lparr>read_ts := rts\<rparr>;
          db1 = db\<lparr>next_txn_id := tid + 1,
                   txn_map := (if tid \<in> fst ` set (txn_map db) then txn_map db else txn_map db @ [(tid, t)])\<rparr>
      in case add_txn rts (running_txns db1) of
           Inl e \<Rightarrow> (Inl e, db1)
         | Inr w \<Rightarrow> (Inr tid, db1\<lparr>running_txns := w\<rparr>))"

section \<open>Serializable validation\<close>

definition row_matches :: "txn \<Rightarrow> nat \<Rightarrow> bool \<Rightarrow> row \<Rightarrow> bool" where
  "row_matches t oid del r \<longleftrightarrow> \<not> del \<and> is_scan_tuple oid r t"

text \<open>The walk of \<^verbatim>\<open>RidConflictsWithReads\<close>; \<open>q\<close> is the validating transaction and the table.\<close>

partial_function (option) conflict_walk :: "db \<Rightarrow> txn \<times> nat \<Rightarrow> undo_link option \<Rightarrow> bool option" where
  [code]: "conflict_walk db q link =
     (case link of
        None \<Rightarrow> Some False
      | Some l \<Rightarrow>
          if \<not> link_valid l then Some False
          else (case get_undo_log_optional db l of
                  None \<Rightarrow> Some False
                | Some undo \<Rightarrow>
                    if row_matches (fst q) (snd q) (ul_is_deleted undo) (ul_row undo) then Some True
                    else if ul_ts undo \<le> read_ts (fst q) then Some False
                    else conflict_walk db q (Some (ul_prev_version undo))))"

definition rid_conflicts_with_reads :: "db \<Rightarrow> txn \<Rightarrow> nat \<Rightarrow> rid \<Rightarrow> bool result option" where
  "rid_conflicts_with_reads db t oid r =
     (case get_row (db_page db r) (page_slot r) of
        Inl e \<Rightarrow> Some (Inl e)
      | Inr (meta, base_bytes) \<Rightarrow>
          if \<not> is_temp_ts (ts meta) \<and> row_matches t oid (is_deleted meta) base_bytes then Some (Inr True)
          else if \<not> is_temp_ts (ts meta) \<and> ts meta \<le> read_ts t then Some (Inr False)
          else map_option Inr (conflict_walk db (t, oid) (get_undo_link db r)))"

definition suspects :: "db \<Rightarrow> int \<Rightarrow> txn \<Rightarrow> (nat \<times> rid) list" where
  "suspects db tid t =
     concat (map (\<lambda>(i, other).
       if i = tid \<or> txn_state other \<noteq> COMMITTED \<or> commit_ts other \<le> read_ts t then [] else written other)
       (txn_map db))"

fun verify_loop :: "db \<Rightarrow> txn \<Rightarrow> (nat \<times> rid) list \<Rightarrow> bool result option" where
  "verify_loop db t [] = Some (Inr True)"
| "verify_loop db t ((oid, r) # rest) =
     (case db_catalog db oid of
        None \<Rightarrow> verify_loop db t rest
      | Some _ \<Rightarrow>
          (case rid_conflicts_with_reads db t oid r of
             None \<Rightarrow> None
           | Some (Inl e) \<Rightarrow> Some (Inl e)
           | Some (Inr c) \<Rightarrow> if c then Some (Inr False) else verify_loop db t rest))"

definition verify_txn :: "db \<Rightarrow> int \<Rightarrow> txn \<Rightarrow> bool result option" where
  "verify_txn db tid t =
     (if txn_isolation t \<noteq> SERIALIZABLE then Some (Inr True)
      else if write_set t = [] then Some (Inr True)
      else verify_loop db t (suspects db tid t))"

section \<open>Abort\<close>

fun rollback_all :: "int \<Rightarrow> (nat \<times> rid) list \<Rightarrow> db \<Rightarrow> unit result \<times> db" where
  "rollback_all tid [] db = (Inr (), db)"
| "rollback_all tid ((oid, r) # rest) db =
     (case db_catalog db oid of
        None \<Rightarrow> rollback_all tid rest db
      | Some _ \<Rightarrow>
          (case mvcc_rollback tid r db of
             (Inl e, db') \<Rightarrow> (Inl e, db')
           | (Inr _, db') \<Rightarrow> rollback_all tid rest db'))"

definition finish_abort :: "int \<Rightarrow> db \<Rightarrow> unit result \<times> db" where
  "finish_abort tid db =
     (case find_txn db tid of
        None \<Rightarrow> (Inl dangling, db)
      | Some t \<Rightarrow>
          let db1 = put_txn tid (t\<lparr>txn_state := ABORTED\<rparr>) db
          in case remove_txn (read_ts t) (running_txns db1) of
               Inl e \<Rightarrow> (Inl e, db1)
             | Inr w \<Rightarrow> (Inr (), db1\<lparr>running_txns := w\<rparr>))"

definition abort_txn :: "int \<Rightarrow> db \<Rightarrow> unit result \<times> db" where
  "abort_txn tid db =
     (case find_txn db tid of
        None \<Rightarrow> (Inl dangling, db)
      | Some t \<Rightarrow>
          if txn_state t = ABORTED then (Inr (), db)
          else if txn_state t \<noteq> RUNNING \<and> txn_state t \<noteq> TAINTED
          then (Inl (Exception ''only a RUNNING or TAINTED transaction can abort''), db)
          else (case rollback_all tid (written t) db of
                  (Inl e, db1) \<Rightarrow> (Inl e, db1)
                | (Inr _, db1) \<Rightarrow> finish_abort tid db1))"

fun abort_each :: "int list \<Rightarrow> db \<Rightarrow> unit result \<times> db" where
  "abort_each [] db = (Inr (), db)"
| "abort_each (tid # tids) db =
     (case find_txn db tid of
        None \<Rightarrow> (Inl dangling, db)
      | Some t \<Rightarrow>
          if txn_live t
          then (case abort_txn tid db of (Inl e, db') \<Rightarrow> (Inl e, db') | (Inr _, db') \<Rightarrow> abort_each tids db')
          else abort_each tids db)"

definition abort_all_running :: "db \<Rightarrow> unit result \<times> db" where
  "abort_all_running db = abort_each (map fst (filter (\<lambda>(i, t). txn_live t) (txn_map db))) db"

section \<open>Commit\<close>

fun stamp_all :: "(nat \<times> rid) list \<Rightarrow> int \<Rightarrow> db \<Rightarrow> unit result \<times> db" where
  "stamp_all [] cts db = (Inr (), db)"
| "stamp_all ((oid, r) # rest) cts db =
     (case db_catalog db oid of
        None \<Rightarrow> stamp_all rest cts db
      | Some _ \<Rightarrow>
          (case mvcc_stamp_commit r cts db of
             (Inl e, db') \<Rightarrow> (Inl e, db')
           | (Inr _, db') \<Rightarrow> stamp_all rest cts db'))"

definition publish_commit :: "int \<Rightarrow> int \<Rightarrow> db \<Rightarrow> bool result \<times> db" where
  "publish_commit tid cts db =
     (case find_txn db tid of
        None \<Rightarrow> (Inl dangling, db)
      | Some t \<Rightarrow>
          let db1 = (put_txn tid (t\<lparr>commit_ts := cts, txn_state := COMMITTED\<rparr>) db)\<lparr>last_commit_ts := cts\<rparr>;
              w1 = update_commit_ts cts (running_txns db1)
          in case remove_txn (read_ts t) w1 of
               Inl e \<Rightarrow> (Inl e, db1\<lparr>running_txns := w1\<rparr>)
             | Inr w \<Rightarrow> (Inr True, db1\<lparr>running_txns := w\<rparr>))"

text \<open>The part of \<^verbatim>\<open>Commit\<close> after validation, under \<^verbatim>\<open>commit_mutex_\<close>.\<close>

definition commit_stamped :: "int \<Rightarrow> txn \<Rightarrow> db \<Rightarrow> bool result \<times> db" where
  "commit_stamped tid t db =
     (let cts = last_commit_ts db + 1
      in case stamp_all (written t) cts db of
           (Inl e, db1) \<Rightarrow> (Inl e, db1)
         | (Inr _, db1) \<Rightarrow> publish_commit tid cts db1)"

definition abort_and_refuse :: "int \<Rightarrow> db \<Rightarrow> bool result \<times> db" where
  "abort_and_refuse tid db =
     (case abort_txn tid db of (Inl e, db') \<Rightarrow> (Inl e, db') | (Inr _, db') \<Rightarrow> (Inr False, db'))"

definition commit_txn :: "int \<Rightarrow> db \<Rightarrow> (bool result \<times> db) option" where
  "commit_txn tid db =
     (case find_txn db tid of
        None \<Rightarrow> Some (Inl dangling, db)
      | Some t \<Rightarrow>
          if cancellation_requested t then
            Some (case abort_txn tid db of
                    (Inl e, db') \<Rightarrow> (Inl e, db')
                  | (Inr _, db') \<Rightarrow>
                      (Inl (ExecutionException ''cannot commit: transaction was cancelled by its timeout''), db'))
          else
            (case (if txn_isolation t = SERIALIZABLE then verify_txn db tid t else Some (Inr True)) of
               None \<Rightarrow> None
             | Some (Inl e) \<Rightarrow> Some (Inl e, db)
             | Some (Inr ok) \<Rightarrow>
                 if \<not> ok then Some (abort_and_refuse tid db)
                 else if txn_state t \<noteq> RUNNING
                 then Some (Inl (Exception ''only a RUNNING transaction can commit''), db)
                 else
                   (case (if txn_isolation t = SERIALIZABLE then verify_txn db tid t else Some (Inr True)) of
                      None \<Rightarrow> None
                    | Some (Inl e) \<Rightarrow> Some (Inl e, db)
                    | Some (Inr ok') \<Rightarrow>
                        if \<not> ok' then Some (abort_and_refuse tid db) else Some (commit_stamped tid t db))))"

section \<open>Garbage collection\<close>

record gc_stats =
  timed_out :: nat
  reclaimed :: nat

text \<open>Phase 0 for the transactions found expired: request cancellation, roll idle ones back.\<close>

fun cancel_expired :: "int list \<Rightarrow> nat \<Rightarrow> db \<Rightarrow> nat result \<times> db" where
  "cancel_expired [] n db = (Inr n, db)"
| "cancel_expired (tid # tids) n db =
     (case find_txn db tid of
        None \<Rightarrow> (Inl dangling, db)
      | Some t \<Rightarrow>
          if \<not> txn_live t then cancel_expired tids n db
          else
            let (accepted, t1) = request_cancellation t;
                db1 = put_txn tid t1 db;
                n1 = (if accepted then n + 1 else n)
            in if active_statements t1 = 0
               then (case abort_txn tid db1 of
                       (Inl e, db2) \<Rightarrow> (Inl e, db2)
                     | (Inr _, db2) \<Rightarrow> cancel_expired tids n1 db2)
               else cancel_expired tids n1 db1)"

definition collectible :: "int \<Rightarrow> txn \<Rightarrow> bool" where
  "collectible wm t \<longleftrightarrow> txn_state t = ABORTED \<or> (txn_state t = COMMITTED \<and> commit_ts t \<le> wm)"

definition sweep :: "db \<Rightarrow> nat \<times> db" where
  "sweep db =
     (let wm = get_watermark (running_txns db);
          kept = filter (\<lambda>(i, t). \<not> collectible wm t) (txn_map db)
      in (length (txn_map db) - length kept, db\<lparr>txn_map := kept\<rparr>))"

definition garbage_collection :: "int \<Rightarrow> db \<Rightarrow> gc_stats result \<times> db" where
  "garbage_collection now db =
     (let expired = map fst (filter (\<lambda>(i, t). txn_live t \<and> is_expired (txn_timeout db) now t) (txn_map db))
      in case cancel_expired expired 0 db of
           (Inl e, db1) \<Rightarrow> (Inl e, db1)
         | (Inr n, db1) \<Rightarrow>
             let (k, db2) = sweep db1 in (Inr \<lparr>timed_out = n, reclaimed = k\<rparr>, db2))"

section \<open>Accessors\<close>

definition get_transaction_state :: "db \<Rightarrow> int \<Rightarrow> transaction_state option" where
  "get_transaction_state db tid = map_option txn_state (find_txn db tid)"

definition set_last_commit_ts :: "int \<Rightarrow> db \<Rightarrow> db" where
  "set_last_commit_ts t db = db\<lparr>last_commit_ts := t, running_txns := update_commit_ts t (running_txns db)\<rparr>"

definition db_watermark :: "db \<Rightarrow> int" where
  "db_watermark db = get_watermark (running_txns db)"

end
