(* ===== verification/VersionChains.thy ===== *)
theory VersionChains
  imports TransactionManager
begin

text \<open>
  Version chains and the invariant of the multi-version store.

  A row's versions are its base tuple and the undo logs reached from its head link. The predicate
  \<open>chain\<close> says that such a chain is strictly descending in time, that each link leads to the log of
  the transaction that wrote the version above it, and that a link may dangle only below the
  watermark. \<open>hist_le\<close> is how the tracked transactions may evolve; chains and the walks along them
  survive it. \<open>mvcc_inv\<close> collects what every operation keeps; \<open>snap\<close> is the committed value of a row
  in a snapshot.
\<close>

declare split_paired_All [simp del] split_paired_Ex [simp del]

section \<open>Effects of the primitive updates\<close>

lemma find_txn_put [simp]: "find_txn (put_txn i t db) = (find_txn db)(i \<mapsto> t)"
  by (simp add: find_txn_def put_txn_def update_conv' fun_eq_iff)

lemma put_txn_sel [simp]:
  "next_txn_id (put_txn i t db) = next_txn_id db" "last_commit_ts (put_txn i t db) = last_commit_ts db"
  "running_txns (put_txn i t db) = running_txns db" "version_info (put_txn i t db) = version_info db"
  "db_store (put_txn i t db) = db_store db" "db_catalog (put_txn i t db) = db_catalog db"
  "get_undo_link (put_txn i t db) = get_undo_link db" "txn_map (put_txn i t db) = AList.update i t (txn_map db)"
  by (simp_all add: put_txn_def get_undo_link_def fun_eq_iff)

lemma put_db_page_sel [simp]:
  "next_txn_id (put_db_page i p db) = next_txn_id db" "last_commit_ts (put_db_page i p db) = last_commit_ts db"
  "running_txns (put_db_page i p db) = running_txns db" "version_info (put_db_page i p db) = version_info db"
  "db_store (put_db_page i p db) = put_page i p (db_store db)" "db_catalog (put_db_page i p db) = db_catalog db"
  "get_undo_link (put_db_page i p db) = get_undo_link db" "txn_map (put_db_page i p db) = txn_map db"
  "find_txn (put_db_page i p db) = find_txn db"
  by (simp_all add: put_db_page_def get_undo_link_def find_txn_def fun_eq_iff)

lemma update_undo_link_sel [simp]:
  "next_txn_id (snd (update_undo_link r l c db)) = next_txn_id db"
  "last_commit_ts (snd (update_undo_link r l c db)) = last_commit_ts db"
  "running_txns (snd (update_undo_link r l c db)) = running_txns db"
  "db_store (snd (update_undo_link r l c db)) = db_store db"
  "db_catalog (snd (update_undo_link r l c db)) = db_catalog db"
  "txn_map (snd (update_undo_link r l c db)) = txn_map db"
  "find_txn (snd (update_undo_link r l c db)) = find_txn db"
  by (simp_all add: update_undo_link_def find_txn_def Let_def fun_eq_iff split: option.splits)

lemma get_undo_link_update:
  "get_undo_link (snd (update_undo_link r l None db)) = (get_undo_link db)(r := l)"
  by (rule ext) (auto simp: get_undo_link_def update_undo_link_def Let_def split: option.splits)

lemma get_undo_link_store [simp]:
  "get_undo_link (db\<lparr>db_store := st, db_catalog := c\<rparr>) = get_undo_link db"
  "find_txn (db\<lparr>db_store := st, db_catalog := c\<rparr>) = find_txn db"
  by (simp_all add: get_undo_link_def find_txn_def fun_eq_iff)

section \<open>Version histories\<close>

text \<open>
  What a version chain relies on: the undo logs of the transactions still tracked, which timestamps
  a tracked transaction stamps its versions with, the watermark, the latest commit timestamp and the
  next transaction id. \<open>pend\<close> is the transaction inside the stamping loop of a commit, with the
  timestamp it stamps.
\<close>

record hist =
  h_logs :: "int \<Rightarrow> undo_log list option"
  h_own :: "int \<Rightarrow> int \<Rightarrow> bool"
  h_wm :: int
  h_last :: int
  h_next :: int

type_synonym pending = "(int \<times> int) option"

definition owns_ts :: "pending \<Rightarrow> int \<Rightarrow> txn \<Rightarrow> int \<Rightarrow> bool" where
  "owns_ts pend i t a \<longleftrightarrow>
     (txn_state t = COMMITTED \<and> a = commit_ts t) \<or> (txn_live t \<and> (a = i \<or> pend = Some (i, a)))"

definition hist_of :: "pending \<Rightarrow> db \<Rightarrow> hist" where
  "hist_of pend db =
     \<lparr>h_logs = (\<lambda>i. map_option undo_logs (find_txn db i)),
      h_own = (\<lambda>i a. \<exists>t. find_txn db i = Some t \<and> owns_ts pend i t a),
      h_wm = db_watermark db, h_last = last_commit_ts db, h_next = next_txn_id db\<rparr>"

inductive chain :: "hist \<Rightarrow> int \<Rightarrow> undo_link option \<Rightarrow> bool" for H where
  chain_none: "chain H vts None"
| chain_invalid: "\<not> link_valid l \<Longrightarrow> chain H vts (Some l)"
| chain_gone: "link_valid l \<Longrightarrow> prev_txn l < h_next H \<Longrightarrow> h_logs H (prev_txn l) = None \<Longrightarrow>
    vts \<le> h_wm H \<Longrightarrow> chain H vts (Some l)"
| chain_log: "link_valid l \<Longrightarrow> prev_txn l < h_next H \<Longrightarrow> h_logs H (prev_txn l) = Some logs \<Longrightarrow>
    prev_log_idx l < length logs \<Longrightarrow> h_own H (prev_txn l) vts \<Longrightarrow> u = logs ! prev_log_idx l \<Longrightarrow>
    0 \<le> ul_ts u \<Longrightarrow> ul_ts u < vts \<Longrightarrow> ul_ts u \<le> h_last H \<Longrightarrow>
    chain H (ul_ts u) (Some (ul_prev_version u)) \<Longrightarrow> chain H vts (Some l)"

text \<open>
  How histories evolve: a tracked transaction keeps its logs and stamps (those in \<open>D\<close> excepted), or it
  was collected after all its stamps sank below the watermark; ids of collected transactions do
  not come back.
\<close>

definition hist_le :: "int set \<Rightarrow> hist \<Rightarrow> hist \<Rightarrow> bool" where
  "hist_le D H H' \<longleftrightarrow>
     h_wm H \<le> h_wm H' \<and> h_last H \<le> h_last H' \<and> h_next H \<le> h_next H' \<and> (\<forall>d \<in> D. h_last H < d) \<and>
     (\<forall>i < h_next H. case h_logs H i of
        None \<Rightarrow> h_logs H' i = None
      | Some logs \<Rightarrow>
          (\<exists>more. h_logs H' i = Some (logs @ more) \<and> (\<forall>a. h_own H i a \<longrightarrow> a \<notin> D \<longrightarrow> h_own H' i a)) \<or>
          (h_logs H' i = None \<and> (\<forall>a. h_own H i a \<longrightarrow> a \<notin> D \<longrightarrow> a \<le> h_wm H')))"

lemma hist_le_bounds:
  assumes "hist_le D H H'"
  shows "h_wm H \<le> h_wm H'" "h_last H \<le> h_last H'" "h_next H \<le> h_next H'" "\<And>d. d \<in> D \<Longrightarrow> h_last H < d"
  using assms by (auto simp: hist_le_def)

lemma hist_leD:
  "hist_le D H H' \<Longrightarrow> i < h_next H \<Longrightarrow> case h_logs H i of
        None \<Rightarrow> h_logs H' i = None
      | Some logs \<Rightarrow>
          (\<exists>more. h_logs H' i = Some (logs @ more) \<and> (\<forall>a. h_own H i a \<longrightarrow> a \<notin> D \<longrightarrow> h_own H' i a)) \<or>
          (h_logs H' i = None \<and> (\<forall>a. h_own H i a \<longrightarrow> a \<notin> D \<longrightarrow> a \<le> h_wm H'))"
  by (simp only: hist_le_def)

lemma hist_le_gone: "hist_le D H H' \<Longrightarrow> i < h_next H \<Longrightarrow> h_logs H i = None \<Longrightarrow> h_logs H' i = None"
  by (drule (1) hist_leD) simp

lemma hist_le_cases:
  assumes "hist_le D H H'" and "i < h_next H" and "h_logs H i = Some logs"
  obtains more where "h_logs H' i = Some (logs @ more)" "\<And>a. h_own H i a \<Longrightarrow> a \<notin> D \<Longrightarrow> h_own H' i a"
  | "h_logs H' i = None" "\<And>a. h_own H i a \<Longrightarrow> a \<notin> D \<Longrightarrow> a \<le> h_wm H'"
  using hist_leD [OF assms(1,2)] assms(3) by auto

lemma chain_mono:
  assumes "chain H vts l" and le: "hist_le D H H'" and "vts \<notin> D"
  shows "chain H' vts l"
  using assms(1,3)
proof (induction rule: chain.induct)
  case (chain_gone l vts)
  then show ?case using hist_le_bounds [OF le] hist_le_gone [OF le]
    by (intro chain.chain_gone) auto
next
  case (chain_log l logs vts u)
  note b = hist_le_bounds [OF le]
  have D: "ul_ts u \<notin> D" using b(4) [of "ul_ts u"] chain_log(9) by auto
  from le chain_log(2,3) show ?case
  proof (cases rule: hist_le_cases)
    case (1 more)
    have "u = (logs @ more) ! prev_log_idx l" using chain_log(4,6) by (simp add: nth_append)
    from chain.chain_log [OF chain_log(1) _ 1(1) _ 1(2) [OF chain_log(5) chain_log.prems] this
        chain_log(7,8) _ chain_log.IH [OF D]]
    show ?thesis using chain_log(2,4,9) b(2,3) by simp
  next
    case 2
    then show ?thesis using chain_log b(1,2,3) by (intro chain.chain_gone) auto
  qed
qed (auto intro: chain.chain_none chain.chain_invalid)

lemma get_undo_log_hist:
  "get_undo_log_optional db l = map_option (\<lambda>logs. logs ! prev_log_idx l) (h_logs (hist_of pend db) (prev_txn l))"
  by (simp add: get_undo_log_optional_def hist_of_def get_undo_log_def split: option.splits)

text \<open>
  A walk from a version newer than the snapshot ends, and its result survives any evolution of the
  history whose watermark does not pass the snapshot.
\<close>

lemma walk_stable:
  assumes "chain (hist_of pend db) vts l" and le: "hist_le D (hist_of pend db) (hist_of pend' db')"
    and "vts \<notin> D" and "s < vts" and s: "db_watermark db' \<le> s"
  shows "\<exists>v. walk_versions db s l = Some v \<and> walk_versions db' s l = Some v"
  using assms(1,3,4)
proof (induction rule: chain.induct)
  case (chain_none vts)
  then show ?case by (simp add: walk_versions.simps)
next
  case (chain_invalid l vts)
  then show ?case by (simp add: walk_versions.simps)
next
  case (chain_gone l vts)
  then show ?case using hist_le_bounds(1) [OF le] s by (simp add: hist_of_def)
next
  case (chain_log l logs vts u)
  have D: "ul_ts u \<notin> D" using hist_le_bounds(4) [OF le, of "ul_ts u"] chain_log(9) by auto
  have log: "get_undo_log_optional db l = Some u"
    using chain_log by (simp add: get_undo_log_hist [of _ _ pend])
  have log': "get_undo_log_optional db' l = Some u"
    using le chain_log(2,3)
  proof (cases rule: hist_le_cases)
    case (1 more)
    then show ?thesis using chain_log by (simp add: get_undo_log_hist [of _ _ pend'] nth_append)
  next
    case 2
    then show ?thesis using chain_log s by (force simp: hist_of_def)
  qed
  show ?case
  proof (cases "ul_ts u \<le> s")
    case True
    then show ?thesis using chain_log(1) log log'
      by (subst (1 2) walk_versions.simps) simp
  next
    case False
    then show ?thesis using chain_log(1) log log' chain_log.IH D
      by (subst (1 2) walk_versions.simps) simp
  qed
qed

lemma hist_le_refl [simp]: "\<forall>d \<in> D. h_last H < d \<Longrightarrow> hist_le D H H"
  by (simp add: hist_le_def split: option.split)

lemma walk_total:
  "chain (hist_of pend db) vts l \<Longrightarrow> s < vts \<Longrightarrow> db_watermark db \<le> s \<Longrightarrow> \<exists>v. walk_versions db s l = Some v"
  using walk_stable [of pend db vts l "{}" pend db s] by auto

section \<open>The invariant\<close>

definition writes :: "txn \<Rightarrow> rid set" where
  "writes t = snd ` set (written t)"

definition live_mset :: "(int \<times> txn) list \<Rightarrow> int multiset" where
  "live_mset xs = mset (map (\<lambda>x. read_ts (snd x)) (filter (\<lambda>x. txn_live (snd x)) xs))"

definition clock_ok :: "db \<Rightarrow> bool" where
  "clock_ok db \<longleftrightarrow> 0 \<le> last_commit_ts db \<and> last_commit_ts db < TXN_START_ID \<and> TXN_START_ID \<le> next_txn_id db \<and>
     distinct (map fst (txn_map db))"

definition txn_ok :: "db \<Rightarrow> int \<Rightarrow> txn \<Rightarrow> bool" where
  "txn_ok db i t \<longleftrightarrow> txn_id t = i \<and> TXN_START_ID \<le> i \<and> i < next_txn_id db \<and> 0 \<le> read_ts t \<and>
     read_ts t \<le> last_commit_ts db \<and>
     (txn_state t = COMMITTED \<longrightarrow> read_ts t < commit_ts t \<and> commit_ts t \<le> last_commit_ts db) \<and> write_set_wf t \<and>
     (\<forall>u \<in> set (undo_logs t). 0 \<le> ul_ts u \<and> ul_ts u \<le> read_ts t \<and> length (ul_row u) \<le> PAGE_SIZE) \<and>
     (\<forall>(oid, r) \<in> set (written t). \<exists>h. db_catalog db oid = Some h \<and> fst r \<in> set (page_directory h) \<and>
        row_at (db_store db) r \<noteq> None)"

definition wm_ok :: "db \<Rightarrow> bool" where
  "wm_ok db \<longleftrightarrow> watermark_inv (running_txns db) \<and> wm_commit_ts (running_txns db) = last_commit_ts db \<and>
     live_reads (running_txns db) = live_mset (txn_map db)"

definition heaps_ok :: "db \<Rightarrow> bool" where
  "heaps_ok db \<longleftrightarrow> store_wf (db_store db) \<and> (\<forall>oid h. db_catalog db oid = Some h \<longrightarrow> heap_wf h (db_store db)) \<and>
     (\<forall>o1 o2 h1 h2. o1 \<noteq> o2 \<longrightarrow> db_catalog db o1 = Some h1 \<longrightarrow> db_catalog db o2 = Some h2 \<longrightarrow>
        set (page_directory h1) \<inter> set (page_directory h2) = {})"

definition has_owner :: "pending \<Rightarrow> db \<Rightarrow> rid \<Rightarrow> int \<Rightarrow> bool" where
  "has_owner pend db r a \<longleftrightarrow> (\<exists>i t. find_txn db i = Some t \<and> txn_live t \<and> r \<in> writes t \<and> owns_ts pend i t a)"

definition row_ok :: "pending \<Rightarrow> db \<Rightarrow> rid \<Rightarrow> tuple_meta \<Rightarrow> bool" where
  "row_ok pend db r m \<longleftrightarrow> 0 \<le> ts m \<and> chain (hist_of pend db) (ts m) (get_undo_link db r) \<and>
     (ts m \<le> last_commit_ts db \<or> has_owner pend db r (ts m))"

definition links_ok :: "db \<Rightarrow> bool" where
  "links_ok db \<longleftrightarrow> (\<forall>r l. get_undo_link db r = Some l \<longrightarrow> link_valid l \<and> row_at (db_store db) r \<noteq> None)"

definition pend_ok :: "pending \<Rightarrow> db \<Rightarrow> bool" where
  "pend_ok pend db \<longleftrightarrow> (\<forall>i c. pend = Some (i, c) \<longrightarrow>
     c = last_commit_ts db + 1 \<and> c < TXN_START_ID \<and> (\<exists>t. find_txn db i = Some t \<and> txn_live t))"

definition mvcc_inv :: "pending \<Rightarrow> db \<Rightarrow> bool" where
  "mvcc_inv pend db \<longleftrightarrow> clock_ok db \<and> (\<forall>i t. find_txn db i = Some t \<longrightarrow> txn_ok db i t) \<and> wm_ok db \<and> heaps_ok db \<and>
     (\<forall>r m b. row_at (db_store db) r = Some (m, b) \<longrightarrow> row_ok pend db r m) \<and> links_ok db \<and> pend_ok pend db"

text \<open>A transaction still owns every row it wrote.\<close>

definition owned :: "db \<Rightarrow> txn \<Rightarrow> bool" where
  "owned db t \<longleftrightarrow> (\<forall>r \<in> writes t. \<exists>m b. row_at (db_store db) r = Some (m, b) \<and> ts m = txn_id t)"

definition db_inv :: "db \<Rightarrow> bool" where
  "db_inv db \<longleftrightarrow> mvcc_inv None db \<and> (\<forall>i t. find_txn db i = Some t \<longrightarrow> txn_live t \<longrightarrow> owned db t)"

text \<open>
  The commit timestamp of the newest committed version of a row; \<open>-1\<close> where there is none (no row, or
  a row that its inserting transaction has not committed).
\<close>

definition committed_ts :: "db \<Rightarrow> rid \<Rightarrow> int" where
  "committed_ts db r =
     (case row_at (db_store db) r of
        None \<Rightarrow> -1
      | Some (m, b) \<Rightarrow>
          if is_temp_ts (ts m)
          then (case Option.bind (get_undo_link db r) (get_undo_log_optional db) of None \<Rightarrow> -1 | Some u \<Rightarrow> ul_ts u)
          else ts m)"

section \<open>Projections\<close>

lemma mvcc_invD:
  assumes "mvcc_inv pend db"
  shows "clock_ok db" "wm_ok db" "heaps_ok db" "links_ok db" "pend_ok pend db" "store_wf (db_store db)"
    "\<And>i t. find_txn db i = Some t \<Longrightarrow> txn_ok db i t"
    "\<And>r m b. row_at (db_store db) r = Some (m, b) \<Longrightarrow> row_ok pend db r m"
  using assms by (auto simp: mvcc_inv_def heaps_ok_def)

lemma map_of_delete: "distinct (map fst xs) \<Longrightarrow> map_of xs i = Some t \<Longrightarrow>
    mset xs = add_mset (i, t) (mset (AList.delete i xs))"
proof (induction xs)
  case (Cons x xs)
  then show ?case
    by (cases x) (auto simp: AList.delete_idem)
qed simp

lemma mset_AList_update: "distinct (map fst xs) \<Longrightarrow> mset (AList.update i t xs) = add_mset (i, t) (mset (AList.delete i xs))"
proof (induction xs)
  case (Cons x xs)
  then show ?case
    by (cases x) (auto simp: AList.delete_idem)
qed simp

lemma live_mset_mset: "live_mset xs = image_mset (\<lambda>x. read_ts (snd x)) (filter_mset (\<lambda>x. txn_live (snd x)) (mset xs))"
  by (simp add: live_mset_def mset_filter)

lemma live_mset_update:
  assumes "distinct (map fst xs)" and "map_of xs i = Some t" and "read_ts t' = read_ts t"
  shows "txn_live t' = txn_live t \<Longrightarrow> live_mset (AList.update i t' xs) = live_mset xs"
    and "txn_live t \<Longrightarrow> \<not> txn_live t' \<Longrightarrow> live_mset xs = add_mset (read_ts t) (live_mset (AList.update i t' xs))"
  using map_of_delete [OF assms(1,2)] mset_AList_update [OF assms(1), of i t'] assms(3)
  by (auto simp: live_mset_mset)

lemma live_mset_append: "live_mset (xs @ [(i, t)]) = (if txn_live t then add_mset (read_ts t) (live_mset xs) else live_mset xs)"
  by (simp add: live_mset_mset)

lemma live_mset_filter: "(\<And>x. x \<in> set xs \<Longrightarrow> txn_live (snd x) \<Longrightarrow> P x) \<Longrightarrow> live_mset (filter P xs) = live_mset xs"
  unfolding live_mset_def by (rule arg_cong [of _ _ mset]) (induction xs, auto)

lemma wm_bounds:
  assumes "mvcc_inv pend db"
  shows "0 \<le> db_watermark db" "db_watermark db \<le> last_commit_ts db"
    "\<And>i t. find_txn db i = Some t \<Longrightarrow> txn_live t \<Longrightarrow> db_watermark db \<le> read_ts t"
proof -
  note inv = mvcc_invD [OF assms]
  have rs: "\<exists>i t. find_txn db i = Some t \<and> r = read_ts t" if "r \<in># live_reads (running_txns db)" for r
    using that inv(1,2) by (force simp: wm_ok_def clock_ok_def live_mset_def find_txn_def)
  have wm: "db_watermark db = (if live_reads (running_txns db) = {#} then last_commit_ts db
      else Min_mset (live_reads (running_txns db)))"
    using inv(2) get_watermark_Min [of "running_txns db"] by (simp add: wm_ok_def db_watermark_def)
  show "0 \<le> db_watermark db" "db_watermark db \<le> last_commit_ts db"
  proof -
    have "live_reads (running_txns db) \<noteq> {#} \<Longrightarrow> Min_mset (live_reads (running_txns db)) \<in># live_reads (running_txns db)"
      by (rule Min_in) auto
    then have "0 \<le> db_watermark db \<and> db_watermark db \<le> last_commit_ts db"
      using wm rs inv(1,7) by (fastforce simp: txn_ok_def clock_ok_def)
    then show "0 \<le> db_watermark db" "db_watermark db \<le> last_commit_ts db" by auto
  qed
  show "db_watermark db \<le> read_ts t" if "find_txn db i = Some t" "txn_live t" for i t
  proof -
    have "(i, t) \<in> set (txn_map db)" using that(1) by (auto simp: find_txn_def dest: map_of_SomeD)
    then have "read_ts t \<in># live_reads (running_txns db)"
      using inv(2) that(2) by (force simp: wm_ok_def live_mset_def)
    then show ?thesis using wm by auto
  qed
qed

lemma row_length:
  assumes "store_wf st" and "row_at st r = Some (m, b)"
  shows "length b \<le> PAGE_SIZE"
proof -
  let ?p = "page_of st (fst r)"
  have "page_wf ?p" "snd r < length (tuple_info ?p)" and b: "b = buf_read (si_offset (tuple_info ?p ! snd r)) (si_size (tuple_info ?p ! snd r)) (page_bytes ?p)"
    using assms store_wf_page by (auto simp: row_at_Some page_rows_def num_tuples_def)
  then show ?thesis by (simp add: page_wf_def buf_read_def)
qed

section \<open>Snapshots\<close>

text \<open>The committed value of a row in the snapshot taken at timestamp \<open>s\<close>.\<close>

definition snap :: "db \<Rightarrow> int \<Rightarrow> rid \<Rightarrow> row option option" where
  "snap db s r =
     (case row_at (db_store db) r of
        None \<Rightarrow> Some None
      | Some (m, b) \<Rightarrow>
          if ts m \<le> s then Some (if is_deleted m then None else Some b)
          else walk_versions db s (get_undo_link db r))"

lemma snap_frame:
  assumes "mvcc_inv pend db" and le: "hist_le D (hist_of pend db) (hist_of pend' db')"
    and "row_at (db_store db') r = row_at (db_store db) r" and "get_undo_link db' r = get_undo_link db r"
    and D: "\<And>m b. row_at (db_store db) r = Some (m, b) \<Longrightarrow> ts m \<notin> D" and "db_watermark db' \<le> s"
  shows "\<exists>v. snap db s r = Some v \<and> snap db' s r = Some v"
proof (cases "row_at (db_store db) r")
  case (Some mb)
  obtain m b where mb: "mb = (m, b)" by force
  have "chain (hist_of pend db) (ts m) (get_undo_link db r)"
    using mvcc_invD(8) [OF assms(1)] Some mb by (auto simp: row_ok_def)
  from walk_stable [OF this le D [OF Some [unfolded mb]]] assms(3,4,6) Some mb show ?thesis
    by (cases "ts m \<le> s") (auto simp: snap_def)
qed (use assms in \<open>simp add: snap_def\<close>)

lemma snap_total:
  assumes "mvcc_inv pend db" and "db_watermark db \<le> s"
  shows "\<exists>v. snap db s r = Some v"
  using snap_frame [of pend db "{}" pend db r s] assms by auto

section \<open>Rewriting one row\<close>

definition rewrites_row :: "int \<Rightarrow> txn \<Rightarrow> rid \<Rightarrow> tuple_meta \<Rightarrow> row \<Rightarrow> undo_link option \<Rightarrow> db \<Rightarrow> db \<Rightarrow> bool" where
  "rewrites_row tid t' r m b l db db' \<longleftrightarrow>
     txn_map db' = AList.update tid t' (txn_map db) \<and>
     row_at (db_store db') = (row_at (db_store db))(r \<mapsto> (m, b)) \<and>
     get_undo_link db' = (get_undo_link db)(r := l) \<and> next_txn_id db' = next_txn_id db \<and>
     last_commit_ts db' = last_commit_ts db \<and> running_txns db' = running_txns db \<and> heaps_ok db' \<and>
     (\<forall>oid h. db_catalog db oid = Some h \<longrightarrow>
        (\<exists>h'. db_catalog db' oid = Some h' \<and> set (page_directory h) \<subseteq> set (page_directory h')))"

text \<open>A transaction that went on writing.\<close>

definition txn_grows :: "txn \<Rightarrow> txn \<Rightarrow> bool" where
  "txn_grows t t' \<longleftrightarrow> txn_live t' = txn_live t \<and> (txn_state t' = COMMITTED \<longleftrightarrow> txn_state t = COMMITTED) \<and>
     read_ts t' = read_ts t \<and> commit_ts t' = commit_ts t \<and>
     txn_id t' = txn_id t \<and> (\<exists>more. undo_logs t' = undo_logs t @ more) \<and> set (written t) \<subseteq> set (written t')"

lemma txn_grows_refl [simp]: "txn_grows t t"
  by (simp add: txn_grows_def)

lemma txn_grows_owns: "txn_grows t t' \<Longrightarrow> owns_ts pend i t' a = owns_ts pend i t a"
  and txn_grows_live: "txn_grows t t' \<Longrightarrow> txn_live t' = txn_live t"
  and txn_grows_writes: "txn_grows t t' \<Longrightarrow> r \<in> writes t \<Longrightarrow> r \<in> writes t'"
  by (auto simp: txn_grows_def owns_ts_def writes_def)

lemma find_txn_rewrites: "rewrites_row tid t' r m b l db db' \<Longrightarrow> find_txn db' = (find_txn db)(tid \<mapsto> t')"
  by (simp add: rewrites_row_def find_txn_def update_conv' fun_eq_iff)

lemma owner_grow:
  assumes "find_txn db tid = Some t" and "txn_grows t t'" and "find_txn db' = (find_txn db)(tid \<mapsto> t')"
    and "has_owner pend db x a"
  shows "has_owner pend db' x a"
proof -
  obtain i u where u: "find_txn db i = Some u" "txn_live u" "x \<in> writes u" "owns_ts pend i u a"
    using assms(4) by (auto simp: has_owner_def)
  then show ?thesis
    unfolding has_owner_def
    using assms(1,3) txn_grows_owns [OF assms(2)] txn_grows_live [OF assms(2)] txn_grows_writes [OF assms(2), of x]
    by (intro exI [of _ i] exI [of _ "if i = tid then t' else u"]) auto
qed

lemma hist_le_grow:
  assumes "find_txn db tid = Some t" and "txn_grows t t'" and "find_txn db' = (find_txn db)(tid \<mapsto> t')"
    and "db_watermark db' = db_watermark db" "last_commit_ts db' = last_commit_ts db" "next_txn_id db' = next_txn_id db"
  shows "hist_le {} (hist_of pend db) (hist_of pend db')"
proof -
  obtain more where "undo_logs t' = undo_logs t @ more" using assms(2) by (auto simp: txn_grows_def)
  then show ?thesis
    using assms txn_grows_owns [OF assms(2), of pend tid]
    by (auto simp: hist_le_def hist_of_def split: option.split)
qed

lemma txn_ok_mono:
  assumes "txn_ok db i t" and "next_txn_id db \<le> next_txn_id db'" and "last_commit_ts db \<le> last_commit_ts db'"
    and "\<And>oid h. db_catalog db oid = Some h \<Longrightarrow> \<exists>h'. db_catalog db' oid = Some h' \<and> set (page_directory h) \<subseteq> set (page_directory h')"
    and "\<And>r. row_at (db_store db) r \<noteq> None \<Longrightarrow> row_at (db_store db') r \<noteq> None"
  shows "txn_ok db' i t"
  using assms unfolding txn_ok_def by (fastforce dest!: assms(4))

lemma mvcc_inv_rewrite:
  assumes inv: "mvcc_inv pend db" and t: "find_txn db tid = Some t" and grow: "txn_grows t t'"
    and rw: "rewrites_row tid t' r m b l db db'" and ok: "txn_ok db' tid t'" and row: "row_ok pend db' r m"
    and l: "\<And>x. l = Some x \<Longrightarrow> link_valid x"
  shows "mvcc_inv pend db'" and "hist_le {} (hist_of pend db) (hist_of pend db')"
proof -
  note I = mvcc_invD [OF inv] and f = find_txn_rewrites [OF rw]
  have eq: "row_at (db_store db') = (row_at (db_store db))(r \<mapsto> (m, b))" "get_undo_link db' = (get_undo_link db)(r := l)"
    "next_txn_id db' = next_txn_id db" "last_commit_ts db' = last_commit_ts db" "running_txns db' = running_txns db"
    "heaps_ok db'" "txn_map db' = AList.update tid t' (txn_map db)"
    using rw by (auto simp: rewrites_row_def)
  have cat: "\<And>oid h. db_catalog db oid = Some h \<Longrightarrow> \<exists>h'. db_catalog db' oid = Some h' \<and> set (page_directory h) \<subseteq> set (page_directory h')"
    using rw unfolding rewrites_row_def by blast
  have wm: "db_watermark db' = db_watermark db" using eq by (simp add: db_watermark_def)
  show le: "hist_le {} (hist_of pend db) (hist_of pend db')"
    by (rule hist_le_grow [OF t grow f wm eq(4,3)])
  have dist: "distinct (map fst (txn_map db))" using I(1) by (simp add: clock_ok_def)
  have lm: "live_mset (txn_map db') = live_mset (txn_map db)"
    using live_mset_update(1) [OF dist] t grow txn_grows_live [OF grow] eq(7) by (simp add: txn_grows_def find_txn_def)
  have "clock_ok db'" using I(1) eq distinct_update [OF dist] by (simp add: clock_ok_def)
  moreover have "wm_ok db'" using I(2) eq lm by (simp add: wm_ok_def)
  moreover have "txn_ok db' i u" if "find_txn db' i = Some u" for i u
  proof (cases "i = tid")
    case False
    then have "txn_ok db i u" using that f I(7) by simp
    then show ?thesis by (rule txn_ok_mono [OF _ _ _ cat]) (simp_all add: eq)
  qed (use that f ok in simp)
  moreover have "row_ok pend db' x m'" if x: "row_at (db_store db') x = Some (m', b')" for x m' b'
  proof (cases "x = r")
    case False
    then have rx: "row_ok pend db x m'" using x eq I(8) by simp
    then show ?thesis
      using chain_mono [OF _ le] owner_grow [OF t grow f, of pend x "ts m'"] False unfolding row_ok_def eq by auto
  qed (use x eq row in auto)
  moreover have "links_ok db'" using I(4) eq l by (auto simp: links_ok_def)
  moreover have "pend_ok pend db'"
    using I(5) f eq t txn_grows_live [OF grow] by (auto simp: pend_ok_def)
  ultimately show "mvcc_inv pend db'" using eq(6) by (simp add: mvcc_inv_def)
qed

lemma snap_rewrite:
  assumes "mvcc_inv pend db" and "find_txn db tid = Some t" and "txn_grows t t'"
    and rw: "rewrites_row tid t' r m b l db db'" and "x \<noteq> r" and "db_watermark db \<le> s"
  shows "snap db' s x = snap db s x"
proof -
  have wm: "db_watermark db' = db_watermark db" using rw by (simp add: rewrites_row_def db_watermark_def)
  have le: "hist_le {} (hist_of pend db) (hist_of pend db')"
    using assms(2,3) find_txn_rewrites [OF rw] wm rw by (intro hist_le_grow) (auto simp: rewrites_row_def)
  from snap_frame [OF assms(1) le, of x s] show ?thesis using assms(5,6) rw wm by (auto simp: rewrites_row_def)
qed


section \<open>Changing a transaction only\<close>

lemma mvcc_inv_put_txn:
  assumes inv: "mvcc_inv pend db" and t: "find_txn db tid = Some t" and grow: "txn_grows t t'"
    and wr: "set (written t') = set (written t)" and wf: "write_set_wf t'"
    and logs: "\<forall>u \<in> set (undo_logs t'). 0 \<le> ul_ts u \<and> ul_ts u \<le> read_ts t \<and> length (ul_row u) \<le> PAGE_SIZE"
  shows "mvcc_inv pend (put_txn tid t' db)" "hist_le {} (hist_of pend db) (hist_of pend (put_txn tid t' db))"
proof -
  let ?db' = "put_txn tid t' db"
  note I = mvcc_invD [OF inv]
  have wm: "db_watermark ?db' = db_watermark db" by (simp add: db_watermark_def)
  show le: "hist_le {} (hist_of pend db) (hist_of pend ?db')"
    by (rule hist_le_grow [OF t grow]) (simp_all add: wm)
  have dist: "distinct (map fst (txn_map db))" using I(1) by (simp add: clock_ok_def)
  have lm: "live_mset (AList.update tid t' (txn_map db)) = live_mset (txn_map db)"
    using live_mset_update(1) [OF dist] t grow txn_grows_live [OF grow] by (simp add: txn_grows_def find_txn_def)
  have "clock_ok ?db'" using I(1) distinct_update [OF dist] by (simp add: clock_ok_def)
  moreover have "wm_ok ?db'" using I(2) lm by (simp add: wm_ok_def)
  moreover have "txn_ok ?db' i u" if "find_txn ?db' i = Some u" for i u
  proof (cases "i = tid")
    case False
    then have "txn_ok db i u" using that I(7) by simp
    then show ?thesis by (simp add: txn_ok_def)
  next
    case True
    then show ?thesis using that I(7) [OF t] grow wr wf logs by (auto simp: txn_ok_def txn_grows_def)
  qed
  moreover have "row_ok pend ?db' x m'" if x: "row_at (db_store ?db') x = Some (m', b')" for x m' b'
  proof -
    have rx: "row_ok pend db x m'" using x I(8) by simp
    then show ?thesis
      using chain_mono [OF _ le] owner_grow [OF t grow, of ?db' pend x "ts m'"] unfolding row_ok_def by auto
  qed
  moreover have "links_ok ?db'" using I(4) by (simp add: links_ok_def)
  moreover have "pend_ok pend ?db'" using I(5) t txn_grows_live [OF grow] by (auto simp: pend_ok_def)
  moreover have "heaps_ok ?db'" using I(3) by (simp add: heaps_ok_def)
  ultimately show "mvcc_inv pend ?db'" by (simp add: mvcc_inv_def)
qed

lemma snap_put_txn:
  assumes "mvcc_inv pend db" "find_txn db tid = Some t" "txn_grows t t'" "db_watermark db \<le> s"
  shows "snap (put_txn tid t' db) s r = snap db s r"
proof -
  have wm: "db_watermark (put_txn tid t' db) = db_watermark db" by (simp add: db_watermark_def)
  have le: "hist_le {} (hist_of pend db) (hist_of pend (put_txn tid t' db))"
    by (rule hist_le_grow [OF assms(2,3)]) (simp_all add: wm)
  from snap_frame [OF assms(1) le, of r s] show ?thesis using assms(4) wm by auto
qed

end
