(* ===== verification/MvccInvariant.thy ===== *)
theory MvccInvariant
  imports VersionChains
begin

text \<open>
  Every step of the multi-version store keeps the invariant and every snapshot a live or future
  reader can hold: updating, deleting and inserting a row, rolling a row back, stamping it with a
  commit timestamp, the loops over a write set, publishing a commit, finishing an abort, beginning a
  transaction and sweeping finished ones.
\<close>

section \<open>Page writes of the version paths\<close>

lemma update_row_True:
  assumes "page_wf p" "slot < num_tuples p" "row_size \<le> length row_data" "row_size < 65536"
    and "update_row meta row_data row_size slot p = Inr (True, p')"
  shows "page_wf p' \<and> page_rows p' = (page_rows p)[slot := (meta, take row_size row_data)] \<and>
     next_page_id p' = next_page_id p"
proof -
  let ?old = "si_size (tuple_info p ! slot)"
  have "\<not> ?old + free_space p < row_size"
  proof
    assume "?old + free_space p < row_size"
    then show False
      using update_row_too_big [OF assms(1,2)] update_row_wraps [OF assms(1,2) _ assms(4,3)] assms(5)
      by (cases "row_size \<le> ?old + low_off PAGE_SIZE (tuple_info p)") auto
  qed
  then have "\<exists>p'. update_row meta row_data row_size slot p = Inr (True, p') \<and> page_wf p' \<and>
           page_rows p' = (page_rows p)[slot := (meta, take row_size row_data)] \<and> next_page_id p' = next_page_id p"
    using update_row_same_size [OF assms(1,2) _ assms(3)] update_row_resize_fits [OF assms(1,2) _ _ assms(3)]
    by (cases "row_size = ?old") auto
  with assms(5) show ?thesis by auto
qed

lemma update_tuple_meta_Inr:
  assumes "page_wf p" "slot < num_tuples p" "update_tuple_meta meta slot p = Inr p'"
  shows "page_wf p' \<and> page_rows p' = (page_rows p)[slot := (meta, snd (page_rows p ! slot))] \<and>
     next_page_id p' = next_page_id p"
  using update_tuple_meta_rows [OF assms(1,2), of meta] assms(3) by auto

lemma apply_base_Inr:
  assumes "page_wf p" "slot < num_tuples p" "n \<le> length row" "n < 65536"
    and "apply_base temp del row n slot p = Inr p'"
  shows "page_wf p' \<and> next_page_id p' = next_page_id p \<and>
     page_rows p' = (page_rows p)[slot := (\<lparr>ts = temp, is_deleted = del\<rparr>,
                                           if del then snd (page_rows p ! slot) else take n row)]"
proof (cases del)
  case True
  then have "update_tuple_meta \<lparr>ts = temp, is_deleted = del\<rparr> slot p = Inr p'"
    using assms(5) by (simp add: apply_base_def Let_def)
  from update_tuple_meta_Inr [OF assms(1,2) this] True show ?thesis by simp
next
  case False
  then have "update_row \<lparr>ts = temp, is_deleted = del\<rparr> row n slot p = Inr (True, p')"
    using assms(5) by (auto simp: apply_base_def Let_def split: sum.splits if_splits)
  from update_row_True [OF assms(1-4) this] False show ?thesis by simp
qed

lemma restore_base_Inr:
  assumes "page_wf p" "slot < num_tuples p" "length (ul_row u) \<le> PAGE_SIZE" and "restore_base u slot p = Inr p'"
  shows "page_wf p' \<and> next_page_id p' = next_page_id p \<and>
     page_rows p' = (page_rows p)[slot := (\<lparr>ts = ul_ts u, is_deleted = ul_is_deleted u\<rparr>,
                                           if ul_is_deleted u then snd (page_rows p ! slot) else ul_row u)]"
proof -
  have sz: "length (ul_row u) mod 2 ^ 16 = length (ul_row u)" "length (ul_row u) < 65536"
    using assms(3) by (auto simp: page_consts)
  let ?m = "\<lparr>ts = ul_ts u, is_deleted = ul_is_deleted u\<rparr>"
  show ?thesis
  proof (cases "ul_is_deleted u")
    case True
    then have "update_tuple_meta ?m slot p = Inr p'" using assms(4) by (simp add: restore_base_def Let_def)
    from update_tuple_meta_Inr [OF assms(1,2) this] True show ?thesis by simp
  next
    case False
    then have "update_row ?m (ul_row u) (length (ul_row u)) slot p = Inr (True, p')"
      using assms(4) unfolding restore_base_def Let_def sz(1) by (auto split: sum.splits if_splits)
    from update_row_True [OF assms(1,2) order_refl sz(2) this] False show ?thesis by simp
  qed
qed

text \<open>Replacing the page of a row in the database.\<close>

lemma put_row_effect:
  assumes "heaps_ok db" and row: "row_at (db_store db) r = Some (m0, b0)"
    and p: "page_wf p \<and> next_page_id p = next_page_id (db_page db r) \<and>
       page_rows p = (page_rows (db_page db r))[snd r := (m, b)]"
  shows "heaps_ok (put_db_page (fst r) p db)"
    and "row_at (db_store (put_db_page (fst r) p db)) = (row_at (db_store db))(r \<mapsto> (m, b))"
proof -
  have wf: "store_wf (db_store db)" using assms(1) by (simp add: heaps_ok_def)
  have "store_wf (put_page (fst r) p (db_store db))"
    using store_wf_put [OF wf] row_at_allocated [OF wf row] p by blast
  then show "heaps_ok (put_db_page (fst r) p db)"
    using assms(1) p heap_wf_put by (auto simp: heaps_ok_def db_page_def)
  have "snd r < num_tuples (page_of (db_store db) (fst r))" using row by (simp add: row_at_Some)
  with row_at_put_update [of p "db_store db" "fst r" "snd r" "(m, b)"] p
  show "row_at (db_store (put_db_page (fst r) p db)) = (row_at (db_store db))(r \<mapsto> (m, b))"
    by (simp add: db_page_def)
qed

lemma page_rows_at:
  assumes "store_wf (db_store db)" and "row_at (db_store db) r = Some (m, b)"
  shows "snd r < num_tuples (db_page db r)" "page_slot r = snd r" "page_rows (db_page db r) ! snd r = (m, b)"
    "page_wf (db_page db r)" "get_row (db_page db r) (page_slot r) = Inr (m, b)"
    "get_tuple_meta (db_page db r) (page_slot r) = Inr m"
  using assms page_slot_id [OF assms(1)] get_row_at [OF assms] store_wf_page [OF assms(1)]
  by (auto simp: row_at_Some db_page_def)

lemma get_row_InrD:
  assumes "store_wf (db_store db)" and "snd r < 65536" and "get_row (db_page db r) (page_slot r) = Inr (m, b)"
  shows "row_at (db_store db) r = Some (m, b)"
  using assms
  by (auto simp: get_row_def Let_def db_page_def page_slot_def row_at_Some page_rows_def num_tuples_def split: if_splits)

section \<open>Updating and deleting a row\<close>

definition undo_of :: "db \<Rightarrow> rid \<Rightarrow> tuple_meta \<Rightarrow> row \<Rightarrow> undo_log" where
  "undo_of db r m b = \<lparr>ul_is_deleted = is_deleted m, ul_row = (if is_deleted m then [] else b), ul_ts = ts m,
     ul_prev_version = (case get_undo_link db r of None \<Rightarrow> undo_link_invalid | Some l \<Rightarrow> l)\<rparr>"

lemma apply_mvcc_modify_Inr:
  assumes "apply_mvcc_modify tid oid r del row n db = (Inr (), db')"
  obtains (own) t m b p where "find_txn db tid = Some t" "get_row (db_page db r) (page_slot r) = Inr (m, b)"
      "apply_base (txn_id t) del row n (page_slot r) (db_page db r) = Inr p" "ts m = txn_id t"
      "db' = put_txn tid (append_write_set oid r t) (put_db_page (fst r) p db)"
  | (version) t m b p t1 where "find_txn db tid = Some t" "get_row (db_page db r) (page_slot r) = Inr (m, b)"
      "apply_base (txn_id t) del row n (page_slot r) (db_page db r) = Inr p" "ts m \<noteq> txn_id t" "ts m \<le> read_ts t"
      "t1 = t\<lparr>undo_logs := undo_logs t @ [undo_of db r m b]\<rparr>"
      "db' = put_txn tid (append_write_set oid r t1)
         (snd (update_undo_link r (Some \<lparr>prev_txn = txn_id t, prev_log_idx = length (undo_logs t)\<rparr>) None
           (put_db_page (fst r) p (put_txn tid t1 db))))"
proof (cases "find_txn db tid")
  case (Some t)
  show ?thesis
  proof (cases "get_row (db_page db r) (page_slot r)")
    case (Inr mb)
    obtain m b where mb: "mb = (m, b)" by force
    show ?thesis
    proof (cases "apply_base (txn_id t) del row n (page_slot r) (db_page db r)")
      case Inl': (Inl e)
      then show ?thesis
        using assms Some Inr mb
        by (auto simp: apply_mvcc_modify_def Let_def append_undo_log_sel throw_write_write_conflict_def
            split: if_splits sum.splits prod.splits)
    next
      case Inr': (Inr p)
      show ?thesis
        using assms Some Inr mb Inr' own [of t m b p] version [of t m b p "t\<lparr>undo_logs := undo_logs t @ [undo_of db r m b]\<rparr>"]
        by (auto simp: apply_mvcc_modify_def Let_def append_undo_log_sel throw_write_write_conflict_def undo_of_def
            split: if_splits sum.splits prod.splits)
    qed
  qed (use assms Some in \<open>simp add: apply_mvcc_modify_def\<close>)
qed (use assms in \<open>simp add: apply_mvcc_modify_def\<close>)

lemma links_okD: "links_ok db \<Longrightarrow> get_undo_link db r = Some l \<Longrightarrow> link_valid l \<and> row_at (db_store db) r \<noteq> None"
  unfolding links_ok_def by blast

text \<open>What a successful update or delete of one row does, with the version it leaves behind.\<close>

definition modifies :: "int \<Rightarrow> nat \<Rightarrow> rid \<Rightarrow> bool \<Rightarrow> row \<Rightarrow> db \<Rightarrow> db \<Rightarrow> bool" where
  "modifies tid oid r del new db db' \<longleftrightarrow>
     (\<exists>t t' b' l. find_txn db tid = Some t \<and> txn_grows t t' \<and>
        rewrites_row tid t' r \<lparr>ts = tid, is_deleted = del\<rparr> b' l db db' \<and> (del \<or> b' = new) \<and>
        set (written t') = insert (oid, r) (set (written t)) \<and>
        txn_isolation t' = txn_isolation t \<and> scan_predicates t' = scan_predicates t \<and>
        write_set_wf t' \<and> db_catalog db' = db_catalog db)"

lemma modify_own:
  assumes inv: "mvcc_inv pend db" and t: "find_txn db tid = Some t" "txn_live t"
    and r: "row_at (db_store db) r = Some (m, b)" "ts m = txn_id t"
    and h: "db_catalog db oid = Some h" "fst r \<in> set (page_directory h)"
    and p: "apply_base (txn_id t) del row n (page_slot r) (db_page db r) = Inr p" "n \<le> length row" "n < 65536"
    and db': "db' = put_txn tid (append_write_set oid r t) (put_db_page (fst r) p db)"
  shows "mvcc_inv pend db'" "modifies tid oid r del (take n row) db db'"
    "db_watermark db \<le> s \<Longrightarrow> s \<le> last_commit_ts db \<Longrightarrow> snap db' s x = snap db s x"
proof -
  note I = mvcc_invD [OF inv] and tok = mvcc_invD(7) [OF inv t(1)]
  let ?t' = "append_write_set oid r t"
  have tid: "txn_id t = tid" "TXN_START_ID \<le> tid" "write_set_wf t" using tok by (auto simp: txn_ok_def)
  note at = page_rows_at [OF I(6) r(1)]
  let ?b = "if del then b else take n row"
  note ab = apply_base_Inr [OF at(4) _ p(2,3), of "page_slot r"]
  have pg: "page_wf p \<and> next_page_id p = next_page_id (db_page db r) \<and>
     page_rows p = (page_rows (db_page db r))[snd r := (\<lparr>ts = tid, is_deleted = del\<rparr>, ?b)]"
    using ab [OF _ p(1)] at tid by simp
  note eff = put_row_effect [OF I(3) r(1) pg]
  have ws: "set (written ?t') = insert (oid, r) (set (written t))" by (rule set_written_append [OF tid(3)])
  have gr: "txn_grows t ?t'" using ws by (auto simp: txn_grows_def txn_live_def)
  have rw: "rewrites_row tid ?t' r \<lparr>ts = tid, is_deleted = del\<rparr> ?b (get_undo_link db r) db db'"
    using eff by (auto simp: rewrites_row_def db' heaps_ok_def fun_upd_idem)
  have le: "hist_le {} (hist_of pend db) (hist_of pend db')"
    using hist_le_grow [OF t(1) gr find_txn_rewrites [OF rw], of pend] rw
    by (simp add: rewrites_row_def db_watermark_def)
  have ch: "chain (hist_of pend db) tid (get_undo_link db r)" using I(8) [OF r(1)] r(2) tid by (simp add: row_ok_def)
  have row: "row_ok pend db' r \<lparr>ts = tid, is_deleted = del\<rparr>"
    unfolding row_ok_def
    using chain_mono [OF ch le] rw find_txn_rewrites [OF rw] tid t ws
    by (auto simp: rewrites_row_def owns_ts_def writes_def TXN_START_ID_def txn_grows_live [OF gr] has_owner_def intro!: exI [of _ tid])
  have ok: "txn_ok db' tid ?t'"
    using tok h rw ws append_write_set_wf [OF tid(3)] by (auto simp: txn_ok_def rewrites_row_def db')
  have lv: "\<And>x. get_undo_link db r = Some x \<Longrightarrow> link_valid x" using links_okD [OF I(4)] by blast
  show "mvcc_inv pend db'" by (rule mvcc_inv_rewrite(1) [OF inv t(1) gr rw ok row lv])
  show "modifies tid oid r del (take n row) db db'"
    unfolding modifies_def using t(1) gr rw ws append_write_set_wf [OF tid(3)] db'
    by (intro exI [of _ t] exI [of _ ?t'] exI [of _ ?b] exI [of _ "get_undo_link db r"]) auto
  show "snap db' s x = snap db s x" if s: "db_watermark db \<le> s" "s \<le> last_commit_ts db"
  proof (cases "x = r")
    case True
    have lt: "s < tid" using s(2) I(1) tid by (simp add: clock_ok_def)
    from walk_stable [OF ch le _ lt] s rw r lt tid True show ?thesis
      by (auto simp: snap_def rewrites_row_def db_watermark_def)
  next
    case False
    then show ?thesis by (rule snap_rewrite [OF inv t(1) gr rw _ s(1)])
  qed
qed


lemma modify_version:
  assumes inv: "mvcc_inv pend db" and t: "find_txn db tid = Some t" "txn_live t"
    and r: "row_at (db_store db) r = Some (m, b)" "ts m \<le> read_ts t"
    and h: "db_catalog db oid = Some h" "fst r \<in> set (page_directory h)"
    and p: "apply_base (txn_id t) del row n (page_slot r) (db_page db r) = Inr p" "n \<le> length row" "n < 65536"
    and t1: "t1 = t\<lparr>undo_logs := undo_logs t @ [undo_of db r m b]\<rparr>"
    and db': "db' = put_txn tid (append_write_set oid r t1)
         (snd (update_undo_link r (Some \<lparr>prev_txn = txn_id t, prev_log_idx = length (undo_logs t)\<rparr>) None
           (put_db_page (fst r) p (put_txn tid t1 db))))"
  shows "mvcc_inv pend db'" "modifies tid oid r del (take n row) db db'"
    "db_watermark db \<le> s \<Longrightarrow> s \<le> last_commit_ts db \<Longrightarrow> snap db' s x = snap db s x"
proof -
  note I = mvcc_invD [OF inv] and tok = mvcc_invD(7) [OF inv t(1)]
  let ?t' = "append_write_set oid r t1" and ?u = "undo_of db r m b"
  let ?l = "\<lparr>prev_txn = tid, prev_log_idx = length (undo_logs t)\<rparr>"
  have tid: "txn_id t = tid" "TXN_START_ID \<le> tid" "write_set_wf t1" "tid < next_txn_id db" "read_ts t \<le> last_commit_ts db"
    using tok t1 by (auto simp: txn_ok_def write_set_wf_def)
  note at = page_rows_at [OF I(6) r(1)]
  let ?b = "if del then b else take n row"
  note ab = apply_base_Inr [OF at(4) _ p(2,3), of "page_slot r"]
  have pg: "page_wf p \<and> next_page_id p = next_page_id (db_page db r) \<and>
     page_rows p = (page_rows (db_page db r))[snd r := (\<lparr>ts = tid, is_deleted = del\<rparr>, ?b)]"
    using ab [OF _ p(1)] at tid by simp
  note eff = put_row_effect [OF I(3) r(1) pg]
  have ws: "set (written ?t') = insert (oid, r) (set (written t))"
    using set_written_append [OF tid(3)] t1 by (simp add: written_def)
  have gr: "txn_grows t ?t'" using ws t1 by (auto simp: txn_grows_def txn_live_def)
  have am: "txn_map db' = AList.update tid ?t' (txn_map db)" by (simp add: db' update_last)
  have rw: "rewrites_row tid ?t' r \<lparr>ts = tid, is_deleted = del\<rparr> ?b (Some ?l) db db'"
    using eff am tid(1) by (auto simp: rewrites_row_def db' heaps_ok_def get_undo_link_update)
  have le: "hist_le {} (hist_of pend db) (hist_of pend db')"
    using hist_le_grow [OF t(1) gr find_txn_rewrites [OF rw], of pend] rw
    by (simp add: rewrites_row_def db_watermark_def)
  have ch: "chain (hist_of pend db) (ts m) (get_undo_link db r)" and m0: "0 \<le> ts m"
    using I(8) [OF r(1)] by (auto simp: row_ok_def)
  have ch': "chain (hist_of pend db') (ul_ts ?u) (Some (ul_prev_version ?u))"
    using chain_mono [OF ch le] chain.chain_invalid [of undo_link_invalid "hist_of pend db'" "ts m"]
    by (cases "get_undo_link db r") (auto simp: undo_of_def undo_link_invalid_def link_valid_def)
  have live': "txn_live ?t'" using txn_grows_live [OF gr] t(2) by simp
  have H: "h_own (hist_of pend db') tid tid" "h_logs (hist_of pend db') tid = Some (undo_logs t @ [?u])"
    "h_next (hist_of pend db') = next_txn_id db" "h_last (hist_of pend db') = last_commit_ts db"
    using find_txn_rewrites [OF rw] live' rw t1 by (simp_all add: hist_of_def owns_ts_def rewrites_row_def)
  have lv: "link_valid ?l" using tid by (auto simp: link_valid_def TXN_START_ID_def INVALID_TXN_ID_def)
  have "ts m < tid" "ts m \<le> last_commit_ts db" using r(2) tid(2,5) I(1) by (auto simp: clock_ok_def)
  with chain.chain_log [of ?l "hist_of pend db'" "undo_logs t @ [?u]" tid ?u, OF lv _ _ _ _ _ _ _ _ ch'] H tid(4) m0
  have "chain (hist_of pend db') tid (Some ?l)" by (simp add: undo_of_def)
  then have row: "row_ok pend db' r \<lparr>ts = tid, is_deleted = del\<rparr>"
    unfolding row_ok_def using rw find_txn_rewrites [OF rw] tid t ws
    by (auto simp: rewrites_row_def owns_ts_def writes_def TXN_START_ID_def txn_grows_live [OF gr] has_owner_def intro!: exI [of _ tid])
  have ok: "txn_ok db' tid ?t'"
    using tok h rw ws append_write_set_wf [OF tid(3)] t1 m0 r(2) row_length [OF I(6) r(1)]
    by (auto simp: txn_ok_def rewrites_row_def db' undo_of_def)
  have lv': "\<And>x. Some ?l = Some x \<Longrightarrow> link_valid x" using lv by auto
  show "mvcc_inv pend db'" by (rule mvcc_inv_rewrite(1) [OF inv t(1) gr rw ok row lv'])
  show "modifies tid oid r del (take n row) db db'"
    unfolding modifies_def using t(1) gr rw ws append_write_set_wf [OF tid(3)] db' t1
    by (intro exI [of _ t] exI [of _ ?t'] exI [of _ ?b] exI [of _ "Some ?l"]) auto
  show "snap db' s x = snap db s x" if s: "db_watermark db \<le> s" "s \<le> last_commit_ts db"
  proof (cases "x = r")
    case True
    have lt: "s < tid" using s(2) I(1) tid by (simp add: clock_ok_def)
    have "get_undo_log_optional db' ?l = Some ?u"
      using find_txn_rewrites [OF rw] t1 by (simp add: get_undo_log_optional_def get_undo_log_def)
    then have "walk_versions db' s (Some ?l) = (if ul_ts ?u \<le> s then Some (if ul_is_deleted ?u then None else Some (ul_row ?u))
        else walk_versions db' s (Some (ul_prev_version ?u)))"
      using lv by (subst walk_versions.simps) simp
    then have "snap db' s r = (if ts m \<le> s then Some (if is_deleted m then None else Some b)
        else walk_versions db' s (Some (ul_prev_version ?u)))"
      using rw lt by (simp add: snap_def rewrites_row_def) (simp add: undo_of_def)
    also have "\<dots> = snap db s r"
    proof (cases "ts m \<le> s")
      case False
      then have "walk_versions db' s (get_undo_link db r) = walk_versions db s (get_undo_link db r)"
        using walk_stable [OF ch le, of s] s rw by (auto simp: rewrites_row_def db_watermark_def)
      moreover have "walk_versions db' s (Some (ul_prev_version ?u)) = walk_versions db' s (get_undo_link db r)"
        by (cases "get_undo_link db r")
          (simp_all add: undo_of_def undo_link_invalid_def walk_versions.simps [of _ _ None] walk_versions.simps [of _ _ "Some \<lparr>prev_txn = INVALID_TXN_ID, prev_log_idx = 0\<rparr>"] link_valid_def)
      ultimately show ?thesis using False r by (simp add: snap_def)
    qed (use r in \<open>simp add: snap_def\<close>)
    finally show ?thesis using True by simp
  next
    case False
    then show ?thesis by (rule snap_rewrite [OF inv t(1) gr rw _ s(1)])
  qed
qed

lemma apply_mvcc_modify_inv:
  assumes inv: "mvcc_inv pend db" and "find_txn db tid = Some t" "txn_live t"
    and h: "db_catalog db oid = Some h" "fst r \<in> set (page_directory h)" and r: "snd r < 65536"
    and n: "n \<le> length row" "n < 65536" and res: "apply_mvcc_modify tid oid r del row n db = (Inr (), db')"
  shows "mvcc_inv pend db' \<and> modifies tid oid r del (take n row) db db' \<and>
     (\<forall>s x. db_watermark db \<le> s \<longrightarrow> s \<le> last_commit_ts db \<longrightarrow> snap db' s x = snap db s x)"
  using res
proof (cases rule: apply_mvcc_modify_Inr)
  case (own t' m b p)
  have "row_at (db_store db) r = Some (m, b)" using get_row_InrD [OF mvcc_invD(6) [OF inv] r] own by blast
  from modify_own [OF inv own(1) _ this own(4) h own(3) n own(5)] own assms(2,3) show ?thesis by auto
next
  case (version t' m b p t1)
  have "row_at (db_store db) r = Some (m, b)" using get_row_InrD [OF mvcc_invD(6) [OF inv] r] version by blast
  from modify_version [OF inv version(1) _ this version(5) h version(3) n version(6,7)] version assms(2,3)
  show ?thesis by auto
qed

lemma apply_mvcc_modify_Inl:
  assumes "apply_mvcc_modify tid oid r del row n db = (Inl e, db')"
  obtains (same) "db' = db"
  | (orphan) t m b where "find_txn db tid = Some t" "get_row (db_page db r) (page_slot r) = Inr (m, b)"
      "ts m \<le> read_ts t" "db' = put_txn tid (t\<lparr>undo_logs := undo_logs t @ [undo_of db r m b]\<rparr>) db"
  | (conflict) t m b where "find_txn db tid = Some t" "get_row (db_page db r) (page_slot r) = Inr (m, b)"
      "ts m \<noteq> txn_id t" "read_ts t < ts m" "txn_state t = RUNNING"
      "e = ConflictException ''write-write conflict: a concurrent transaction modified this row''"
      "db' = put_txn tid (t\<lparr>txn_state := TAINTED\<rparr>) db"
proof (cases "find_txn db tid")
  case None
  then show ?thesis using assms same by (simp add: apply_mvcc_modify_def)
next
  case (Some t)
  show ?thesis
  proof (cases "get_row (db_page db r) (page_slot r)")
    case (Inl x)
    then show ?thesis using assms Some same by (simp add: apply_mvcc_modify_def)
  next
    case (Inr mb)
    obtain m b where mb: "mb = (m, b)" by force
    note base = assms Some Inr mb
    consider "ts m = txn_id t" | "ts m \<noteq> txn_id t" "ts m \<le> read_ts t" | "ts m \<noteq> txn_id t" "read_ts t < ts m" by linarith
    then show ?thesis
    proof cases
      case 1
      with base same show ?thesis by (auto simp: apply_mvcc_modify_def split: sum.splits)
    next
      case 2
      with base orphan [of t m b] show ?thesis
        by (auto simp: apply_mvcc_modify_def Let_def append_undo_log_sel undo_of_def split: sum.splits)
    next
      case 3
      with base same conflict [of t m b] show ?thesis
        by (auto simp: apply_mvcc_modify_def throw_write_write_conflict_def set_tainted_def split: if_splits)
    qed
  qed
qed

lemma modify_fails_inv:
  assumes inv: "mvcc_inv pend db" and live: "find_txn db tid = Some t" "txn_live t" and r: "snd r < 65536"
    and res: "apply_mvcc_modify tid oid r del row n db = (Inl e, db')"
  shows "mvcc_inv pend db' \<and> (\<forall>s x. db_watermark db \<le> s \<longrightarrow> snap db' s x = snap db s x) \<and>
     row_at (db_store db') = row_at (db_store db)"
proof -
  note I = mvcc_invD [OF inv] and tok = mvcc_invD(7) [OF inv live(1)]
  have *: ?thesis if t': "db' = put_txn tid t' db" and gr: "txn_grows t t'"
    and wr: "set (written t') = set (written t)" "write_set_wf t'"
    and logs: "\<forall>u \<in> set (undo_logs t'). 0 \<le> ul_ts u \<and> ul_ts u \<le> read_ts t \<and> length (ul_row u) \<le> PAGE_SIZE" for t'
    using mvcc_inv_put_txn(1) [OF inv live(1) gr wr logs] snap_put_txn [OF inv live(1) gr] t' by simp
  from res show ?thesis
  proof (cases rule: apply_mvcc_modify_Inl)
    case same
    then show ?thesis using inv by simp
  next
    case (orphan t' m b)
    have at: "row_at (db_store db) r = Some (m, b)" using get_row_InrD [OF I(6) r orphan(2)] .
    have "0 \<le> ts m" "length b \<le> PAGE_SIZE" using I(8) [OF at] row_length [OF I(6) at] by (auto simp: row_ok_def)
    then show ?thesis
      using orphan live tok by (intro * [of "t\<lparr>undo_logs := undo_logs t @ [undo_of db r m b]\<rparr>"])
        (auto simp: txn_grows_def txn_live_def written_def write_set_wf_def txn_ok_def undo_of_def)
  next
    case (conflict t' m b)
    then show ?thesis
      using live tok by (intro * [of "t\<lparr>txn_state := TAINTED\<rparr>"])
        (auto simp: txn_grows_def txn_live_def written_def write_set_wf_def txn_ok_def)
  qed
qed

section \<open>Inserting a row\<close>

lemma heap_extends_other:
  assumes ext: "heap_extends h st h' st'" and "heap_wf h2 st" and dis: "set (page_directory h) \<inter> set (page_directory h2) = {}"
  shows "heap_wf h2 st'" "set (page_directory h') \<inter> set (page_directory h2) = {}"
proof -
  have al: "\<forall>p \<in> set (page_directory h2). allocated st p" using assms(2) by (simp add: heap_wf_def)
  have same: "page_of st' p = page_of st p" if "p \<in> set (page_directory h2)" for p
    using that ext al dis unfolding heap_extends_def by blast
  show "heap_wf h2 st'"
    using assms(2) al ext linked_cong [of "page_directory h2" st' st] same
    unfolding heap_wf_def heap_extends_def by auto
  from ext obtain new where "page_directory h' = page_directory h @ new" "\<forall>p \<in> set new. \<not> allocated st p"
    unfolding heap_extends_def by blast
  then show "set (page_directory h') \<inter> set (page_directory h2) = {}" using dis al by auto
qed

lemma heaps_ok_extend:
  assumes ok: "heaps_ok db" and h: "db_catalog db oid = Some h" and ext: "heap_extends h (db_store db) h' st'"
    and db': "db_store db' = st'" "db_catalog db' = (db_catalog db)(oid \<mapsto> h')"
  shows "heaps_ok db'"
    and "\<And>o1 h1. db_catalog db o1 = Some h1 \<Longrightarrow>
       \<exists>h2. db_catalog db' o1 = Some h2 \<and> set (page_directory h1) \<subseteq> set (page_directory h2)"
proof -
  have wf': "store_wf st'" "heap_wf h' st'" using ext by (auto simp: heap_extends_def)
  have other: "heap_wf h2 st'" "set (page_directory h') \<inter> set (page_directory h2) = {}"
    if "o2 \<noteq> oid" "db_catalog db o2 = Some h2" for o2 h2
  proof -
    have "heap_wf h2 (db_store db)" "set (page_directory h) \<inter> set (page_directory h2) = {}"
      using ok h that unfolding heaps_ok_def by metis+
    from heap_extends_other [OF ext this] show "heap_wf h2 st'" "set (page_directory h') \<inter> set (page_directory h2) = {}"
      by auto
  qed
  show "heaps_ok db'"
    unfolding heaps_ok_def db'
  proof (intro conjI allI impI)
    fix o1 h1 assume "((db_catalog db)(oid \<mapsto> h')) o1 = Some h1"
    then show "heap_wf h1 st'" using other(1) wf' by (cases "o1 = oid") auto
  next
    fix o1 o2 h1 h2
    assume ne: "o1 \<noteq> o2" and 1: "((db_catalog db)(oid \<mapsto> h')) o1 = Some h1" and 2: "((db_catalog db)(oid \<mapsto> h')) o2 = Some h2"
    have "db_catalog db o1 = Some h1 \<Longrightarrow> db_catalog db o2 = Some h2 \<Longrightarrow> set (page_directory h1) \<inter> set (page_directory h2) = {}"
      using ok ne unfolding heaps_ok_def by blast
    then show "set (page_directory h1) \<inter> set (page_directory h2) = {}"
      using ne 1 2 other(2) by (cases "o1 = oid"; cases "o2 = oid") (auto simp: Int_commute)
  qed (rule wf')
  show "\<exists>h2. db_catalog db' o1 = Some h2 \<and> set (page_directory h1) \<subseteq> set (page_directory h2)"
    if "db_catalog db o1 = Some h1" for o1 h1
    using that ext h unfolding db' heap_extends_def by (cases "o1 = oid") auto
qed

lemma insert_row_inv:
  assumes inv: "mvcc_inv pend db" and t: "find_txn db tid = Some t" "txn_live t"
    and h: "db_catalog db oid = Some h" and n: "n \<le> length row"
    and app: "append_row_bytes \<lparr>ts = txn_id t, is_deleted = False\<rparr> row n h (db_store db) = (Inr rid, h', st')"
    and db': "db' = put_txn tid (append_write_set oid rid t) (db\<lparr>db_store := st', db_catalog := (db_catalog db)(oid \<mapsto> h')\<rparr>)"
  shows "mvcc_inv pend db'"
    "rewrites_row tid (append_write_set oid rid t) rid \<lparr>ts = tid, is_deleted = False\<rparr> (take n row) None db db'"
    "txn_grows t (append_write_set oid rid t)" "row_at (db_store db) rid = None" "fst rid \<in> set (page_directory h')"
    "db_watermark db \<le> s \<Longrightarrow> s \<le> last_commit_ts db \<Longrightarrow> snap db' s x = snap db s x"
proof -
  note I = mvcc_invD [OF inv] and tok = mvcc_invD(7) [OF inv t(1)]
  let ?t' = "append_write_set oid rid t"
  have tid: "txn_id t = tid" "TXN_START_ID \<le> tid" "write_set_wf t" using tok by (auto simp: txn_ok_def)
  have hwf: "heap_wf h (db_store db)" using I(3) h by (auto simp: heaps_ok_def)
  have "\<not> MAX_ROW_SIZE < n"
    using append_row_bytes_refused [OF I(6) hwf, of n "\<lparr>ts = txn_id t, is_deleted = False\<rparr>" row] app by auto
  with append_row_bytes_fits [OF I(6) hwf n, of "\<lparr>ts = txn_id t, is_deleted = False\<rparr>"] app tid
  have a: "heap_extends h (db_store db) h' st'" "fst rid \<in> set (page_directory h')" "row_at (db_store db) rid = None"
    "row_at st' = (row_at (db_store db))(rid \<mapsto> (\<lparr>ts = tid, is_deleted = False\<rparr>, take n row))" by auto
  show "row_at (db_store db) rid = None" "fst rid \<in> set (page_directory h')" by (rule a)+
  have nl: "get_undo_link db rid = None" using links_okD [OF I(4), of rid] a(3) by (cases "get_undo_link db rid") auto
  have ws: "set (written ?t') = insert (oid, rid) (set (written t))" by (rule set_written_append [OF tid(3)])
  show gr: "txn_grows t ?t'" using ws by (auto simp: txn_grows_def txn_live_def)
  note ho = heaps_ok_extend [OF I(3) h a(1), of db']
  have c: "db_store db' = st'" "db_catalog db' = (db_catalog db)(oid \<mapsto> h')" by (simp_all add: db')
  show rw: "rewrites_row tid ?t' rid \<lparr>ts = tid, is_deleted = False\<rparr> (take n row) None db db'"
    unfolding rewrites_row_def
  proof (intro conjI allI impI)
    show "get_undo_link db' = (get_undo_link db)(rid := None)" using nl by (simp add: db' fun_upd_idem)
    show "heaps_ok db'" by (rule ho(1) [OF c])
    show "\<exists>h2. db_catalog db' o1 = Some h2 \<and> set (page_directory h1) \<subseteq> set (page_directory h2)"
      if "db_catalog db o1 = Some h1" for o1 h1 by (rule ho(2) [OF c that])
  qed (simp_all add: db' a(4))
  have row: "row_ok pend db' rid \<lparr>ts = tid, is_deleted = False\<rparr>"
    unfolding row_ok_def using rw find_txn_rewrites [OF rw] tid t ws
    by (auto simp: rewrites_row_def owns_ts_def writes_def TXN_START_ID_def txn_grows_live [OF gr] has_owner_def
        intro!: exI [of _ tid] chain.chain_none)
  have "txn_ok db' tid t" by (rule txn_ok_mono [OF tok _ _ ho(2) [OF c]]) (simp_all add: db' a(4))
  then have ok: "txn_ok db' tid ?t'"
    using ws append_write_set_wf [OF tid(3)] a(2,4) by (auto simp: txn_ok_def db')
  show "mvcc_inv pend db'" by (rule mvcc_inv_rewrite(1) [OF inv t(1) gr rw ok row]) simp
  show "snap db' s x = snap db s x" if s: "db_watermark db \<le> s" "s \<le> last_commit_ts db"
  proof (cases "x = rid")
    case True
    have "s < tid" using s(2) I(1) tid by (simp add: clock_ok_def)
    then show ?thesis using True rw a(3) by (simp add: snap_def rewrites_row_def walk_versions.simps [of _ _ None])
  next
    case False
    then show ?thesis by (rule snap_rewrite [OF inv t(1) gr rw _ s(1)])
  qed
qed

section \<open>Rows a live transaction owns\<close>

lemma own_link:
  assumes inv: "mvcc_inv pend db" and t: "find_txn db tid = Some t" "txn_live t"
    and r: "row_at (db_store db) r = Some (m, b)" "ts m = tid"
  obtains (fresh) "get_undo_link db r = None"
  | (versioned) l u where "get_undo_link db r = Some l" "link_valid l" "prev_txn l = tid"
      "prev_log_idx l < length (undo_logs t)" "u = undo_logs t ! prev_log_idx l" "0 \<le> ul_ts u"
      "ul_ts u \<le> last_commit_ts db" "chain (hist_of pend db) (ul_ts u) (Some (ul_prev_version u))"
proof -
  note I = mvcc_invD [OF inv] and wm = wm_bounds [OF inv]
  have tid: "TXN_START_ID \<le> tid" using I(7) [OF t(1)] by (simp add: txn_ok_def)
  have big: "last_commit_ts db < tid" using I(1) tid by (simp add: clock_ok_def)
  have "chain (hist_of pend db) tid (get_undo_link db r)" using I(8) [OF r(1)] r(2) by (simp add: row_ok_def)
  then show ?thesis
  proof cases
    case chain_none
    then show ?thesis using fresh by simp
  next
    case (chain_invalid l)
    then show ?thesis using links_okD [OF I(4), of r l] by simp
  next
    case (chain_gone l)
    then show ?thesis using wm(2) big by (simp add: hist_of_def)
  next
    case (chain_log l logs u)
    obtain t' where t': "find_txn db (prev_txn l) = Some t'" "owns_ts pend (prev_txn l) t' tid"
      using chain_log(6) by (auto simp: hist_of_def)
    have "\<not> (txn_state t' = COMMITTED \<and> tid = commit_ts t')"
      using I(7) [OF t'(1)] big by (auto simp: txn_ok_def)
    moreover have "pend \<noteq> Some (prev_txn l, tid)" using I(5) tid by (auto simp: pend_ok_def)
    ultimately have pt: "prev_txn l = tid" using t'(2) by (auto simp: owns_ts_def)
    then have "logs = undo_logs t" using chain_log(4) t(1) by (simp add: hist_of_def)
    then show ?thesis using versioned [of l u] chain_log pt by (simp add: hist_of_def)
  qed
qed

section \<open>Rolling one row back\<close>

lemma rollback_inv:
  assumes inv: "mvcc_inv pend db" and t: "find_txn db tid = Some t" "txn_live t"
    and r: "row_at (db_store db) r = Some (m, b)" "ts m = tid" and res: "mvcc_rollback tid r db = (Inr (), db')"
  shows "mvcc_inv pend db' \<and> (\<exists>m' b' l. rewrites_row tid t r m' b' l db db' \<and> ts m' \<le> last_commit_ts db \<and>
        (ts m' = committed_ts db r \<or> committed_ts db r = -1 \<and> ts m' = 0)) \<and>
     db_catalog db' = db_catalog db \<and>
     (\<forall>s x. db_watermark db \<le> s \<longrightarrow> s \<le> last_commit_ts db \<longrightarrow> snap db' s x = snap db s x)"
proof -
  note I = mvcc_invD [OF inv] and tok = mvcc_invD(7) [OF inv t(1)] and at = page_rows_at [OF mvcc_invD(6) [OF inv] r(1)]
  have tid: "txn_id t = tid" "TXN_START_ID \<le> tid" using tok by (auto simp: txn_ok_def)
  have triv: "AList.update tid t (txn_map db) = txn_map db" using t(1) by (simp add: find_txn_def update_triv)
  have main: ?thesis if rw: "rewrites_row tid t r m' b' l db db'" and cat: "db_catalog db' = db_catalog db"
    and m': "0 \<le> ts m'" "ts m' \<le> last_commit_ts db" "ts m' = committed_ts db r \<or> committed_ts db r = -1 \<and> ts m' = 0" and ch: "chain (hist_of pend db) (ts m') l"
    and lv: "\<And>x. l = Some x \<Longrightarrow> link_valid x"
    and sn: "\<And>s. db_watermark db \<le> s \<Longrightarrow> s \<le> last_commit_ts db \<Longrightarrow> snap db' s r = snap db s r" for m' b' l
  proof -
    have le: "hist_le {} (hist_of pend db) (hist_of pend db')"
      using hist_le_grow [OF t(1) txn_grows_refl find_txn_rewrites [OF rw], of pend] rw
      by (simp add: rewrites_row_def db_watermark_def)
    have row: "row_ok pend db' r m'" using chain_mono [OF ch le] m' rw by (simp add: row_ok_def rewrites_row_def)
    have ok: "txn_ok db' tid t" by (rule txn_ok_mono [OF tok]) (use rw cat in \<open>auto simp: rewrites_row_def\<close>)
    have "snap db' s x = snap db s x" if "db_watermark db \<le> s" "s \<le> last_commit_ts db" for s x
      using that snap_rewrite [OF inv t(1) txn_grows_refl rw, of x s] sn by (cases "x = r") auto
    moreover have "mvcc_inv pend db'" by (rule mvcc_inv_rewrite(1) [OF inv t(1) txn_grows_refl rw ok row lv])
    ultimately show ?thesis using rw cat m'(2,3) by blast
  qed
  have temp: "is_temp_ts (ts m)" using tid r(2) by (simp add: is_temp_ts_def)
  from inv t r show ?thesis
  proof (cases rule: own_link)
    case fresh
    have res': "tombstone_fresh r db = (Inr (), db')" using res t fresh by (simp add: mvcc_rollback_def)
    then obtain p where p: "update_tuple_meta (m\<lparr>ts := 0, is_deleted := True\<rparr>) (page_slot r) (db_page db r) = Inr p"
      "db' = put_db_page (fst r) p db" by (auto simp: tombstone_fresh_def at(6) split: sum.splits)
    have "page_wf p \<and> next_page_id p = next_page_id (db_page db r) \<and>
        page_rows p = (page_rows (db_page db r))[snd r := (m\<lparr>ts := 0, is_deleted := True\<rparr>, b)]"
      using update_tuple_meta_Inr [OF at(4) _ p(1)] at by simp
    note eff = put_row_effect [OF I(3) r(1) this]
    have rw: "rewrites_row tid t r (m\<lparr>ts := 0, is_deleted := True\<rparr>) b None db db'"
      using eff fresh triv p(2) by (auto simp: rewrites_row_def fun_upd_idem)
    show ?thesis
    proof (rule main [OF rw])
      show "snap db' s r = snap db s r" if "db_watermark db \<le> s" "s \<le> last_commit_ts db" for s
        using that rw r fresh wm_bounds(1) [OF inv] I(1) tid
        by (simp add: snap_def rewrites_row_def clock_ok_def walk_versions.simps [of _ _ None])
    qed (use p(2) I(1) r fresh temp in \<open>auto simp: clock_ok_def committed_ts_def intro: chain.chain_none\<close>)
  next
    case (versioned l u)
    let ?prev = "if link_valid (ul_prev_version u) then Some (ul_prev_version u) else None"
    let ?m' = "\<lparr>ts = ul_ts u, is_deleted = ul_is_deleted u\<rparr>"
    obtain p where p: "restore_base u (page_slot r) (db_page db r) = Inr p"
      "db' = snd (update_undo_link r ?prev None (put_db_page (fst r) p db))"
      using res t versioned tid by (auto simp: mvcc_rollback_def Let_def get_undo_log_def split: sum.splits)
    have "length (ul_row u) \<le> PAGE_SIZE" using tok versioned(4,5) by (auto simp: txn_ok_def)
    from restore_base_Inr [OF at(4) _ this p(1)] at
    have "page_wf p \<and> next_page_id p = next_page_id (db_page db r) \<and>
        page_rows p = (page_rows (db_page db r))[snd r := (?m', if ul_is_deleted u then b else ul_row u)]" by simp
    note eff = put_row_effect [OF I(3) r(1) this]
    have rw: "rewrites_row tid t r ?m' (if ul_is_deleted u then b else ul_row u) ?prev db db'"
      using eff triv p(2) by (auto simp: rewrites_row_def get_undo_link_update heaps_ok_def)
    have log: "get_undo_log_optional db l = Some u"
      using versioned t by (simp add: get_undo_log_optional_def get_undo_log_def)
    show ?thesis
    proof (rule main [OF rw])
      show "chain (hist_of pend db) (ts ?m') ?prev" using versioned(8) by (auto intro: chain.chain_none)
      show "snap db' s r = snap db s r" if s: "db_watermark db \<le> s" "s \<le> last_commit_ts db" for s
      proof -
        have le: "hist_le {} (hist_of pend db) (hist_of pend db')"
          using hist_le_grow [OF t(1) txn_grows_refl find_txn_rewrites [OF rw], of pend] rw
          by (simp add: rewrites_row_def db_watermark_def)
        have "walk_versions db s (Some l) = (if ul_ts u \<le> s then Some (if ul_is_deleted u then None else Some (ul_row u))
            else walk_versions db s (Some (ul_prev_version u)))"
          using versioned(2) log by (subst walk_versions.simps) simp
        then have "snap db s r = (if ul_ts u \<le> s then Some (if ul_is_deleted u then None else Some (ul_row u))
            else walk_versions db s (Some (ul_prev_version u)))"
          using r versioned(1) s(2) tid I(1) by (simp add: snap_def clock_ok_def)
        moreover have "walk_versions db' s ?prev = walk_versions db' s (Some (ul_prev_version u))"
          by (simp add: walk_versions.simps [of _ _ None]) (simp add: walk_versions.simps [of db' s "Some (ul_prev_version u)"])
        moreover have "\<not> ul_ts u \<le> s \<Longrightarrow> walk_versions db' s (Some (ul_prev_version u)) = walk_versions db s (Some (ul_prev_version u))"
          using walk_stable [OF versioned(8) le, of s] s rw by (auto simp: rewrites_row_def db_watermark_def)
        ultimately show ?thesis using rw by (simp add: snap_def rewrites_row_def)
      qed
      show "ts ?m' = committed_ts db r \<or> committed_ts db r = -1 \<and> ts ?m' = 0"
        using r versioned(1) log temp by (simp add: committed_ts_def)
    qed (use p(2) versioned(6,7) in \<open>auto split: if_splits\<close>)
  qed
qed

section \<open>Stamping one row\<close>

lemma stamp_inv:
  assumes inv: "mvcc_inv (Some (tid, c)) db" and t: "find_txn db tid = Some t" and r: "row_at (db_store db) r = Some (m, b)"
    "ts m = tid" and w: "r \<in> writes t"
  shows "\<exists>db'. mvcc_stamp_commit r c db = (Inr (), db') \<and> mvcc_inv (Some (tid, c)) db' \<and>
     rewrites_row tid t r (m\<lparr>ts := c\<rparr>) b (get_undo_link db r) db db' \<and> db_catalog db' = db_catalog db \<and>
     (\<forall>s x. db_watermark db \<le> s \<longrightarrow> s \<le> last_commit_ts db \<longrightarrow> snap db' s x = snap db s x)"
proof -
  let ?pend = "Some (tid, c)"
  note I = mvcc_invD [OF inv] and tok = mvcc_invD(7) [OF inv t(1)] and at = page_rows_at [OF mvcc_invD(6) [OF inv] r(1)]
  have tid: "txn_id t = tid" "TXN_START_ID \<le> tid" using tok by (auto simp: txn_ok_def)
  have c: "c = last_commit_ts db + 1" "c < TXN_START_ID" "txn_live t" using I(5) t by (auto simp: pend_ok_def)
  from update_tuple_meta_rows [OF at(4,1), of "m\<lparr>ts := c\<rparr>"] at obtain p where
    p: "update_tuple_meta (m\<lparr>ts := c\<rparr>) (snd r) (db_page db r) = Inr p" "page_wf p \<and> next_page_id p = next_page_id (db_page db r) \<and>
      page_rows p = (page_rows (db_page db r))[snd r := (m\<lparr>ts := c\<rparr>, b)]" by auto
  let ?db' = "put_db_page (fst r) p db"
  have res: "mvcc_stamp_commit r c db = (Inr (), ?db')" using p at by (simp add: mvcc_stamp_commit_def)
  note eff = put_row_effect [OF I(3) r(1) p(2)]
  have triv: "AList.update tid t (txn_map db) = txn_map db" using t(1) by (simp add: find_txn_def update_triv)
  have rw: "rewrites_row tid t r (m\<lparr>ts := c\<rparr>) b (get_undo_link db r) db ?db'"
    using eff triv by (auto simp: rewrites_row_def fun_upd_idem)
  have le: "hist_le {} (hist_of ?pend db) (hist_of ?pend ?db')"
    using hist_le_grow [OF t(1) txn_grows_refl find_txn_rewrites [OF rw], of ?pend] rw
    by (simp add: rewrites_row_def db_watermark_def)
  have "chain (hist_of ?pend db) c (get_undo_link db r)"
    using inv t c(3) r
  proof (cases rule: own_link)
    case (versioned l u)
    have "h_own (hist_of ?pend db) tid c" "h_logs (hist_of ?pend db) tid = Some (undo_logs t)"
      "h_next (hist_of ?pend db) = next_txn_id db" "h_last (hist_of ?pend db) = last_commit_ts db" "tid < next_txn_id db"
      using t c(3) tok by (simp_all add: hist_of_def owns_ts_def txn_ok_def)
    with chain.chain_log [OF versioned(2) _ _ versioned(4) _ versioned(5,6) _ _ versioned(8)] versioned(3,7) c(1)
    show ?thesis by (simp add: versioned(1))
  qed (auto intro: chain.chain_none)
  from chain_mono [OF this le] c I(1) t w rw have row: "row_ok ?pend ?db' r (m\<lparr>ts := c\<rparr>)"
    by (auto simp: row_ok_def has_owner_def owns_ts_def clock_ok_def rewrites_row_def intro!: exI [of _ tid])
  have ok: "txn_ok ?db' tid t" by (rule txn_ok_mono [OF tok]) (use rw in \<open>auto simp: rewrites_row_def\<close>)
  have lv: "\<And>x. get_undo_link db r = Some x \<Longrightarrow> link_valid x" using links_okD [OF I(4)] by blast
  have sn: "snap ?db' s x = snap db s x" if s: "db_watermark db \<le> s" "s \<le> last_commit_ts db" for s x
  proof (cases "x = r")
    case True
    have ch: "chain (hist_of ?pend db) tid (get_undo_link db r)" using I(8) [OF r(1)] r(2) by (simp add: row_ok_def)
    have lt: "s < tid" using s I(1) tid by (simp add: clock_ok_def)
    have "walk_versions ?db' s (get_undo_link db r) = walk_versions db s (get_undo_link db r)"
      using walk_stable [OF ch le _ lt] s by (auto simp: db_watermark_def)
    then show ?thesis using s c r rw True lt by (simp add: snap_def rewrites_row_def)
  next
    case False
    then show ?thesis by (rule snap_rewrite [OF inv t(1) txn_grows_refl rw _ s(1)])
  qed
  have inv': "mvcc_inv ?pend ?db'" by (rule mvcc_inv_rewrite(1) [OF inv t(1) txn_grows_refl rw ok row lv])
  show ?thesis
    by (rule exI [of _ ?db']) (use res inv' rw sn in auto)
qed


section \<open>The loops over a write set\<close>

lemma written_rids_distinct:
  assumes "mvcc_inv pend db" and "find_txn db tid = Some t"
  shows "distinct (map snd (written t))"
proof -
  note I = mvcc_invD [OF assms(1)] and tok = mvcc_invD(7) [OF assms]
  have "o1 = o2" if "(o1, r) \<in> set (written t)" "(o2, r) \<in> set (written t)" for o1 o2 r
  proof -
    have in_dir: "\<exists>h. db_catalog db oid = Some h \<and> fst r \<in> set (page_directory h)" if "(oid, r) \<in> set (written t)" for oid
      using tok that by (auto simp: txn_ok_def)
    from in_dir [OF that(1)] in_dir [OF that(2)] I(3) show ?thesis unfolding heaps_ok_def by blast
  qed
  then have "inj_on snd (set (written t))" by (auto simp: inj_on_def)
  moreover have "distinct (written t)" using tok distinct_written by (auto simp: txn_ok_def)
  ultimately show ?thesis by (simp add: distinct_map)
qed

definition frame_eq :: "db \<Rightarrow> db \<Rightarrow> bool" where
  "frame_eq db db' \<longleftrightarrow> txn_map db' = txn_map db \<and> next_txn_id db' = next_txn_id db \<and>
     last_commit_ts db' = last_commit_ts db \<and> running_txns db' = running_txns db \<and> db_catalog db' = db_catalog db"

lemma frame_eq_sel: "frame_eq db db' \<Longrightarrow> find_txn db' = find_txn db \<and> db_watermark db' = db_watermark db"
  by (simp add: frame_eq_def find_txn_def db_watermark_def fun_eq_iff)

lemma frame_eq_trans: "frame_eq a b \<Longrightarrow> frame_eq b c \<Longrightarrow> frame_eq a c"
  by (simp add: frame_eq_def)

lemma frame_eq_rewrites:
  "rewrites_row tid t r m b l db db' \<Longrightarrow> find_txn db tid = Some t \<Longrightarrow> db_catalog db' = db_catalog db \<Longrightarrow> frame_eq db db'"
  by (simp add: rewrites_row_def frame_eq_def find_txn_def update_triv)

definition snaps_eq :: "db \<Rightarrow> db \<Rightarrow> bool" where
  "snaps_eq db db' \<longleftrightarrow> (\<forall>s x. db_watermark db \<le> s \<longrightarrow> s \<le> last_commit_ts db \<longrightarrow> snap db' s x = snap db s x)"

lemma snaps_eqD: "snaps_eq db db' \<Longrightarrow> db_watermark db \<le> s \<Longrightarrow> s \<le> last_commit_ts db \<Longrightarrow> snap db' s x = snap db s x"
  by (simp add: snaps_eq_def)

lemma snaps_eq_trans: "frame_eq a b \<Longrightarrow> snaps_eq a b \<Longrightarrow> snaps_eq b c \<Longrightarrow> snaps_eq a c"
  using frame_eq_sel [of a b] by (simp add: snaps_eq_def frame_eq_def)

lemma stamp_all_inv:
  assumes "mvcc_inv (Some (tid, c)) db" and t: "find_txn db tid = Some t" and "distinct (map snd ws)"
    and "\<And>oid r. (oid, r) \<in> set ws \<Longrightarrow> db_catalog db oid \<noteq> None \<and> r \<in> writes t"
    and "\<And>oid r. (oid, r) \<in> set ws \<Longrightarrow> \<exists>m b. row_at (db_store db) r = Some (m, b) \<and> ts m = tid"
  shows "\<exists>db'. stamp_all ws c db = (Inr (), db') \<and> mvcc_inv (Some (tid, c)) db' \<and> frame_eq db db' \<and> snaps_eq db db' \<and>
     get_undo_link db' = get_undo_link db \<and>
     row_at (db_store db') = (\<lambda>r. if r \<in> snd ` set ws then map_option (\<lambda>(m, b). (m\<lparr>ts := c\<rparr>, b)) (row_at (db_store db) r)
                                  else row_at (db_store db) r)"
  using assms
proof (induction ws arbitrary: db)
  case Nil
  then show ?case by (simp add: frame_eq_def snaps_eq_def)
next
  case (Cons w ws)
  obtain oid r where w: "w = (oid, r)" by (cases w)
  obtain m b where r: "row_at (db_store db) r = Some (m, b)" "ts m = tid" using Cons.prems(5) [of oid r] w by auto
  have "r \<in> writes t" and cat: "db_catalog db oid \<noteq> None" using Cons.prems(4) [of oid r] w by auto
  from stamp_inv [OF Cons.prems(1,2) r this(1)] obtain db1 where
    d: "mvcc_stamp_commit r c db = (Inr (), db1)" "mvcc_inv (Some (tid, c)) db1"
    "rewrites_row tid t r (m\<lparr>ts := c\<rparr>) b (get_undo_link db r) db db1" "db_catalog db1 = db_catalog db" "snaps_eq db db1"
    unfolding snaps_eq_def by blast
  have fr: "frame_eq db db1" by (rule frame_eq_rewrites [OF d(3) Cons.prems(2) d(4)])
  have rows: "row_at (db_store db1) = (row_at (db_store db))(r \<mapsto> (m\<lparr>ts := c\<rparr>, b))"
    "get_undo_link db1 = get_undo_link db" using d(3) by (auto simp: rewrites_row_def fun_upd_idem)
  have nr: "r \<notin> snd ` set ws" using Cons.prems(3) w by auto
  have "\<exists>db'. stamp_all ws c db1 = (Inr (), db') \<and> mvcc_inv (Some (tid, c)) db' \<and> frame_eq db1 db' \<and> snaps_eq db1 db' \<and>
     get_undo_link db' = get_undo_link db1 \<and>
     row_at (db_store db') = (\<lambda>r. if r \<in> snd ` set ws then map_option (\<lambda>(m, b). (m\<lparr>ts := c\<rparr>, b)) (row_at (db_store db1) r)
                                  else row_at (db_store db1) r)"
  proof (rule Cons.IH)
    show "find_txn db1 tid = Some t" using frame_eq_sel [OF fr] Cons.prems(2) by simp
    show "distinct (map snd ws)" using Cons.prems(3) by simp
    fix oid' r' assume in_ws: "(oid', r') \<in> set ws"
    then show "db_catalog db1 oid' \<noteq> None \<and> r' \<in> writes t" using Cons.prems(4) d(4) by (metis list.set_intros(2))
    have "r' \<noteq> r" using in_ws nr by force
    then show "\<exists>m b. row_at (db_store db1) r' = Some (m, b) \<and> ts m = tid" using in_ws Cons.prems(5) [of oid' r'] rows by auto
  qed (rule d(2))
  then obtain db' where d': "stamp_all ws c db1 = (Inr (), db')" "mvcc_inv (Some (tid, c)) db'" "frame_eq db1 db'"
    "snaps_eq db1 db'" "get_undo_link db' = get_undo_link db1"
    "row_at (db_store db') = (\<lambda>r. if r \<in> snd ` set ws then map_option (\<lambda>(m, b). (m\<lparr>ts := c\<rparr>, b)) (row_at (db_store db1) r)
                                  else row_at (db_store db1) r)" by blast
  have "stamp_all (w # ws) c db = (Inr (), db')" using w d(1) d'(1) cat by (auto split: option.split)
  moreover have "row_at (db_store db') = (\<lambda>x. if x \<in> snd ` set (w # ws)
      then map_option (\<lambda>(m, b). (m\<lparr>ts := c\<rparr>, b)) (row_at (db_store db) x) else row_at (db_store db) x)"
    unfolding d'(6) rows using nr r w by (auto simp: fun_eq_iff)
  ultimately show ?case
    using d' rows frame_eq_trans [OF fr d'(3)] snaps_eq_trans [OF fr d(5) d'(4)] by (intro exI [of _ db']) simp
qed

lemma rollback_all_inv:
  assumes "mvcc_inv pend db" and t: "find_txn db tid = Some t" "txn_live t" and "distinct (map snd ws)"
    and "\<And>oid r. (oid, r) \<in> set ws \<Longrightarrow> db_catalog db oid \<noteq> None"
    and "\<And>oid r. (oid, r) \<in> set ws \<Longrightarrow> \<exists>m b. row_at (db_store db) r = Some (m, b) \<and> ts m = tid"
    and "rollback_all tid ws db = (Inr (), db')"
  shows "mvcc_inv pend db' \<and> frame_eq db db' \<and> snaps_eq db db' \<and>
     (\<forall>r. r \<notin> snd ` set ws \<longrightarrow> row_at (db_store db') r = row_at (db_store db) r \<and> get_undo_link db' r = get_undo_link db r) \<and>
     (\<forall>r \<in> snd ` set ws. \<exists>m b. row_at (db_store db') r = Some (m, b) \<and> ts m \<le> last_commit_ts db \<and>
        (ts m = committed_ts db r \<or> committed_ts db r = -1 \<and> ts m = 0))"
  using assms
proof (induction ws arbitrary: db)
  case Nil
  then show ?case by (simp add: frame_eq_def snaps_eq_def)
next
  case (Cons w ws)
  obtain oid r where w: "w = (oid, r)" by (cases w)
  obtain m b where r: "row_at (db_store db) r = Some (m, b)" "ts m = tid" using Cons.prems(6) [of oid r] w by auto
  obtain h where cat: "db_catalog db oid = Some h" using Cons.prems(5) [of oid r] w by auto
  obtain db1 where res: "mvcc_rollback tid r db = (Inr (), db1)" "rollback_all tid ws db1 = (Inr (), db')"
    using Cons.prems(7) w cat by (auto split: prod.splits sum.splits)
  from rollback_inv [OF Cons.prems(1-3) r res(1)] obtain m' b' l where
    d: "mvcc_inv pend db1" "rewrites_row tid t r m' b' l db db1"
    "ts m' \<le> last_commit_ts db \<and> (ts m' = committed_ts db r \<or> committed_ts db r = -1 \<and> ts m' = 0)"
    "db_catalog db1 = db_catalog db" "snaps_eq db db1" unfolding snaps_eq_def by blast
  have fr: "frame_eq db db1" by (rule frame_eq_rewrites [OF d(2) Cons.prems(2) d(4)])
  have rows: "row_at (db_store db1) = (row_at (db_store db))(r \<mapsto> (m', b'))"
    "get_undo_link db1 = (get_undo_link db)(r := l)" using d(2) by (auto simp: rewrites_row_def)
  have nr: "r \<notin> snd ` set ws" using Cons.prems(4) w by auto
  have ih: "mvcc_inv pend db' \<and> frame_eq db1 db' \<and> snaps_eq db1 db' \<and>
     (\<forall>r. r \<notin> snd ` set ws \<longrightarrow> row_at (db_store db') r = row_at (db_store db1) r \<and> get_undo_link db' r = get_undo_link db1 r) \<and>
     (\<forall>r \<in> snd ` set ws. \<exists>m b. row_at (db_store db') r = Some (m, b) \<and> ts m \<le> last_commit_ts db1 \<and>
        (ts m = committed_ts db1 r \<or> committed_ts db1 r = -1 \<and> ts m = 0))"
  proof (rule Cons.IH)
    show "find_txn db1 tid = Some t" using frame_eq_sel [OF fr] Cons.prems(2) by simp
    show "distinct (map snd ws)" using Cons.prems(4) by simp
    fix oid' r' assume in_ws: "(oid', r') \<in> set ws"
    then show "db_catalog db1 oid' \<noteq> None" using Cons.prems(5) d(4) by (metis list.set_intros(2))
    have "r' \<noteq> r" using in_ws nr by force
    then show "\<exists>m b. row_at (db_store db1) r' = Some (m, b) \<and> ts m = tid" using in_ws Cons.prems(6) [of oid' r'] rows by auto
  qed (use d(1) res(2) Cons.prems(3) in simp_all)
  have last: "last_commit_ts db1 = last_commit_ts db" using fr by (simp add: frame_eq_def)
  have "row_at (db_store db') r = Some (m', b')" using ih nr rows by simp
  moreover have "committed_ts db1 x = committed_ts db x" if "x \<in> snd ` set ws" for x
  proof -
    have "x \<noteq> r" using that nr by auto
    then have "row_at (db_store db1) x = row_at (db_store db) x" "get_undo_link db1 x = get_undo_link db x"
      using rows by simp_all
    moreover have "get_undo_log_optional db1 = get_undo_log_optional db"
      using frame_eq_sel [OF fr] by (simp add: get_undo_log_optional_def fun_eq_iff)
    ultimately show ?thesis by (simp only: committed_ts_def)
  qed
  moreover have "row_at (db_store db') x = row_at (db_store db) x \<and> get_undo_link db' x = get_undo_link db x"
    if "x \<notin> snd ` set (w # ws)" for x using that ih rows w by auto
  ultimately show ?case
    using ih d(3) last w frame_eq_trans [OF fr] snaps_eq_trans [OF fr d(5)] by auto
qed

section \<open>Ending a transaction\<close>

lemma wm_mono:
  assumes "watermark_inv w" "watermark_inv w'" and sub: "live_reads w' \<subseteq># live_reads w"
    and ct: "wm_commit_ts w \<le> wm_commit_ts w'" and "\<And>x. x \<in># live_reads w \<Longrightarrow> x \<le> wm_commit_ts w"
  shows "get_watermark w \<le> get_watermark w'"
proof (cases "live_reads w' = {#}")
  case True
  show ?thesis
  proof (cases "live_reads w = {#}")
    case False
    then have "Min_mset (live_reads w) \<in># live_reads w" by (intro Min_in) auto
    with assms(5) ct show ?thesis using True False assms(1,2) by (fastforce simp: get_watermark_Min)
  qed (use True ct assms(1,2) in \<open>simp add: get_watermark_Min\<close>)
next
  case False
  then have "live_reads w \<noteq> {#}" using sub by auto
  moreover have "Min_mset (live_reads w) \<le> Min_mset (live_reads w')"
    using False sub by (intro Min_antimono) (auto dest: set_mset_mono)
  ultimately show ?thesis using False assms(1,2) by (simp add: get_watermark_Min)
qed

lemma live_reads_bound:
  assumes "mvcc_inv pend db" and "x \<in># live_reads (running_txns db)"
  shows "x \<le> last_commit_ts db"
proof -
  note I = mvcc_invD [OF assms(1)]
  have "\<exists>i t. find_txn db i = Some t \<and> x = read_ts t"
    using assms(2) I(1,2) by (force simp: wm_ok_def clock_ok_def live_mset_def find_txn_def)
  then show ?thesis using I(7) by (auto simp: txn_ok_def)
qed

lemma txn_ok_end:
  assumes "txn_ok db i t" and "st' = COMMITTED \<Longrightarrow> read_ts t < ct \<and> ct \<le> last_commit_ts db"
  shows "txn_ok db i (t\<lparr>commit_ts := ct, txn_state := st'\<rparr>)"
proof -
  have "written (t\<lparr>commit_ts := ct, txn_state := st'\<rparr>) = written t" by (simp add: written_def)
  then show ?thesis using assms by (simp add: txn_ok_def write_set_wf_def)
qed

text \<open>
  The common core of publishing a commit and finishing an abort: the transaction \<open>tid\<close> stops being
  live, no row carries its temporary stamp any more, and its read timestamp leaves the watermark.
\<close>

lemma mvcc_inv_finish:
  assumes inv: "mvcc_inv pend db" and t: "find_txn db tid = Some t" "txn_live t"
    and none: "\<And>r m b. row_at (db_store db) r = Some (m, b) \<Longrightarrow> ts m \<noteq> tid"
    and t': "t' = t\<lparr>commit_ts := ct, txn_state := st'\<rparr>" "st' = ABORTED \<or> st' = COMMITTED \<and> ct = L \<and> read_ts t < ct"
    and L: "last_commit_ts db \<le> L" "L < TXN_START_ID"
    and own: "\<And>a. owns_ts pend tid t a \<Longrightarrow> a \<noteq> tid \<Longrightarrow> owns_ts pend' tid t' a \<and> a \<le> L"
    and other: "\<And>i u a. i \<noteq> tid \<Longrightarrow> owns_ts pend' i u a = owns_ts pend i u a"
    and pend': "pend_ok pend' db'"
    and w: "remove_txn (read_ts t) (update_commit_ts L (running_txns db)) = Inr w"
    and db': "db' = (put_txn tid t' db)\<lparr>last_commit_ts := L, running_txns := w\<rparr>"
  shows "mvcc_inv pend' db'" and "hist_le {tid} (hist_of pend db) (hist_of pend' db')"
proof -
  note I = mvcc_invD [OF inv] and tok = mvcc_invD(7) [OF inv t(1)]
  have tid: "TXN_START_ID \<le> tid" using tok by (simp add: txn_ok_def)
  have f: "find_txn db' = (find_txn db)(tid \<mapsto> t')" by (simp add: db' find_txn_def put_txn_def update_conv' fun_eq_iff)
  have eq: "row_at (db_store db') = row_at (db_store db)" "get_undo_link db' = get_undo_link db"
    "next_txn_id db' = next_txn_id db" "last_commit_ts db' = L" "running_txns db' = w" "db_catalog db' = db_catalog db"
    "db_store db' = db_store db" "txn_map db' = AList.update tid t' (txn_map db)"
    by (simp_all add: db' get_undo_link_def put_txn_def fun_eq_iff)
  have dead: "\<not> txn_live t'" using t' by (auto simp: txn_live_def)
  have wi: "watermark_inv (update_commit_ts L (running_txns db))" using I(2) by (simp add: wm_ok_def)
  have w': "watermark_inv w" "live_reads (running_txns db) = add_mset (read_ts t) (live_reads w)" "wm_commit_ts w = L"
    using remove_txn_inv [OF wi w] remove_txn_live [OF wi w] remove_txn_commit_ts [OF w] by simp_all
  have dist: "distinct (map fst (txn_map db))" using I(1) by (simp add: clock_ok_def)
  have "live_mset (txn_map db) = add_mset (read_ts t) (live_mset (txn_map db'))"
    using live_mset_update(2) [OF dist, of tid t t'] t dead t' eq(8) by (simp add: find_txn_def)
  then have lm: "live_reads w = live_mset (txn_map db')" using I(2) w'(2) by (simp add: wm_ok_def)
  have wm: "db_watermark db \<le> db_watermark db'"
  proof -
    have "live_reads w \<subseteq># live_reads (running_txns db)" using w'(2) by simp
    moreover have "watermark_inv (running_txns db)" "wm_commit_ts (running_txns db) = last_commit_ts db"
      using I(2) by (simp_all add: wm_ok_def)
    ultimately show ?thesis
      unfolding db_watermark_def eq using w' L(1) live_reads_bound [OF inv] by (intro wm_mono) simp_all
  qed
  show le: "hist_le {tid} (hist_of pend db) (hist_of pend' db')"
    unfolding hist_le_def using wm L(1) tid I(1) f t t'(1) own other eq
    by (auto simp: hist_of_def clock_ok_def split: option.split)
  have "clock_ok db'" using I(1) eq L distinct_update [OF dist] by (simp add: clock_ok_def)
  moreover have "wm_ok db'" using w' lm eq by (simp add: wm_ok_def)
  moreover have "txn_ok db' i u" if "find_txn db' i = Some u" for i u
  proof -
    have "txn_ok db' i v" if "find_txn db i = Some v" for i v
      by (rule txn_ok_mono [OF I(7) [OF that]]) (use eq L(1) in auto)
    then show ?thesis using \<open>find_txn db' i = Some u\<close> f t(1) t' eq(4) txn_ok_end [of db' tid t st' ct]
      by (cases "i = tid") auto
  qed
  moreover have "row_ok pend' db' x m'" if x: "row_at (db_store db') x = Some (m', b')" for x m' b'
  proof -
    have at: "row_at (db_store db) x = Some (m', b')" using x eq by simp
    note rx = I(8) [OF at, unfolded row_ok_def] and ne = none [OF at]
    have "ts m' \<le> L \<or> has_owner pend' db' x (ts m')"
    proof (cases "ts m' \<le> last_commit_ts db")
      case False
      then obtain i u where u: "find_txn db i = Some u" "txn_live u" "x \<in> writes u" "owns_ts pend i u (ts m')"
        using rx by (auto simp: has_owner_def)
      show ?thesis
      proof (cases "i = tid")
        case True
        then show ?thesis using u t own ne by simp
      next
        case False
        then show ?thesis using u f other by (auto simp: has_owner_def)
      qed
    qed (use L in simp)
    then show ?thesis using rx chain_mono [OF _ le, of "ts m'"] ne eq by (auto simp: row_ok_def)
  qed
  moreover have "links_ok db'" using I(4) eq by (simp add: links_ok_def)
  moreover have "heaps_ok db'" using I(3) eq by (simp add: heaps_ok_def)
  ultimately show "mvcc_inv pend' db'" using pend' unfolding mvcc_inv_def by blast
qed

lemma read_ts_registered:
  assumes "mvcc_inv pend db" "find_txn db tid = Some t" "txn_live t"
  shows "\<exists>w. remove_txn (read_ts t) (update_commit_ts L (running_txns db)) = Inr w"
proof -
  have "(tid, t) \<in> set (txn_map db)" using assms(2) by (auto simp: find_txn_def dest: map_of_SomeD)
  then have "read_ts t \<in># live_reads (update_commit_ts L (running_txns db))"
    using mvcc_invD(2) [OF assms(1)] assms(3) by (force simp: wm_ok_def live_mset_def)
  then show ?thesis using mvcc_invD(2) [OF assms(1)] by (intro remove_txn_total) (auto simp: wm_ok_def)
qed

lemma publish_inv:
  assumes inv: "mvcc_inv (Some (tid, c)) db" and t: "find_txn db tid = Some t"
    and none: "\<And>r m b. row_at (db_store db) r = Some (m, b) \<Longrightarrow> ts m \<noteq> tid"
  shows "\<exists>w db'. publish_commit tid c db = (Inr True, db') \<and> mvcc_inv None db' \<and>
     hist_le {tid} (hist_of (Some (tid, c)) db) (hist_of None db') \<and>
     db' = (put_txn tid (t\<lparr>commit_ts := c, txn_state := COMMITTED\<rparr>) db)\<lparr>last_commit_ts := c, running_txns := w\<rparr>"
proof -
  have c: "c = last_commit_ts db + 1" "c < TXN_START_ID" "txn_live t"
    using mvcc_invD(5) [OF inv] t by (auto simp: pend_ok_def)
  have rt: "read_ts t < c" using mvcc_invD(7) [OF inv t] c by (simp add: txn_ok_def)
  obtain w where w: "remove_txn (read_ts t) (update_commit_ts c (running_txns db)) = Inr w"
    using read_ts_registered [OF inv t c(3)] by blast
  let ?t' = "t\<lparr>commit_ts := c, txn_state := COMMITTED\<rparr>"
  let ?db' = "(put_txn tid ?t' db)\<lparr>last_commit_ts := c, running_txns := w\<rparr>"
  have "publish_commit tid c db = (Inr True, ?db')" using t w by (simp add: publish_commit_def Let_def)
  moreover have own: "owns_ts None tid ?t' a \<and> a \<le> c" if "owns_ts (Some (tid, c)) tid t a" "a \<noteq> tid" for a
    using that c(3) by (auto simp: owns_ts_def)
  note fin = mvcc_inv_finish [where t' = ?t' and ct = c and st' = COMMITTED and L = c and pend' = None and db' = ?db' and w = w,
      OF inv t c(3) none]
  have "mvcc_inv None ?db'" "hist_le {tid} (hist_of (Some (tid, c)) db) (hist_of None ?db')"
    by (rule fin; use c rt own w in \<open>auto simp: owns_ts_def pend_ok_def\<close>)+
  ultimately show ?thesis by blast
qed

lemma finish_abort_inv:
  assumes inv: "mvcc_inv pend db" and t: "find_txn db tid = Some t" "txn_live t" and p: "\<And>c. pend \<noteq> Some (tid, c)"
    and none: "\<And>r m b. row_at (db_store db) r = Some (m, b) \<Longrightarrow> ts m \<noteq> tid"
  shows "\<exists>w db'. finish_abort tid db = (Inr (), db') \<and> mvcc_inv pend db' \<and>
     hist_le {tid} (hist_of pend db) (hist_of pend db') \<and>
     db' = (put_txn tid (t\<lparr>txn_state := ABORTED\<rparr>) db)\<lparr>running_txns := w\<rparr>"
proof -
  let ?L = "last_commit_ts db"
  have L: "?L < TXN_START_ID" "wm_commit_ts (running_txns db) = ?L"
    using mvcc_invD(1,2) [OF inv] by (auto simp: clock_ok_def wm_ok_def)
  have upd: "update_commit_ts ?L (running_txns db) = running_txns db"
    using L(2) by (simp add: update_commit_ts_def)
  obtain w where w: "remove_txn (read_ts t) (update_commit_ts ?L (running_txns db)) = Inr w"
    using read_ts_registered [OF inv t] by blast
  let ?t' = "t\<lparr>commit_ts := commit_ts t, txn_state := ABORTED\<rparr>"
  let ?db' = "(put_txn tid ?t' db)\<lparr>last_commit_ts := ?L, running_txns := w\<rparr>"
  have db': "(put_txn tid (t\<lparr>txn_state := ABORTED\<rparr>) db)\<lparr>running_txns := w\<rparr> = ?db'" by (simp add: put_txn_def)
  have res: "finish_abort tid db = (Inr (), ?db')" using t w upd by (simp add: finish_abort_def Let_def flip: db')
  have "find_txn ?db' = (find_txn db)(tid \<mapsto> ?t')" by (simp add: find_txn_def put_txn_def update_conv' fun_eq_iff)
  then have po: "pend_ok pend ?db'" using mvcc_invD(5) [OF inv] p by (auto simp: pend_ok_def)
  note fin = mvcc_inv_finish [where t' = ?t' and ct = "commit_ts t" and st' = ABORTED and L = ?L and pend' = pend and
      db' = ?db' and w = w, OF inv t none _ _ _ L(1) _ _ po w]
  have "mvcc_inv pend ?db'" "hist_le {tid} (hist_of pend db) (hist_of pend ?db')"
    by (rule fin; use p t(2) in \<open>auto simp: owns_ts_def\<close>)+
  with res db' show ?thesis by (intro exI [of _ w] exI [of _ ?db']) simp
qed

section \<open>Begin and sweep\<close>

lemma begin_inv:
  fixes level :: isolation_level and now :: int
  assumes inv: "mvcc_inv pend db"
  defines "tid \<equiv> next_txn_id db"
  defines "t \<equiv> (txn_new tid level now)\<lparr>read_ts := last_commit_ts db\<rparr>"
  shows "\<exists>w db'. begin_shared level now db = (Inr tid, db') \<and> mvcc_inv pend db' \<and>
     hist_le {} (hist_of pend db) (hist_of pend db') \<and> db_watermark db' = db_watermark db \<and> find_txn db tid = None \<and>
     db' = db\<lparr>next_txn_id := tid + 1, txn_map := txn_map db @ [(tid, t)], running_txns := w\<rparr>"
proof -
  note I = mvcc_invD [OF inv]
  have fresh: "find_txn db tid = None"
    using I(7) [of tid] by (cases "find_txn db tid") (auto simp: txn_ok_def tid_def)
  then have notin: "tid \<notin> fst ` set (txn_map db)" by (simp add: find_txn_def map_of_eq_None_iff)
  have wo: "watermark_inv (running_txns db)" "wm_commit_ts (running_txns db) = last_commit_ts db"
    "live_reads (running_txns db) = live_mset (txn_map db)" using I(2) by (simp_all add: wm_ok_def)
  obtain w where w: "add_txn (last_commit_ts db) (running_txns db) = Inr w"
    using add_txn_total [of "running_txns db" "last_commit_ts db"] wo(2) by auto
  let ?db' = "db\<lparr>next_txn_id := tid + 1, txn_map := txn_map db @ [(tid, t)], running_txns := w\<rparr>"
  have res: "begin_shared level now db = (Inr tid, ?db')"
    using w notin by (simp add: begin_shared_def Let_def tid_def t_def)
  have f: "find_txn ?db' = (find_txn db)(tid \<mapsto> t)"
    using fresh by (auto simp: find_txn_def fun_eq_iff map_add_def split: option.split)
  have t: "txn_live t" "read_ts t = last_commit_ts db" "undo_logs t = []" "written t = []" "txn_id t = tid" "write_set_wf t"
    "txn_state t = RUNNING"
    by (simp_all add: t_def txn_new_def txn_live_def written_def write_set_wf_def)
  have w': "watermark_inv w" "live_reads w = add_mset (last_commit_ts db) (live_mset (txn_map db))"
    "wm_commit_ts w = last_commit_ts db"
    using add_txn_inv [OF wo(1) w] add_txn_live [OF wo(1) w] add_txn_commit_ts [OF w] wo by simp_all
  have wm: "db_watermark ?db' = db_watermark db"
  proof -
    have "x \<le> last_commit_ts db" if "x \<in># live_mset (txn_map db)" for x using live_reads_bound [OF inv] that wo(3) by simp
    then have "Min (insert (last_commit_ts db) (set_mset (live_mset (txn_map db)))) = Min_mset (live_mset (txn_map db))"
      if "live_mset (txn_map db) \<noteq> {#}" using that by (subst Min_insert) (auto intro!: min_absorb2 Min_le_iff [THEN iffD2])
    then show ?thesis using w' wo by (auto simp: db_watermark_def get_watermark_Min)
  qed
  have le: "hist_le {} (hist_of pend db) (hist_of pend ?db')"
    unfolding hist_le_def using wm f by (auto simp: hist_of_def tid_def split: option.split)
  have "clock_ok ?db'" using I(1) notin by (auto simp: clock_ok_def tid_def)
  moreover have "wm_ok ?db'" using w' t by (simp add: wm_ok_def live_mset_append)
  moreover have "txn_ok ?db' i u" if "find_txn ?db' i = Some u" for i u
  proof (cases "i = tid")
    case True
    then show ?thesis using that f t I(1) by (auto simp: txn_ok_def clock_ok_def tid_def)
  next
    case False
    then have "txn_ok db i u" using that f I(7) by simp
    then show ?thesis by (rule txn_ok_mono) (auto simp: tid_def)
  qed
  moreover have "row_ok pend ?db' x m'" if x: "row_at (db_store ?db') x = Some (m', b')" for x m' b'
  proof -
    have "has_owner pend db x a \<Longrightarrow> has_owner pend ?db' x a" for a
      unfolding has_owner_def f using fresh by (metis fun_upd_apply option.distinct(1))
    then show ?thesis using I(8) [of x m' b'] x chain_mono [OF _ le] by (auto simp: row_ok_def get_undo_link_def)
  qed
  moreover have "links_ok ?db'" using I(4) by (simp add: links_ok_def get_undo_link_def)
  moreover have "heaps_ok ?db'" using I(3) by (simp add: heaps_ok_def)
  moreover have "pend_ok pend ?db'" using I(5) f fresh by (auto simp: pend_ok_def)
  ultimately have "mvcc_inv pend ?db'" unfolding mvcc_inv_def by blast
  with res le wm fresh show ?thesis by blast
qed

lemma map_of_filter_snd:
  "distinct (map fst xs) \<Longrightarrow>
     map_of (filter (\<lambda>(i, t). P t) xs) k = (case map_of xs k of None \<Rightarrow> None | Some t \<Rightarrow> if P t then Some t else None)"
proof (induction xs)
  case (Cons x xs)
  have "map_of (filter (\<lambda>(i, t). P t) xs) (fst x) = None"
    using Cons.prems by (force simp: map_of_eq_None_iff)
  then show ?case using Cons by (cases x) (auto split: option.split)
qed simp

lemma sweep_inv:
  assumes inv: "mvcc_inv pend db" and sw: "sweep db = (k, db')"
  shows "mvcc_inv pend db'" "hist_le {} (hist_of pend db) (hist_of pend db')" "running_txns db' = running_txns db"
    "find_txn db' i = (case find_txn db i of None \<Rightarrow> None
       | Some t \<Rightarrow> if collectible (db_watermark db) t then None else Some t)"
proof -
  note I = mvcc_invD [OF inv]
  let ?P = "\<lambda>(i, t). \<not> collectible (db_watermark db) t"
  have db': "db' = db\<lparr>txn_map := filter ?P (txn_map db)\<rparr>" using sw by (simp add: sweep_def Let_def db_watermark_def)
  have dist: "distinct (map fst (txn_map db))" using I(1) by (simp add: clock_ok_def)
  have f: "find_txn db' i = (case find_txn db i of None \<Rightarrow> None
       | Some t \<Rightarrow> if collectible (db_watermark db) t then None else Some t)" for i
    using map_of_filter_snd [OF dist, of "\<lambda>t. \<not> collectible (db_watermark db) t" i]
    by (simp add: find_txn_def db' split: option.split)
  show "find_txn db' i = (case find_txn db i of None \<Rightarrow> None
       | Some t \<Rightarrow> if collectible (db_watermark db) t then None else Some t)" "running_txns db' = running_txns db"
    using f db' by simp_all
  have wm: "db_watermark db' = db_watermark db" by (simp add: db' db_watermark_def)
  have eq: "get_undo_link db' = get_undo_link db" "db_store db' = db_store db" "last_commit_ts db' = last_commit_ts db"
    "next_txn_id db' = next_txn_id db" "db_catalog db' = db_catalog db"
    by (simp_all add: db' get_undo_link_def fun_eq_iff)
  show le: "hist_le {} (hist_of pend db) (hist_of pend db')"
    unfolding hist_le_def using wm eq f
    by (auto simp: hist_of_def collectible_def owns_ts_def split: option.split)
  have live: "find_txn db' i = Some u" if "find_txn db i = Some u" "txn_live u" for i u
    using that f by (auto simp: collectible_def txn_live_def)
  have "clock_ok db'" using I(1) by (auto simp: clock_ok_def db' distinct_map_filter)
  moreover have "wm_ok db'"
    using I(2) live_mset_filter [of "txn_map db" ?P] by (force simp: wm_ok_def db' collectible_def txn_live_def)
  moreover have "txn_ok db' i u" if "find_txn db' i = Some u" for i u
  proof -
    have "txn_ok db i u" using that f I(7) by (auto split: option.splits if_splits)
    then show ?thesis by (simp add: txn_ok_def eq)
  qed
  moreover have "row_ok pend db' x m'" if x: "row_at (db_store db') x = Some (m', b')" for x m' b'
  proof -
    have "has_owner pend db x a \<Longrightarrow> has_owner pend db' x a" for a
      unfolding has_owner_def using live by blast
    then show ?thesis using I(8) [of x m' b'] x chain_mono [OF _ le] eq by (auto simp: row_ok_def)
  qed
  moreover have "links_ok db'" using I(4) eq by (simp add: links_ok_def)
  moreover have "heaps_ok db'" using I(3) eq by (simp add: heaps_ok_def)
  moreover have "pend_ok pend db'" using I(5) live eq by (fastforce simp: pend_ok_def)
  ultimately show "mvcc_inv pend db'" unfolding mvcc_inv_def by blast
qed

end
