(* ===== verification/SnapshotSteps.thy ===== *)
theory SnapshotSteps
  imports MvccInvariant
begin

text \<open>
  Every operation of the transaction layer against the invariant \<^const>\<open>db_inv\<close> and against what the
  other transactions see.

  \<open>view\<close> is what a transaction reads at a record id, as the committed snapshot with the transaction's
  own writes laid over it; \<open>stable_for\<close> says that a step leaves one transaction's snapshot timestamp,
  write set and view alone. Each \<open>..._step\<close> lemma shows both for one operation of
  \<^verbatim>\<open>mvcc.cpp\<close> or \<^verbatim>\<open>transaction_manager.cpp\<close>.
\<close>

section \<open>Commit\<close>

lemma pend_start:
  assumes inv: "mvcc_inv None db" and t: "find_txn db tid = Some t" "txn_live t" and c: "last_commit_ts db + 1 < TXN_START_ID"
  shows "mvcc_inv (Some (tid, last_commit_ts db + 1)) db"
    "hist_le {} (hist_of None db) (hist_of (Some (tid, last_commit_ts db + 1)) db)"
proof -
  let ?p = "Some (tid, last_commit_ts db + 1)"
  note I = mvcc_invD [OF inv]
  have mono: "owns_ts None i u a \<Longrightarrow> owns_ts ?p i u a" for i u a by (auto simp: owns_ts_def)
  show le: "hist_le {} (hist_of None db) (hist_of ?p db)"
    unfolding hist_le_def by (auto simp: hist_of_def mono split: option.split)
  have "row_ok ?p db x m'" if "row_at (db_store db) x = Some (m', b')" for x m' b'
    using I(8) [OF that] chain_mono [OF _ le, of "ts m'"] mono by (fastforce simp: row_ok_def has_owner_def)
  moreover have "pend_ok ?p db" using t c by (auto simp: pend_ok_def)
  ultimately show "mvcc_inv ?p db" using inv unfolding mvcc_inv_def by blast
qed

lemma snap_after_last:
  assumes inv: "mvcc_inv pend db" and r: "row_at (db_store db) r = Some (m, b)" and s: "last_commit_ts db \<le> s"
    and m: "ts m \<le> last_commit_ts db \<or> s < ts m"
  shows "snap db s r = snap db (last_commit_ts db) r"
proof (cases "ts m \<le> last_commit_ts db")
  case False
  with m s have lt: "s < ts m" "last_commit_ts db < ts m" by auto
  have "chain (hist_of pend db) (ts m) (get_undo_link db r)" using mvcc_invD(8) [OF inv r] by (simp add: row_ok_def)
  then have "walk_versions db s (get_undo_link db r) = walk_versions db (last_commit_ts db) (get_undo_link db r)"
  proof cases
    case (chain_log l logs u)
    then have "get_undo_log_optional db l = Some u" by (simp add: get_undo_log_hist [of _ _ pend])
    then show ?thesis using chain_log s by (subst (1 2) walk_versions.simps) (simp add: hist_of_def)
  next
    case (chain_gone l)
    then show ?thesis using wm_bounds(2) [OF inv] lt by (simp add: hist_of_def)
  qed (simp_all add: walk_versions.simps [of _ _ None] walk_versions.simps [of _ _ "Some _"])
  with lt r show ?thesis by (simp add: snap_def)
qed (use r s in \<open>simp add: snap_def\<close>)

text \<open>The uncommitted value a transaction wrote to a row it owns.\<close>

definition own_value :: "db \<Rightarrow> rid \<Rightarrow> row option" where
  "own_value db r = (case row_at (db_store db) r of None \<Rightarrow> None | Some (m, b) \<Rightarrow> if is_deleted m then None else Some b)"

lemma commit_stamped_ok:
  assumes inv: "mvcc_inv None db" and t: "find_txn db tid = Some t" "txn_live t" and own: "owned db t"
    and c: "last_commit_ts db + 1 < TXN_START_ID"
  defines "cts \<equiv> last_commit_ts db + 1"
  shows "\<exists>w db'. commit_stamped tid t db = (Inr True, db') \<and> mvcc_inv None db' \<and>
     find_txn db' = (find_txn db)(tid \<mapsto> t\<lparr>commit_ts := cts, txn_state := COMMITTED\<rparr>) \<and>
     last_commit_ts db' = cts \<and> db_watermark db \<le> db_watermark db' \<and> db_catalog db' = db_catalog db \<and>
     next_txn_id db' = next_txn_id db \<and>
     get_undo_link db' = get_undo_link db \<and>
     row_at (db_store db') = (\<lambda>r. if r \<in> writes t then map_option (\<lambda>(m, b). (m\<lparr>ts := cts\<rparr>, b)) (row_at (db_store db) r)
                                  else row_at (db_store db) r) \<and>
     (\<forall>s r. db_watermark db' \<le> s \<longrightarrow> s \<le> last_commit_ts db \<longrightarrow> snap db' s r = snap db s r) \<and>
     (\<forall>r. snap db' cts r = (if r \<in> writes t then Some (own_value db r) else snap db (last_commit_ts db) r))"
proof -
  note tok = mvcc_invD(7) [OF inv t(1)]
  have tid: "txn_id t = tid" "TXN_START_ID \<le> tid" using tok by (auto simp: txn_ok_def)
  have inv1: "mvcc_inv (Some (tid, cts)) db" using pend_start(1) [OF inv t c] by (simp add: cts_def)
  have ws: "snd ` set (written t) = writes t" by (simp add: writes_def)
  have "\<exists>db1. stamp_all (written t) cts db = (Inr (), db1) \<and> mvcc_inv (Some (tid, cts)) db1 \<and> frame_eq db db1 \<and> snaps_eq db db1 \<and>
     get_undo_link db1 = get_undo_link db \<and>
     row_at (db_store db1) = (\<lambda>r. if r \<in> snd ` set (written t) then map_option (\<lambda>(m, b). (m\<lparr>ts := cts\<rparr>, b)) (row_at (db_store db) r)
                                  else row_at (db_store db) r)"
  proof (rule stamp_all_inv [OF inv1 t(1) written_rids_distinct [OF inv t(1)]])
    fix oid r assume w: "(oid, r) \<in> set (written t)"
    then have rw: "r \<in> writes t" by (force simp: writes_def)
    show "db_catalog db oid \<noteq> None \<and> r \<in> writes t" using tok w rw by (auto simp: txn_ok_def)
    show "\<exists>m b. row_at (db_store db) r = Some (m, b) \<and> ts m = tid" using own rw tid by (auto simp: owned_def)
  qed
  then obtain db1 where d: "stamp_all (written t) cts db = (Inr (), db1)" "mvcc_inv (Some (tid, cts)) db1" "frame_eq db db1"
    "snaps_eq db db1" "get_undo_link db1 = get_undo_link db"
    "row_at (db_store db1) = (\<lambda>r. if r \<in> writes t then map_option (\<lambda>(m, b). (m\<lparr>ts := cts\<rparr>, b)) (row_at (db_store db) r)
                                  else row_at (db_store db) r)" unfolding ws by blast
  note fr = frame_eq_sel [OF d(3)]
  have t1: "find_txn db1 tid = Some t" using fr t by simp
  have ct: "cts < tid" using c tid by (simp add: cts_def)
  have none: "ts m \<noteq> tid" if "row_at (db_store db1) r = Some (m, b)" for r m b
  proof (cases "r \<in> writes t")
    case True
    then show ?thesis using that d(6) ct by auto
  next
    case False
    then have at: "row_at (db_store db) r = Some (m, b)" using that d(6) by simp
    then show ?thesis
    proof (intro notI)
      assume "ts m = tid"
      moreover have "last_commit_ts db < tid" using ct by (simp add: cts_def)
      ultimately obtain i u where u: "find_txn db i = Some u" "r \<in> writes u" "owns_ts None i u tid"
        using mvcc_invD(8) [OF inv at] by (auto simp: row_ok_def has_owner_def)
      then have "i = tid" using mvcc_invD(7) [OF inv u(1)] \<open>last_commit_ts db < tid\<close> by (auto simp: owns_ts_def txn_ok_def)
      then show False using u t False by simp
    qed
  qed
  have "\<exists>w db'. publish_commit tid cts db1 = (Inr True, db') \<and> mvcc_inv None db' \<and>
     hist_le {tid} (hist_of (Some (tid, cts)) db1) (hist_of None db') \<and>
     db' = (put_txn tid (t\<lparr>commit_ts := cts, txn_state := COMMITTED\<rparr>) db1)\<lparr>last_commit_ts := cts, running_txns := w\<rparr>"
    by (rule publish_inv [OF d(2) t1]) (rule none)
  then obtain w db' where p: "publish_commit tid cts db1 = (Inr True, db')" "mvcc_inv None db'"
    "hist_le {tid} (hist_of (Some (tid, cts)) db1) (hist_of None db')"
    "db' = (put_txn tid (t\<lparr>commit_ts := cts, txn_state := COMMITTED\<rparr>) db1)\<lparr>last_commit_ts := cts, running_txns := w\<rparr>"
    by blast
  have eq: "row_at (db_store db') = row_at (db_store db1)" "get_undo_link db' = get_undo_link db1" "last_commit_ts db' = cts"
    "db_catalog db' = db_catalog db1" "next_txn_id db' = next_txn_id db1"
    "find_txn db' = (find_txn db1)(tid \<mapsto> t\<lparr>commit_ts := cts, txn_state := COMMITTED\<rparr>)"
    by (simp_all add: p(4) get_undo_link_def find_txn_def put_txn_def update_conv' fun_eq_iff)
  have wm: "db_watermark db \<le> db_watermark db'" using hist_le_bounds(1) [OF p(3)] fr by (simp add: hist_of_def)
  have sn: "snap db' s r = snap db1 s r" if "db_watermark db' \<le> s" for s r
    using snap_frame [OF d(2) p(3), of r s] none eq that by auto
  have old: "snap db' s r = snap db s r" if "db_watermark db' \<le> s" "s \<le> last_commit_ts db" for s r
    using sn [OF that(1)] snaps_eqD [OF d(4), of s r] that wm by simp
  have new: "snap db' cts r = (if r \<in> writes t then Some (own_value db r) else snap db (last_commit_ts db) r)" for r
  proof (cases "r \<in> writes t")
    case True
    then obtain m b where "row_at (db_store db) r = Some (m, b)" using own by (auto simp: owned_def)
    then show ?thesis using True d(6) eq by (simp add: snap_def own_value_def)
  next
    case False
    have last: "last_commit_ts db1 = last_commit_ts db" using d(3) by (simp add: frame_eq_def)
    have le: "db_watermark db' \<le> cts" using wm_bounds(2) [OF p(2)] eq by simp
    have "snap db1 cts r = snap db1 (last_commit_ts db) r"
    proof (cases "row_at (db_store db1) r")
      case (Some mb)
      obtain m b where mb: "mb = (m, b)" by (cases mb)
      have at: "row_at (db_store db) r = Some (m, b)" using Some False d(6) mb by simp
      have "ts m \<le> last_commit_ts db \<or> cts < ts m"
        using mvcc_invD(8) [OF inv at] mvcc_invD(7) [OF inv] c
        by (fastforce simp: row_ok_def has_owner_def owns_ts_def txn_ok_def cts_def)
      then show ?thesis using snap_after_last [OF d(2) Some [unfolded mb], of cts] last by (simp add: cts_def)
    qed (simp add: snap_def)
    also have "\<dots> = snap db (last_commit_ts db) r"
      using snaps_eqD [OF d(4), of "last_commit_ts db" r] wm_bounds(2) [OF inv] by simp
    finally show ?thesis using sn [OF le] False by simp
  qed
  have "commit_stamped tid t db = (Inr True, db')" using d(1) p(1) by (simp add: commit_stamped_def cts_def Let_def)
  moreover have "db_catalog db' = db_catalog db \<and> next_txn_id db' = next_txn_id db" using eq d(3) by (simp add: frame_eq_def)
  ultimately show ?thesis using p(2) eq wm old new d(5,6) fr by auto
qed

section \<open>Abort\<close>

lemma abort_txn_ok:
  assumes inv: "mvcc_inv None db" and t: "find_txn db tid = Some t" "txn_live t" and own: "owned db t"
    and res: "abort_txn tid db = (Inr (), db')"
  shows "mvcc_inv None db' \<and> find_txn db' = (find_txn db)(tid \<mapsto> t\<lparr>txn_state := ABORTED\<rparr>) \<and>
     last_commit_ts db' = last_commit_ts db \<and> db_watermark db \<le> db_watermark db' \<and> db_catalog db' = db_catalog db \<and>
     next_txn_id db' = next_txn_id db \<and>
     (\<forall>r. r \<notin> writes t \<longrightarrow> row_at (db_store db') r = row_at (db_store db) r \<and> get_undo_link db' r = get_undo_link db r) \<and>
     (\<forall>r \<in> writes t. \<exists>m b. row_at (db_store db') r = Some (m, b) \<and> ts m \<le> last_commit_ts db \<and>
        (ts m = committed_ts db r \<or> committed_ts db r = -1 \<and> ts m = 0)) \<and>
     (\<forall>s r. db_watermark db' \<le> s \<longrightarrow> s \<le> last_commit_ts db \<longrightarrow> snap db' s r = snap db s r)"
proof -
  note tok = mvcc_invD(7) [OF inv t(1)]
  have tid: "txn_id t = tid" "TXN_START_ID \<le> tid" using tok by (auto simp: txn_ok_def)
  have lt: "last_commit_ts db < tid" using mvcc_invD(1) [OF inv] tid by (simp add: clock_ok_def)
  have ws: "snd ` set (written t) = writes t" by (simp add: writes_def)
  obtain db1 where r: "rollback_all tid (written t) db = (Inr (), db1)" "finish_abort tid db1 = (Inr (), db')"
    using res t by (auto simp: abort_txn_def txn_live_def split: if_splits prod.splits sum.splits)
  have d: "mvcc_inv None db1 \<and> frame_eq db db1 \<and> snaps_eq db db1 \<and>
     (\<forall>r. r \<notin> snd ` set (written t) \<longrightarrow> row_at (db_store db1) r = row_at (db_store db) r \<and> get_undo_link db1 r = get_undo_link db r) \<and>
     (\<forall>r \<in> snd ` set (written t). \<exists>m b. row_at (db_store db1) r = Some (m, b) \<and> ts m \<le> last_commit_ts db \<and>
        (ts m = committed_ts db r \<or> committed_ts db r = -1 \<and> ts m = 0))"
  proof (rule rollback_all_inv [OF inv t written_rids_distinct [OF inv t(1)] _ _ r(1)])
    fix oid r assume w: "(oid, r) \<in> set (written t)"
    then show "db_catalog db oid \<noteq> None" using tok by (auto simp: txn_ok_def)
    have "r \<in> writes t" using w by (force simp: writes_def)
    then show "\<exists>m b. row_at (db_store db) r = Some (m, b) \<and> ts m = tid" using own tid by (auto simp: owned_def)
  qed
  note fr = frame_eq_sel [of db db1]
  have none: "ts m \<noteq> tid" if at1: "row_at (db_store db1) r = Some (m, b)" for r m b
  proof (cases "r \<in> writes t")
    case True
    then show ?thesis using that d ws lt by fastforce
  next
    case False
    then have at: "row_at (db_store db) r = Some (m, b)" using that d ws by auto
    show ?thesis
    proof
      assume "ts m = tid"
      then obtain i u where u: "find_txn db i = Some u" "r \<in> writes u" "owns_ts None i u tid"
        using mvcc_invD(8) [OF inv at] lt by (auto simp: row_ok_def has_owner_def)
      then have "i = tid" using mvcc_invD(7) [OF inv u(1)] lt by (auto simp: owns_ts_def txn_ok_def)
      then show False using u t False by simp
    qed
  qed
  have t1: "find_txn db1 tid = Some t" using fr d t by simp
  have "\<exists>w db'. finish_abort tid db1 = (Inr (), db') \<and> mvcc_inv None db' \<and>
     hist_le {tid} (hist_of None db1) (hist_of None db') \<and>
     db' = (put_txn tid (t\<lparr>txn_state := ABORTED\<rparr>) db1)\<lparr>running_txns := w\<rparr>"
    by (rule finish_abort_inv [OF _ t1 t(2)]) (use d none in auto)
  then obtain w where
    f: "mvcc_inv None db'" "hist_le {tid} (hist_of None db1) (hist_of None db')"
    "db' = (put_txn tid (t\<lparr>txn_state := ABORTED\<rparr>) db1)\<lparr>running_txns := w\<rparr>" using r(2) by auto
  have eq: "row_at (db_store db') = row_at (db_store db1)" "get_undo_link db' = get_undo_link db1"
    "last_commit_ts db' = last_commit_ts db1" "db_catalog db' = db_catalog db1" "next_txn_id db' = next_txn_id db1"
    "find_txn db' = (find_txn db1)(tid \<mapsto> t\<lparr>txn_state := ABORTED\<rparr>)"
    by (simp_all add: f(3) get_undo_link_def find_txn_def put_txn_def update_conv' fun_eq_iff)
  have wm: "db_watermark db \<le> db_watermark db'" using hist_le_bounds(1) [OF f(2)] fr d by (simp add: hist_of_def)
  have "snap db' s r = snap db s r" if s: "db_watermark db' \<le> s" "s \<le> last_commit_ts db" for s r
  proof -
    have "snap db' s r = snap db1 s r" using snap_frame [OF _ f(2), of r s] d none eq s by auto
    also have "\<dots> = snap db s r" using d snaps_eqD [of db db1 s r] s wm by simp
    finally show ?thesis .
  qed
  then show ?thesis using f(1) eq wm d fr ws by (auto simp: frame_eq_def)
qed

section \<open>What a reader sees\<close>

definition view :: "db \<Rightarrow> txn \<Rightarrow> rid \<Rightarrow> row option option" where
  "view db t r =
     (case row_at (db_store db) r of
        None \<Rightarrow> Some None
      | Some (m, b) \<Rightarrow> if ts m = txn_id t then Some (own_value db r) else snap db (read_ts t) r)"

lemma collect_view:
  assumes "store_wf (db_store db)" and r: "row_at (db_store db) r = Some (m, b)"
  shows "collect_visible_version db t r = map_option Inr (view db t r)"
  using page_rows_at(5) [OF assms] r
  by (auto simp: collect_visible_version_def view_def reconstruct_visible_def own_value_def snap_def)

lemma collect_missing:
  assumes "store_wf (db_store db)" and "row_at (db_store db) r = None" and "snd r < 65536"
  shows "collect_visible_version db t r = Some (Inl (Exception ''Slot out of range''))"
  using assms by (auto simp: collect_visible_version_def get_row_def db_page_def page_slot_def row_at_def Let_def split: if_splits)

lemma view_total:
  assumes "mvcc_inv pend db" "find_txn db tid = Some t" "txn_live t"
  shows "\<exists>v. view db t r = Some v"
  using snap_total [OF assms(1) wm_bounds(3) [OF assms], of r] by (auto simp: view_def split: option.split)

text \<open>
  What the steps of others do to transaction \<open>tid\<close>: it never comes back to life, and while it lives its
  snapshot timestamp, its write set and everything it sees stay the same.
\<close>

definition stable_for :: "int \<Rightarrow> db \<Rightarrow> db \<Rightarrow> bool" where
  "stable_for tid db db' \<longleftrightarrow> next_txn_id db \<le> next_txn_id db' \<and>
     (\<forall>r. row_at (db_store db) r \<noteq> None \<longrightarrow> row_at (db_store db') r \<noteq> None) \<and>
     (tid < next_txn_id db \<longrightarrow> (\<forall>t'. find_txn db' tid = Some t' \<longrightarrow> txn_live t' \<longrightarrow>
        (\<exists>t. find_txn db tid = Some t \<and> txn_live t \<and> read_ts t' = read_ts t \<and> written t' = written t \<and>
           (\<forall>r. view db' t' r = view db t r))))"

lemma stable_forD:
  assumes "stable_for tid db db'" and "tid < next_txn_id db" and "find_txn db' tid = Some t'" and "txn_live t'"
  obtains t where "find_txn db tid = Some t" "txn_live t" "read_ts t' = read_ts t" "written t' = written t"
    "\<And>r. view db' t' r = view db t r"
  using assms unfolding stable_for_def by blast

lemma stable_for_trans:
  assumes "stable_for tid a b" and "stable_for tid b c"
  shows "stable_for tid a c"
proof -
  have mono: "next_txn_id a \<le> next_txn_id b" "next_txn_id b \<le> next_txn_id c"
    "\<And>r. row_at (db_store a) r \<noteq> None \<Longrightarrow> row_at (db_store c) r \<noteq> None"
    using assms unfolding stable_for_def by blast+
  have "\<exists>t. find_txn a tid = Some t \<and> txn_live t \<and> read_ts t' = read_ts t \<and> written t' = written t \<and>
      (\<forall>r. view c t' r = view a t r)"
    if new: "tid < next_txn_id a" "find_txn c tid = Some t'" "txn_live t'" for t'
  proof -
    have "tid < next_txn_id b" using new(1) mono(1) by simp
    from stable_forD [OF assms(2) this new(2,3)] obtain u where u: "find_txn b tid = Some u" "txn_live u"
      "read_ts t' = read_ts u" "written t' = written u" "\<And>r. view c t' r = view b u r" by blast
    from stable_forD [OF assms(1) new(1) u(1,2)] obtain t where t: "find_txn a tid = Some t" "txn_live t"
      "read_ts u = read_ts t" "written u = written t" "\<And>r. view b u r = view a t r" by blast
    with u show ?thesis by simp
  qed
  with mono show ?thesis unfolding stable_for_def by (auto intro: order_trans)
qed

lemma stable_for_refl: "stable_for tid db db"
  by (auto simp: stable_for_def)

lemma stable_forI:
  assumes inv: "mvcc_inv pend db" and inv': "mvcc_inv pend' db'" and "next_txn_id db \<le> next_txn_id db'"
    and keep: "\<And>r. row_at (db_store db) r \<noteq> None \<Longrightarrow> row_at (db_store db') r \<noteq> None"
    and t: "\<And>t'. tid < next_txn_id db \<Longrightarrow> find_txn db' tid = Some t' \<Longrightarrow> txn_live t' \<Longrightarrow>
        \<exists>t. find_txn db tid = Some t \<and> txn_live t \<and> read_ts t' = read_ts t \<and> written t' = written t"
    and rows: "\<And>r x. TXN_START_ID \<le> tid \<Longrightarrow> \<exists>t'. find_txn db' tid = Some t' \<and> txn_live t' \<Longrightarrow> row_at (db_store db') r = x \<Longrightarrow>
        x \<noteq> row_at (db_store db) r \<Longrightarrow> (\<forall>m b. x = Some (m, b) \<longrightarrow> ts m \<noteq> tid) \<and>
        (\<forall>m b. row_at (db_store db) r = Some (m, b) \<longrightarrow> ts m \<noteq> tid)"
    and snaps: "\<And>s r. db_watermark db' \<le> s \<Longrightarrow> s \<le> last_commit_ts db \<Longrightarrow> snap db' s r = snap db s r"
  shows "stable_for tid db db'"
  unfolding stable_for_def
proof (intro conjI impI allI)
  fix t' assume new: "tid < next_txn_id db" "find_txn db' tid = Some t'" "txn_live t'"
  from t [OF this] obtain t where t: "find_txn db tid = Some t" "txn_live t" "read_ts t' = read_ts t" "written t' = written t"
    by blast
  have ids: "txn_id t = tid" "txn_id t' = tid" "read_ts t \<le> last_commit_ts db" "TXN_START_ID \<le> tid"
    using mvcc_invD(7) [OF inv t(1)] mvcc_invD(7) [OF inv' new(2)] by (auto simp: txn_ok_def)
  have "view db' t' r = view db t r" for r
  proof -
    have sn: "snap db' (read_ts t) r = snap db (read_ts t) r"
      using snaps wm_bounds(3) [OF inv' new(2,3)] t(3) ids(3) by simp
    show ?thesis
    proof (cases "row_at (db_store db') r = row_at (db_store db) r")
      case True
      then have "own_value db' r = own_value db r" by (simp add: own_value_def)
      with True show ?thesis using sn ids t(3) by (auto simp: view_def split: option.split)
    next
      case False
      have "\<exists>t'. find_txn db' tid = Some t' \<and> txn_live t'" using new by blast
      note ch = rows [OF ids(4) this refl False]
      have "view db' t' r = snap db' (read_ts t) r"
        using ch ids t(3) by (auto simp: view_def snap_def split: option.split)
      moreover have "view db t r = snap db (read_ts t) r"
        using ch ids by (auto simp: view_def snap_def split: option.split)
      ultimately show ?thesis using sn by simp
    qed
  qed
  then show "\<exists>t. find_txn db tid = Some t \<and> txn_live t \<and> read_ts t' = read_ts t \<and> written t' = written t \<and>
      (\<forall>r. view db' t' r = view db t r)" using t by blast
qed (rule assms(3), use keep in blast)

section \<open>Each operation: invariant kept, others undisturbed\<close>

lemma db_invD: "db_inv db \<Longrightarrow> mvcc_inv None db" "db_inv db \<Longrightarrow> find_txn db i = Some t \<Longrightarrow> txn_live t \<Longrightarrow> owned db t"
  by (auto simp: db_inv_def)

lemma owned_other:
  assumes "db_inv db" "find_txn db i = Some u" "txn_live u" "r \<in> writes u" "row_at (db_store db) r = Some (m, b)"
  shows "ts m = i"
  using db_invD(2) [OF assms(1-3)] mvcc_invD(7) [OF db_invD(1) [OF assms(1)] assms(2)] assms(4,5)
  by (auto simp: owned_def txn_ok_def)

text \<open>A rewrite of one row by its owner or of a row nobody else owns.\<close>

lemma rewrite_step:
  assumes inv: "db_inv db" and inv': "mvcc_inv None db'" and t: "find_txn db tid = Some t" "txn_live t"
    and gr: "txn_grows t t'" and wr: "writes t' = insert r (writes t)"
    and rw: "rewrites_row tid t' r \<lparr>ts = tid, is_deleted = del\<rparr> b l db db'"
    and free: "\<And>m b. row_at (db_store db) r = Some (m, b) \<Longrightarrow> ts m = tid \<or> ts m < TXN_START_ID"
    and snaps: "\<And>s x. db_watermark db \<le> s \<Longrightarrow> s \<le> last_commit_ts db \<Longrightarrow> snap db' s x = snap db s x"
  shows "db_inv db'" and "i \<noteq> tid \<Longrightarrow> stable_for i db db'"
proof -
  have f: "find_txn db' = (find_txn db)(tid \<mapsto> t')" by (rule find_txn_rewrites [OF rw])
  have rows: "row_at (db_store db') = (row_at (db_store db))(r \<mapsto> (\<lparr>ts = tid, is_deleted = del\<rparr>, b))"
    and eq: "next_txn_id db' = next_txn_id db" "running_txns db' = running_txns db"
    using rw by (auto simp: rewrites_row_def)
  note tok = mvcc_invD(7) [OF db_invD(1) [OF inv]]
  have "owned db' u" if u: "find_txn db' j = Some u" "txn_live u" for j u
  proof (cases "j = tid")
    case True
    then have [simp]: "u = t'" using u f by simp
    have "txn_id t' = tid" using tok [OF t(1)] gr by (simp add: txn_ok_def txn_grows_def)
    then show ?thesis using db_invD(2) [OF inv t] rows wr tok [OF t(1)]
      by (auto simp: owned_def txn_ok_def)
  next
    case False
    then have u': "find_txn db j = Some u" using u f by simp
    have "r \<notin> writes u"
    proof
      assume w: "r \<in> writes u"
      then obtain m b where at: "row_at (db_store db) r = Some (m, b)"
        using db_invD(2) [OF inv u' u(2)] by (auto simp: owned_def)
      have "ts m = j" by (rule owned_other [OF inv u' u(2) w at])
      then show False using free [OF at] tok [OF u'] False by (auto simp: txn_ok_def)
    qed
    then show ?thesis using db_invD(2) [OF inv u' u(2)] rows by (auto simp: owned_def)
  qed
  then show "db_inv db'" using inv' by (simp add: db_inv_def)
  assume ne: "i \<noteq> tid"
  show "stable_for i db db'"
  proof (rule stable_forI [OF db_invD(1) [OF inv] inv'])
    fix x y assume "TXN_START_ID \<le> i" and ch: "row_at (db_store db') x = y" "y \<noteq> row_at (db_store db) x"
    then show "(\<forall>m b. y = Some (m, b) \<longrightarrow> ts m \<noteq> i) \<and> (\<forall>m b. row_at (db_store db) x = Some (m, b) \<longrightarrow> ts m \<noteq> i)"
      using rows ne free by (cases "x = r") auto
  next
    fix s x assume "db_watermark db' \<le> s" "s \<le> last_commit_ts db"
    then show "snap db' s x = snap db s x" using snaps eq by (simp add: db_watermark_def)
  qed (use f ne eq in \<open>auto simp: rows\<close>)
qed

lemma modify_step:
  assumes inv: "db_inv db" and t: "find_txn db tid = Some t" "txn_live t"
    and h: "db_catalog db oid = Some h" "fst r \<in> set (page_directory h)" and r: "snd r < 65536"
    and n: "n \<le> length row" "n < 65536" and res: "apply_mvcc_modify tid oid r del row n db = (x, db')"
  shows "db_inv db'" and "i \<noteq> tid \<Longrightarrow> stable_for i db db'"
proof -
  note inv0 = db_invD(1) [OF inv]
  have "db_inv db' \<and> (i \<noteq> tid \<longrightarrow> stable_for i db db')"
  proof (cases x)
    case (Inr y)
    then have res': "apply_mvcc_modify tid oid r del row n db = (Inr (), db')" using res by simp
    note m = apply_mvcc_modify_inv [OF inv0 t h r n res']
    from m obtain t' b' l where mm: "txn_grows t t'" "rewrites_row tid t' r \<lparr>ts = tid, is_deleted = del\<rparr> b' l db db'"
      "set (written t') = insert (oid, r) (set (written t))" using t by (auto simp: modifies_def)
    have w: "writes t' = insert r (writes t)" using mm(3) by (simp add: writes_def)
    have free: "ts mt = tid \<or> ts mt < TXN_START_ID" if at: "row_at (db_store db) r = Some (mt, bt)" for mt bt
    proof -
      have "ts mt = txn_id t \<or> ts mt \<le> read_ts t"
        using res' page_rows_at(5) [OF mvcc_invD(6) [OF inv0] at] t
        by (auto simp: apply_mvcc_modify_def throw_write_write_conflict_def split: if_splits sum.splits prod.splits)
      then show ?thesis using mvcc_invD(7) [OF inv0 t(1)] mvcc_invD(1) [OF inv0] by (auto simp: txn_ok_def clock_ok_def)
    qed
    have "db_inv db'" by (rule rewrite_step(1) [OF inv _ t mm(1) w mm(2)]) (use free m in auto)
    moreover have "i \<noteq> tid \<Longrightarrow> stable_for i db db'"
      by (rule rewrite_step(2) [OF inv _ t mm(1) w mm(2)]) (use free m in auto)
    ultimately show ?thesis by blast
  next
    case (Inl e)
    then have res': "apply_mvcc_modify tid oid r del row n db = (Inl e, db')" using res by simp
    note m = modify_fails_inv [OF inv0 t r res']
    have f: "\<exists>t'. find_txn db' = (find_txn db)(tid \<mapsto> t') \<and> txn_id t' = txn_id t \<and> written t' = written t \<and> next_txn_id db' = next_txn_id db
        \<and> db_watermark db' = db_watermark db"
      using res'
    proof (cases rule: apply_mvcc_modify_Inl)
      case same
      then show ?thesis using t by (intro exI [of _ t]) (simp add: fun_upd_idem)
    qed (use t in \<open>auto simp: written_def db_watermark_def\<close>)
    then obtain t' where t': "find_txn db' = (find_txn db)(tid \<mapsto> t')" "txn_id t' = txn_id t" "written t' = written t"
      "next_txn_id db' = next_txn_id db" "db_watermark db' = db_watermark db" by blast
    have "owned db' u" if "find_txn db' j = Some u" "txn_live u" for j u
      using that t' t db_invD(2) [OF inv] m by (cases "j = tid") (auto simp: owned_def writes_def)
    moreover have "stable_for i db db'" if "i \<noteq> tid"
      by (rule stable_forI [OF inv0]) (use m t' that in auto)
    ultimately show ?thesis using m by (auto simp: db_inv_def)
  qed
  then show "db_inv db'" "i \<noteq> tid \<Longrightarrow> stable_for i db db'" by auto
qed

lemma mvcc_inv_heap_only:
  assumes inv: "mvcc_inv pend db" and h: "db_catalog db oid = Some h" and ext: "heap_extends h (db_store db) h' st'"
    and rows: "row_at st' = row_at (db_store db)"
    and db': "db' = db\<lparr>db_store := st', db_catalog := (db_catalog db)(oid \<mapsto> h')\<rparr>"
  shows "mvcc_inv pend db'" and "db_watermark db \<le> s \<Longrightarrow> snap db' s x = snap db s x"
proof -
  note I = mvcc_invD [OF inv]
  have c: "db_store db' = st'" "db_catalog db' = (db_catalog db)(oid \<mapsto> h')" by (simp_all add: db')
  note ho = heaps_ok_extend [OF I(3) h ext c]
  have eq: "find_txn db' = find_txn db" "get_undo_link db' = get_undo_link db" "hist_of pend db' = hist_of pend db"
    by (simp_all add: db' hist_of_def db_watermark_def)
  have wm: "db_watermark db' = db_watermark db" by (simp add: db' db_watermark_def)
  show "snap db' s x = snap db s x" if "db_watermark db \<le> s"
    using snap_frame [OF inv, of "{}" pend db' x s] that wm eq rows by (auto simp: c)
  have "txn_ok db' i u" if "find_txn db' i = Some u" for i u
    by (rule txn_ok_mono [of db]) (use that eq I(7) ho(2) rows in \<open>auto simp: db'\<close>)
  moreover have "row_ok pend db' r m" if "row_at (db_store db') r = Some (m, b)" for r m b
    using I(8) [of r m b] that rows eq by (simp add: row_ok_def has_owner_def db')
  moreover have "links_ok db'" using I(4) eq rows by (simp add: links_ok_def c)
  moreover have "clock_ok db'" "wm_ok db'" "pend_ok pend db'"
    using I(1,2,5) eq by (simp_all add: clock_ok_def wm_ok_def pend_ok_def db')
  ultimately show "mvcc_inv pend db'" using ho(1) unfolding mvcc_inv_def by blast
qed


lemma heap_only_step:
  assumes inv: "db_inv db" and h: "db_catalog db oid = Some h" and ext: "heap_extends h (db_store db) h' st'"
    and rows: "row_at st' = row_at (db_store db)"
    and db': "db' = db\<lparr>db_store := st', db_catalog := (db_catalog db)(oid \<mapsto> h')\<rparr>"
  shows "db_inv db'" "stable_for i db db'"
proof -
  note m = mvcc_inv_heap_only [OF db_invD(1) [OF inv] h ext rows db']
  have eq: "find_txn db' = find_txn db" "db_store db' = st'" "next_txn_id db' = next_txn_id db" "db_watermark db' = db_watermark db"
    by (simp_all add: db' db_watermark_def)
  show "db_inv db'" using m(1) inv eq rows by (auto simp: db_inv_def owned_def)
  show "stable_for i db db'" by (rule stable_forI [OF db_invD(1) [OF inv] m(1)]) (use m(2) eq rows in auto)
qed

lemma insert_step:
  assumes "db_inv db" and "find_txn db tid = Some t" "txn_live t" and "mvcc_insert tid oid rows db = (x, db')"
  shows "db_inv db' \<and> (i \<noteq> tid \<longrightarrow> stable_for i db db')"
  using assms
proof (induction rows arbitrary: db t x db')
  case Nil
  then show ?case by (simp add: stable_for_refl)
next
  case (Cons row rows)
  note inv0 = db_invD(1) [OF Cons.prems(1)]
  let ?meta = "\<lparr>ts = txn_id t, is_deleted = False\<rparr>" and ?n = "length row mod 2 ^ 16"
  show ?case
  proof (cases "db_catalog db oid")
    case None
    then show ?thesis using Cons.prems by (simp add: stable_for_refl split: option.splits)
  next
    case (Some h)
    obtain y h' st' where app: "append_row_bytes ?meta row ?n h (db_store db) = (y, h', st')" by (metis prod_cases3)
    let ?db1 = "db\<lparr>db_store := st', db_catalog := (db_catalog db)(oid \<mapsto> h')\<rparr>"
    have hwf: "heap_wf h (db_store db)" using mvcc_invD(3) [OF inv0] Some by (auto simp: heaps_ok_def)
    have n: "?n \<le> length row" by simp
    show ?thesis
    proof (cases y)
      case (Inl e)
      have "MAX_ROW_SIZE < ?n"
        using append_row_bytes_fits [OF mvcc_invD(6) [OF inv0] hwf n, of ?meta] app Inl by (cases "MAX_ROW_SIZE < ?n") auto
      from append_row_bytes_refused [OF mvcc_invD(6) [OF inv0] hwf this, of ?meta row] app
      have "heap_extends h (db_store db) h' st'" "row_at st' = row_at (db_store db)" by auto
      moreover have "db' = ?db1" using Cons.prems(2,4) Some app Inl by simp
      ultimately show ?thesis using heap_only_step [OF Cons.prems(1) Some, of h' st' db'] by blast
    next
      case (Inr rid)
      let ?t' = "append_write_set oid rid t" and ?db2 = "put_txn tid (append_write_set oid rid t) ?db1"
      note ins = insert_row_inv [OF inv0 Cons.prems(2,3) Some n app [unfolded Inr] refl]
      have tw: "write_set_wf t" using mvcc_invD(7) [OF inv0 Cons.prems(2)] by (simp add: txn_ok_def)
      have w: "writes ?t' = insert rid (writes t)" using set_written_append [OF tw, of oid rid] by (simp add: writes_def)
      have inv2: "db_inv ?db2"
        by (rule rewrite_step(1) [OF Cons.prems(1) ins(1) Cons.prems(2,3) ins(3) w ins(2)]) (use ins(4,6) in auto)
      have st2: "i \<noteq> tid \<Longrightarrow> stable_for i db ?db2"
        by (rule rewrite_step(2) [OF Cons.prems(1) ins(1) Cons.prems(2,3) ins(3) w ins(2)]) (use ins(4,6) in auto)
      obtain z db3 where rest: "mvcc_insert tid oid rows ?db2 = (z, db3)" by force
      have "db' = db3" using Cons.prems(2,4) Some app Inr rest by (auto split: sum.splits)
      moreover have "txn_live ?t'" using txn_grows_live [OF ins(3)] Cons.prems(3) by simp
      ultimately show ?thesis
        using Cons.IH [OF inv2 _ _ rest] st2 stable_for_trans by (auto simp: find_txn_put)
    qed
  qed
qed

lemma txn_only_step:
  assumes inv: "db_inv db" and t: "find_txn db tid = Some t" and gr: "txn_grows t t'"
    and wr: "written t' = written t" "write_set_wf t'"
    and logs: "\<forall>u \<in> set (undo_logs t'). 0 \<le> ul_ts u \<and> ul_ts u \<le> read_ts t \<and> length (ul_row u) \<le> PAGE_SIZE"
  shows "db_inv (put_txn tid t' db)" "stable_for i db (put_txn tid t' db)"
proof -
  note inv0 = db_invD(1) [OF inv]
  have inv': "mvcc_inv None (put_txn tid t' db)"
    by (rule mvcc_inv_put_txn(1) [OF inv0 t gr _ wr(2) logs]) (simp add: wr)
  have "owned (put_txn tid t' db) u" if "find_txn (put_txn tid t' db) j = Some u" "txn_live u" for j u
    using that t db_invD(2) [OF inv] gr wr(1) by (cases "j = tid") (auto simp: owned_def writes_def txn_grows_def)
  then show "db_inv (put_txn tid t' db)" using inv' by (simp add: db_inv_def)
  show "stable_for i db (put_txn tid t' db)"
    by (rule stable_forI [OF inv0 inv'])
      (use t gr wr(1) snap_put_txn [OF inv0 t gr] in \<open>auto simp: txn_grows_def db_watermark_def split: if_splits\<close>)
qed

lemma abort_step:
  assumes inv: "db_inv db" and res: "abort_txn tid db = (Inr (), db')"
  shows "db_inv db'" "stable_for i db db'"
proof -
  note inv0 = db_invD(1) [OF inv]
  obtain t where t: "find_txn db tid = Some t" using res by (cases "find_txn db tid") (auto simp: abort_txn_def)
  have "db_inv db' \<and> stable_for i db db'"
  proof (cases "txn_live t")
    case False
    then have "db' = db" using res t by (auto simp: abort_txn_def txn_live_def split: if_splits)
    then show ?thesis using inv by (simp add: stable_for_refl)
  next
    case True
    have own: "owned db t" by (rule db_invD(2) [OF inv t True])
    note a = abort_txn_ok [OF inv0 t True own res]
    have tid: "txn_id t = tid" "TXN_START_ID \<le> tid" using mvcc_invD(7) [OF inv0 t] by (auto simp: txn_ok_def)
    have last: "last_commit_ts db < TXN_START_ID" using mvcc_invD(1) [OF inv0] by (simp add: clock_ok_def)
    have dead: "\<not> txn_live (t\<lparr>txn_state := ABORTED\<rparr>)" by simp
    have "owned db' u" if u: "find_txn db' j = Some u" "txn_live u" for j u
    proof -
      have j: "j \<noteq> tid" "find_txn db j = Some u" using u a dead by (auto split: if_splits)
      have "r \<notin> writes t" if "r \<in> writes u" for r
      proof
        assume "r \<in> writes t"
        with own tid obtain m b where at: "row_at (db_store db) r = Some (m, b)" "ts m = tid" by (auto simp: owned_def)
        then show False using owned_other [OF inv j(2) u(2) that at(1)] j(1) by simp
      qed
      then show ?thesis using db_invD(2) [OF inv j(2) u(2)] a by (auto simp: owned_def)
    qed
    then have "db_inv db'" using a by (simp add: db_inv_def)
    moreover have "stable_for i db db'"
    proof (rule stable_forI [OF inv0])
      fix r x assume i: "TXN_START_ID \<le> i" and live: "\<exists>t'. find_txn db' i = Some t' \<and> txn_live t'" and x: "row_at (db_store db') r = x" "x \<noteq> row_at (db_store db) r"
      then have w: "r \<in> writes t" using a by auto
      obtain m b where m: "row_at (db_store db) r = Some (m, b)" "ts m = tid" using own w tid by (auto simp: owned_def)
      obtain m' b' where m': "row_at (db_store db') r = Some (m', b')" "ts m' \<le> last_commit_ts db" using a w by blast
      show "(\<forall>m b. x = Some (m, b) \<longrightarrow> ts m \<noteq> i) \<and> (\<forall>m b. row_at (db_store db) r = Some (m, b) \<longrightarrow> ts m \<noteq> i)"
        using m m' last live a dead i x(1) by (cases "i = tid") auto
    qed (use a dead in \<open>auto split: if_splits\<close>)
    ultimately show ?thesis by blast
  qed
  then show "db_inv db'" "stable_for i db db'" by auto
qed

lemma begin_step:
  assumes inv: "db_inv db" and res: "begin_shared level now db = (x, db')"
  shows "db_inv db'" "stable_for i db db'"
proof -
  note inv0 = db_invD(1) [OF inv]
  let ?tid = "next_txn_id db" and ?t = "(txn_new (next_txn_id db) level now)\<lparr>read_ts := last_commit_ts db\<rparr>"
  from begin_inv [OF inv0, of level now] res obtain w where b: "mvcc_inv None db'"
    "hist_le {} (hist_of None db) (hist_of None db')" "db_watermark db' = db_watermark db" "find_txn db ?tid = None"
    "db' = db\<lparr>next_txn_id := ?tid + 1, txn_map := txn_map db @ [(?tid, ?t)], running_txns := w\<rparr>" by auto
  have eq: "db_store db' = db_store db" "get_undo_link db' = get_undo_link db" "next_txn_id db' = ?tid + 1"
    by (simp_all add: b(5) get_undo_link_def fun_eq_iff)
  have f: "find_txn db' j = (if j = ?tid then Some ?t else find_txn db j)" for j
    using b(4) by (simp add: b(5) find_txn_def map_add_def split: option.split)
  have "owned db' u" if "find_txn db' j = Some u" "txn_live u" for j u
  proof (cases "j = ?tid")
    case True
    then show ?thesis using that f by (auto simp: owned_def writes_def written_def txn_new_def)
  next
    case False
    then show ?thesis using that f db_invD(2) [OF inv] eq by (auto simp: owned_def)
  qed
  then show "db_inv db'" using b(1) by (simp add: db_inv_def)
  have "snap db' s r = snap db s r" if "db_watermark db' \<le> s" for s r
    using snap_frame [OF inv0 b(2), of r s] that eq by auto
  then show "stable_for i db db'"
    by (intro stable_forI [OF inv0 b(1)]) (use f eq in auto)
qed

lemma commit_stamped_step:
  assumes inv: "db_inv db" and t: "find_txn db tid = Some t" "txn_live t" and c: "last_commit_ts db + 1 < TXN_START_ID"
    and res: "commit_stamped tid t db = (x, db')"
  shows "db_inv db'" "stable_for i db db'"
proof -
  note inv0 = db_invD(1) [OF inv]
  have own: "owned db t" by (rule db_invD(2) [OF inv t])
  let ?t' = "t\<lparr>commit_ts := last_commit_ts db + 1, txn_state := COMMITTED\<rparr>"
  let ?stamp = "map_option (\<lambda>(m, b). (m\<lparr>ts := last_commit_ts db + 1\<rparr>, b :: row))"
  from commit_stamped_ok [OF inv0 t own c] res have m: "mvcc_inv None db'"
    "find_txn db' = (find_txn db)(tid \<mapsto> ?t')" "next_txn_id db' = next_txn_id db"
    "row_at (db_store db') = (\<lambda>r. if r \<in> writes t then ?stamp (row_at (db_store db) r) else row_at (db_store db) r)"
    "\<forall>s r. db_watermark db' \<le> s \<longrightarrow> s \<le> last_commit_ts db \<longrightarrow> snap db' s r = snap db s r" by auto
  have tid: "txn_id t = tid" "TXN_START_ID \<le> tid" using mvcc_invD(7) [OF inv0 t(1)] by (auto simp: txn_ok_def)
  have dead: "\<not> txn_live ?t'" by simp
  have "owned db' u" if u: "find_txn db' j = Some u" "txn_live u" for j u
  proof -
    have j: "j \<noteq> tid" "find_txn db j = Some u" using u m(2) dead by (auto split: if_splits)
    have "r \<notin> writes t" if "r \<in> writes u" for r
    proof
      assume "r \<in> writes t"
      with own tid obtain m b where at: "row_at (db_store db) r = Some (m, b)" "ts m = tid" by (auto simp: owned_def)
      then show False using owned_other [OF inv j(2) u(2) that at(1)] j(1) by simp
    qed
    then show ?thesis using db_invD(2) [OF inv j(2) u(2)] m(4) by (auto simp: owned_def)
  qed
  then show "db_inv db'" using m(1) by (simp add: db_inv_def)
  show "stable_for i db db'"
  proof (rule stable_forI [OF inv0 m(1)])
    fix r x assume i: "TXN_START_ID \<le> i" and live: "\<exists>t'. find_txn db' i = Some t' \<and> txn_live t'"
      and x: "row_at (db_store db') r = x" "x \<noteq> row_at (db_store db) r"
    then have w: "r \<in> writes t" using m(4) by (auto split: if_splits)
    obtain m0 b where m0: "row_at (db_store db) r = Some (m0, b)" "ts m0 = tid" using own w tid by (auto simp: owned_def)
    then have "row_at (db_store db') r = Some (m0\<lparr>ts := last_commit_ts db + 1\<rparr>, b)" using m(4) w by simp
    moreover have "i \<noteq> tid" using live m(2) dead by auto
    ultimately show "(\<forall>m b. x = Some (m, b) \<longrightarrow> ts m \<noteq> i) \<and> (\<forall>m b. row_at (db_store db) r = Some (m, b) \<longrightarrow> ts m \<noteq> i)"
      using m0 x(1) i c by auto
  qed (use m dead in \<open>auto split: if_splits\<close>)
qed

text \<open>The rollback of the transaction does not fail to put a pre-image back.\<close>

definition can_abort :: "int \<Rightarrow> db \<Rightarrow> bool" where
  "can_abort tid db \<longleftrightarrow> \<not> isl (fst (abort_txn tid db))"

lemma can_abortD: "can_abort tid db \<Longrightarrow> \<exists>db'. abort_txn tid db = (Inr (), db')"
  by (cases "abort_txn tid db"; cases "fst (abort_txn tid db)") (auto simp: can_abort_def)

lemma commit_outcomes:
  assumes t: "find_txn db tid = Some t" and ca: "isl x \<Longrightarrow> can_abort tid db" and res: "commit_txn tid db = Some (x, db')"
  shows "abort_txn tid db = (Inr (), db') \<or> db' = db \<or> (\<exists>y. commit_stamped tid t db = (y, db'))"
proof (cases x)
  case (Inl e)
  then obtain dba where "abort_txn tid db = (Inr (), dba)" using can_abortD ca by auto
  then show ?thesis using res t
    by (auto simp: commit_txn_def abort_and_refuse_def split: if_splits option.splits sum.splits)
next
  case (Inr ok)
  then show ?thesis using res t
    by (auto simp: commit_txn_def abort_and_refuse_def split: if_splits option.splits sum.splits prod.splits)
qed

lemma commit_step:
  assumes inv: "db_inv db" and t: "find_txn db tid = Some t" "txn_live t" and c: "last_commit_ts db + 1 < TXN_START_ID"
    and ca: "isl x \<Longrightarrow> can_abort tid db" and res: "commit_txn tid db = Some (x, db')"
  shows "db_inv db'" "stable_for i db db'"
  using commit_outcomes [OF t(1) ca res] abort_step [OF inv, of tid db'] commit_stamped_step(1) [OF inv t c]
    commit_stamped_step(2) [OF inv t c, of _ db' i] inv stable_for_refl by blast+

lemma request_cancellation_grows:
  "txn_grows t (snd (request_cancellation t))" "written (snd (request_cancellation t)) = written t"
  "undo_logs (snd (request_cancellation t)) = undo_logs t" "write_set (snd (request_cancellation t)) = write_set t"
  "txn_live (snd (request_cancellation t)) = txn_live t"
  by (auto simp: request_cancellation_def txn_grows_def txn_live_def written_def)

lemma cancel_step:
  assumes inv: "db_inv db" and t: "find_txn db tid = Some t"
  shows "db_inv (put_txn tid (snd (request_cancellation t)) db)"
    "stable_for i db (put_txn tid (snd (request_cancellation t)) db)"
  using txn_only_step [OF inv t request_cancellation_grows(1,2)] mvcc_invD(7) [OF db_invD(1) [OF inv] t]
    request_cancellation_grows(3,4) [of t]
  by (auto simp: txn_ok_def write_set_wf_def)

lemma cancel_expired_step:
  assumes "db_inv db" and "cancel_expired tids n db = (Inr k, db')"
  shows "db_inv db' \<and> stable_for i db db'"
  using assms
proof (induction tids arbitrary: n db)
  case Nil
  then show ?case by (simp add: stable_for_refl)
next
  case (Cons tid tids)
  then obtain t where t: "find_txn db tid = Some t" by (auto split: option.splits)
  show ?case
  proof (cases "txn_live t")
    case False
    then show ?thesis using Cons t by simp
  next
    case True
    obtain acc t1 where rc: "request_cancellation t = (acc, t1)" by force
    let ?db1 = "put_txn tid t1 db" and ?n1 = "if acc then n + 1 else n"
    have s1: "db_inv ?db1" "stable_for i db ?db1" using cancel_step(1) [OF Cons.prems(1) t] cancel_step(2) [OF Cons.prems(1) t, of i] rc by auto
    show ?thesis
    proof (cases "active_statements t1 = 0")
      case act: True
      obtain db2 where a: "abort_txn tid ?db1 = (Inr (), db2)" "cancel_expired tids ?n1 db2 = (Inr k, db')"
        using Cons.prems(2) t True rc act by (auto split: prod.splits sum.splits)
      note s2 = abort_step(1) [OF s1(1) a(1)] abort_step(2) [OF s1(1) a(1), of i]
      from Cons.IH [OF s2(1) a(2)] show ?thesis using stable_for_trans s1(2) s2(2) by blast
    next
      case False
      then have "cancel_expired tids ?n1 ?db1 = (Inr k, db')" using Cons.prems(2) t True rc by simp
      from Cons.IH [OF s1(1) this] show ?thesis using stable_for_trans s1(2) by blast
    qed
  qed
qed

lemma sweep_step:
  assumes inv: "db_inv db" and sw: "sweep db = (k, db')"
  shows "db_inv db'" "stable_for i db db'"
proof -
  note inv0 = db_invD(1) [OF inv] and s = sweep_inv [OF db_invD(1) [OF inv] sw]
  have eq: "db_store db' = db_store db" "get_undo_link db' = get_undo_link db" "next_txn_id db' = next_txn_id db"
    using sw by (auto simp: sweep_def Let_def get_undo_link_def fun_eq_iff)
  have sub: "find_txn db j = Some u" if "find_txn db' j = Some u" for j u
    using that s(4) by (auto split: option.splits if_splits)
  have "owned db' u" if "find_txn db' j = Some u" "txn_live u" for j u
    using db_invD(2) [OF inv sub [OF that(1)] that(2)] eq(1) by (simp add: owned_def)
  then show "db_inv db'" using s(1) by (simp add: db_inv_def)
  have "snap db' s r = snap db s r" if "db_watermark db' \<le> s" for s r
    using snap_frame [OF inv0 s(2), of r s] that eq by auto
  then show "stable_for i db db'" by (intro stable_forI [OF inv0 s(1)]) (use sub eq in auto)
qed

lemma gc_step:
  assumes inv: "db_inv db" and res: "garbage_collection now db = (Inr stats, db')"
  shows "db_inv db'" "stable_for i db db'"
proof -
  obtain tids n db1 k where g: "cancel_expired tids 0 db = (Inr n, db1)" "sweep db1 = (k, db')"
    using res by (auto simp: garbage_collection_def Let_def split: prod.splits sum.splits)
  have "db_inv db1 \<and> stable_for i db db1" by (rule cancel_expired_step [OF inv g(1)])
  then show "db_inv db'" "stable_for i db db'" using sweep_step [OF _ g(2)] stable_for_trans by blast+
qed

end
