(* ===== verification/SnapshotIsolation.thy ===== *)
theory SnapshotIsolation
  imports SnapshotSteps
begin

text \<open>
  Snapshot isolation of whole runs. \<open>db_step\<close> is one call into the transaction layer, labelled with
  the transaction that makes it; \<open>db_reachable\<close> are the states that any sequence of calls reaches
  from start-up and \<open>others_run tid\<close> is any sequence of calls that transaction \<open>tid\<close> does not make.
  The properties say what a transaction reads across such runs, after its own writes, after a commit,
  after an abort, and what the collector leaves.
\<close>

section \<open>Runs of the database\<close>

text \<open>
  A database as it stands after start-up: no transaction, an empty version side-table, and tables
  whose rows carry commit timestamps up to the recovered high-water mark.
\<close>

definition db_start :: "page_store \<Rightarrow> (nat \<rightharpoonup> table_heap) \<Rightarrow> int \<Rightarrow> int \<Rightarrow> db" where
  "db_start st cat hw timeout = set_last_commit_ts hw
     \<lparr>txn_map = [], next_txn_id = TXN_START_ID, last_commit_ts = 0, running_txns = watermark_new 0,
      version_info = Map.empty, db_store = st, db_catalog = cat, txn_timeout = timeout\<rparr>"

definition start_ok :: "page_store \<Rightarrow> (nat \<rightharpoonup> table_heap) \<Rightarrow> int \<Rightarrow> bool" where
  "start_ok st cat hw \<longleftrightarrow> store_wf st \<and> 0 \<le> hw \<and> hw < TXN_START_ID \<and>
     (\<forall>oid h. cat oid = Some h \<longrightarrow> heap_wf h st) \<and>
     (\<forall>o1 o2 h1 h2. o1 \<noteq> o2 \<longrightarrow> cat o1 = Some h1 \<longrightarrow> cat o2 = Some h2 \<longrightarrow>
        set (page_directory h1) \<inter> set (page_directory h2) = {}) \<and>
     (\<forall>r m b. row_at st r = Some (m, b) \<longrightarrow> 0 \<le> ts m \<and> ts m \<le> hw)"

text \<open>
  One call into the transaction layer, labelled with the transaction that made it (\<^const>\<open>None\<close> for a
  begin and for the collector). A call that writes a row names an existing table and a record id of
  one of its pages. Aborts that fail to restore a pre-image are left out: they do not return.
\<close>

inductive db_step :: "int option \<Rightarrow> db \<Rightarrow> db \<Rightarrow> bool" where
  step_begin: "begin_shared level now db = (x, db') \<Longrightarrow> db_step None db db'"
| step_insert: "find_txn db tid = Some t \<Longrightarrow> txn_live t \<Longrightarrow> mvcc_insert tid oid rows db = (x, db') \<Longrightarrow>
    db_step (Some tid) db db'"
| step_modify: "find_txn db tid = Some t \<Longrightarrow> txn_live t \<Longrightarrow> db_catalog db oid = Some h \<Longrightarrow>
    fst r \<in> set (page_directory h) \<Longrightarrow> snd r < 65536 \<Longrightarrow> n \<le> length row \<Longrightarrow> n < 65536 \<Longrightarrow>
    apply_mvcc_modify tid oid r del row n db = (x', db') \<Longrightarrow> db_step (Some tid) db db'"
| step_record_scan: "find_txn db tid = Some t \<Longrightarrow> db_step (Some tid) db (put_txn tid (append_scan_predicate oid pred t) db)"
| step_enter: "find_txn db tid = Some t \<Longrightarrow> db_step (Some tid) db (put_txn tid (snd (enter_statement t)) db)"
| step_leave: "find_txn db tid = Some t \<Longrightarrow> db_step (Some tid) db (put_txn tid (leave_statement t) db)"
| step_commit: "find_txn db tid = Some t \<Longrightarrow> txn_live t \<Longrightarrow> last_commit_ts db + 1 < TXN_START_ID \<Longrightarrow>
    \<not> isl y \<or> can_abort tid db \<Longrightarrow> commit_txn tid db = Some (y, db') \<Longrightarrow> db_step (Some tid) db db'"
| step_abort: "abort_txn tid db = (Inr (), db') \<Longrightarrow> db_step (Some tid) db db'"
| step_collect: "garbage_collection now db = (Inr stats, db') \<Longrightarrow> db_step None db db'"

inductive db_reachable :: "db \<Rightarrow> bool" where
  reach_start: "start_ok st cat hw \<Longrightarrow> db_reachable (db_start st cat hw timeout)"
| reach_step: "db_reachable db \<Longrightarrow> db_step a db db' \<Longrightarrow> db_reachable db'"

text \<open>Any sequence of calls none of which is made by transaction \<open>tid\<close>.\<close>

inductive others_run :: "int \<Rightarrow> db \<Rightarrow> db \<Rightarrow> bool" for tid where
  others_refl: "others_run tid db db"
| others_step: "others_run tid db db1 \<Longrightarrow> db_step a db1 db2 \<Longrightarrow> a \<noteq> Some tid \<Longrightarrow> others_run tid db db2"

lemma start_inv:
  assumes "start_ok st cat hw"
  shows "db_inv (db_start st cat hw timeout)"
proof -
  let ?db = "db_start st cat hw timeout"
  have sel: "txn_map ?db = []" "next_txn_id ?db = TXN_START_ID" "last_commit_ts ?db = hw" "db_store ?db = st"
    "db_catalog ?db = cat" "get_undo_link ?db r = None" "find_txn ?db i = None"
    "running_txns ?db = update_commit_ts hw (watermark_new 0)" for r i
    by (simp_all add: db_start_def set_last_commit_ts_def get_undo_link_def find_txn_def)
  have "clock_ok ?db" using assms by (simp add: clock_ok_def sel start_ok_def)
  moreover have "wm_ok ?db" by (simp add: wm_ok_def sel live_mset_def)
  moreover have "heaps_ok ?db" using assms by (auto simp: heaps_ok_def sel start_ok_def)
  moreover have "row_ok None ?db r m" if "row_at st r = Some (m, b)" for r m b
  proof -
    have "0 \<le> ts m \<and> ts m \<le> hw" using assms that unfolding start_ok_def by blast
    then show ?thesis by (simp add: row_ok_def sel chain.chain_none)
  qed
  ultimately show ?thesis by (auto simp: db_inv_def mvcc_inv_def links_ok_def pend_ok_def sel)
qed

lemma txn_meta_step:
  assumes inv: "db_inv db" and t: "find_txn db tid = Some t"
    and t': "txn_state t' = txn_state t" "read_ts t' = read_ts t" "commit_ts t' = commit_ts t" "txn_id t' = txn_id t"
      "undo_logs t' = undo_logs t" "write_set t' = write_set t"
  shows "db_inv (put_txn tid t' db)" "stable_for i db (put_txn tid t' db)"
proof -
  have w: "written t' = written t" "write_set_wf t' = write_set_wf t" using t' by (simp_all add: written_def write_set_wf_def)
  have g: "txn_grows t t'" using t' w by (simp add: txn_grows_def txn_live_def)
  show "db_inv (put_txn tid t' db)" "stable_for i db (put_txn tid t' db)"
    using txn_only_step [OF inv t g w(1)] mvcc_invD(7) [OF db_invD(1) [OF inv] t] w t' by (auto simp: txn_ok_def)
qed

lemma db_step_inv:
  assumes "db_step a db db'" and "db_inv db"
  shows "db_inv db' \<and> (a \<noteq> Some i \<longrightarrow> stable_for i db db')"
  using assms
proof (induction rule: db_step.induct)
  case (step_modify db tid t oid h r n row del x' db')
  then show ?case using modify_step [OF step_modify.prems step_modify(1-8)] by auto
next
  case (step_record_scan db tid t oid pred)
  then show ?case
    using txn_meta_step [OF step_record_scan(2,1), where t' = "append_scan_predicate oid pred t"]
    by (simp add: append_scan_predicate_def Let_def)
next
  case (step_enter db tid t)
  then show ?case using txn_meta_step [OF step_enter(2,1), where t' = "snd (enter_statement t)"]
    by (auto simp: enter_statement_def leave_statement_def Let_def)
next
  case (step_leave db tid t)
  then show ?case using txn_meta_step [OF step_leave(2,1), where t' = "leave_statement t"] by (simp add: leave_statement_def)
next
  case (step_insert db tid t oid rows x db')
  then show ?case using insert_step [OF step_insert(4,1,2,3), of i] by auto
next
  case (step_commit db tid t y db')
  then show ?case using commit_step [OF step_commit(6,1-3) _ step_commit(5)] by auto
next
  case (step_begin level now db x db')
  then show ?case using begin_step [OF step_begin(2,1)] by auto
next
  case (step_abort tid db db')
  then show ?case using abort_step [OF step_abort(2,1)] by auto
next
  case (step_collect now db stats db')
  then show ?case using gc_step [OF step_collect(2,1)] by auto
qed

lemma reachable_inv: "db_reachable db \<Longrightarrow> db_inv db"
  by (induction rule: db_reachable.induct) (auto intro: start_inv dest: db_step_inv)

lemma others_run_stable:
  assumes "others_run tid db db'" and "db_inv db"
  shows "db_inv db' \<and> stable_for tid db db'"
  using assms
proof (induction rule: others_run.induct)
  case (others_step db db1 a db2)
  then show ?case using db_step_inv [OF others_step(2), of tid] stable_for_trans by blast
qed (simp add: stable_for_refl)

section \<open>Effects of the calls\<close>

lemma begin_effect:
  assumes "db_inv db"
  obtains db' t where "begin_shared level now db = (Inr (next_txn_id db), db')"
    "t = (txn_new (next_txn_id db) level now)\<lparr>read_ts := last_commit_ts db\<rparr>"
    "find_txn db' = (find_txn db)(next_txn_id db \<mapsto> t)" "db_store db' = db_store db" "db_catalog db' = db_catalog db"
    "get_undo_link db' = get_undo_link db" "last_commit_ts db' = last_commit_ts db" "next_txn_id db' = next_txn_id db + 1"
    "\<And>r. snap db' (last_commit_ts db) r = snap db (last_commit_ts db) r"
proof -
  note inv0 = db_invD(1) [OF assms]
  let ?tid = "next_txn_id db" and ?t = "(txn_new (next_txn_id db) level now)\<lparr>read_ts := last_commit_ts db\<rparr>"
  from begin_inv [OF inv0, of level now] obtain w db' where b: "begin_shared level now db = (Inr ?tid, db')"
    "hist_le {} (hist_of None db) (hist_of None db')" "db_watermark db' = db_watermark db" "find_txn db ?tid = None"
    "db' = db\<lparr>next_txn_id := ?tid + 1, txn_map := txn_map db @ [(?tid, ?t)], running_txns := w\<rparr>" by auto
  have f: "find_txn db' = (find_txn db)(?tid \<mapsto> ?t)"
    using b(4) by (auto simp: b(5) find_txn_def map_add_def fun_eq_iff split: option.split)
  have eq: "db_store db' = db_store db" "db_catalog db' = db_catalog db" "get_undo_link db' = get_undo_link db"
    "last_commit_ts db' = last_commit_ts db" "next_txn_id db' = ?tid + 1"
    by (simp_all add: b(5) get_undo_link_def fun_eq_iff)
  have "snap db' (last_commit_ts db) r = snap db (last_commit_ts db) r" for r
    using snap_frame [OF inv0 b(2), of r "last_commit_ts db"] wm_bounds(2) [OF inv0] b(3) eq by auto
  with that [OF b(1) refl f eq] show ?thesis by blast
qed

text \<open>A transaction that has just begun sees the last committed snapshot.\<close>

lemma fresh_view:
  assumes "db_inv db" and t: "find_txn db tid = Some t" and "read_ts t = last_commit_ts db" and w: "written t = []"
    and live: "txn_live t"
  shows "view db t r = snap db (last_commit_ts db) r"
proof -
  note inv0 = db_invD(1) [OF assms(1)]
  have "ts m \<noteq> txn_id t" if at: "row_at (db_store db) r = Some (m, b)" for m b
  proof
    assume eq: "ts m = txn_id t"
    have tid: "txn_id t = tid" "TXN_START_ID \<le> tid" using mvcc_invD(7) [OF inv0 t] by (auto simp: txn_ok_def)
    have lt: "last_commit_ts db < tid" using mvcc_invD(1) [OF inv0] tid by (simp add: clock_ok_def)
    then obtain i u where u: "find_txn db i = Some u" "r \<in> writes u" "owns_ts None i u tid"
      using mvcc_invD(8) [OF inv0 at] eq tid by (auto simp: row_ok_def has_owner_def)
    then have "i = tid" using mvcc_invD(7) [OF inv0 u(1)] lt by (auto simp: owns_ts_def txn_ok_def)
    then show False using u t w by (simp add: writes_def)
  qed
  then show ?thesis using assms(3) by (auto simp: view_def snap_def split: option.split)
qed

lemma insert_one:
  assumes inv: "db_inv db" and t: "find_txn db tid = Some t" "txn_live t" and h: "db_catalog db oid = Some h"
    and len: "length row \<le> MAX_ROW_SIZE"
  obtains rid db' h' where "mvcc_insert tid oid [row] db = (Inr [rid], db')" "row_at (db_store db) rid = None"
    "row_at (db_store db') = (row_at (db_store db))(rid \<mapsto> (\<lparr>ts = tid, is_deleted = False\<rparr>, row))"
    "find_txn db' = (find_txn db)(tid \<mapsto> append_write_set oid rid t)" "db_catalog db' oid = Some h'"
    "fst rid \<in> set (page_directory h')" "next_txn_id db' = next_txn_id db" "last_commit_ts db' = last_commit_ts db"
    "get_undo_link db' = (get_undo_link db)(rid := None)" "snd rid < 65536"
proof -
  note inv0 = db_invD(1) [OF inv]
  let ?meta = "\<lparr>ts = txn_id t, is_deleted = False\<rparr>" and ?n = "length row mod 2 ^ 16"
  have n: "?n = length row" using len by (simp add: MAX_ROW_SIZE_def page_consts)
  have hwf: "heap_wf h (db_store db)" using mvcc_invD(3) [OF inv0] h by (auto simp: heaps_ok_def)
  from append_row_bytes_fits [OF mvcc_invD(6) [OF inv0] hwf, of "length row" row ?meta] len obtain rid h' st' where
    app: "append_row_bytes ?meta row (length row) h (db_store db) = (Inr rid, h', st')" by auto
  let ?db' = "put_txn tid (append_write_set oid rid t) (db\<lparr>db_store := st', db_catalog := (db_catalog db)(oid \<mapsto> h')\<rparr>)"
  note ins = insert_row_inv [OF inv0 t h order_refl app refl]
  have res: "mvcc_insert tid oid [row] db = (Inr [rid], ?db')" using t h app n by simp
  have rw: "row_at (db_store ?db') = (row_at (db_store db))(rid \<mapsto> (\<lparr>ts = tid, is_deleted = False\<rparr>, row))"
    "get_undo_link ?db' = (get_undo_link db)(rid := None)" using ins(2) by (auto simp: rewrites_row_def)
  have wf': "store_wf (db_store ?db')" by (rule mvcc_invD(6) [OF ins(1)])
  have "snd rid < num_tuples (page_of (db_store ?db') (fst rid))" using rw(1)
    by (metis fun_upd_same row_at_Some)
  then have "snd rid < 65536" using page_wf_num_tuples [OF store_wf_page [OF wf'], of "fst rid"] by simp
  then show ?thesis using that [OF res ins(4) rw(1) _ _ _ _ _ rw(2)] ins(5) by simp
qed

lemma delete_one:
  assumes inv: "db_inv db" and t: "find_txn db tid = Some t" "txn_live t" and h: "db_catalog db oid = Some h"
    and r: "fst r \<in> set (page_directory h)" "row_at (db_store db) r = Some (m, b)" "ts m \<le> read_ts t" "snd r < 65536"
  obtains db' t' l where "mvcc_delete tid oid [r] db = (Inr (), db')" "apply_mvcc_modify tid oid r True [] 0 db = (Inr (), db')"
    "row_at (db_store db') = (row_at (db_store db))(r \<mapsto> (\<lparr>ts = tid, is_deleted = True\<rparr>, b))"
    "find_txn db' = (find_txn db)(tid \<mapsto> t')" "txn_grows t t'" "set (written t') = insert (oid, r) (set (written t))"
    "txn_isolation t' = txn_isolation t" "txn_state t' = txn_state t" "cancellation_requested t' = cancellation_requested t"
    "db_catalog db' = db_catalog db" "next_txn_id db' = next_txn_id db" "last_commit_ts db' = last_commit_ts db"
proof -
  note inv0 = db_invD(1) [OF inv] and at = page_rows_at [OF mvcc_invD(6) [OF db_invD(1) [OF inv]] r(2)]
  have ne: "ts m \<noteq> txn_id t" using mvcc_invD(7) [OF inv0 t(1)] mvcc_invD(1) [OF inv0] r(3)
    by (auto simp: txn_ok_def clock_ok_def)
  from update_tuple_meta_rows [OF at(4,1), of "\<lparr>ts = txn_id t, is_deleted = True\<rparr>"] at obtain p where
    p: "apply_base (txn_id t) True [] 0 (page_slot r) (db_page db r) = Inr p" 
      "page_wf p \<and> next_page_id p = next_page_id (db_page db r) \<and>
       page_rows p = (page_rows (db_page db r))[snd r := (\<lparr>ts = txn_id t, is_deleted = True\<rparr>, b)]"
    by (auto simp: apply_base_def)
  let ?t1 = "t\<lparr>undo_logs := undo_logs t @ [undo_of db r m b]\<rparr>"
  let ?db' = "put_txn tid (append_write_set oid r ?t1)
         (snd (update_undo_link r (Some \<lparr>prev_txn = txn_id t, prev_log_idx = length (undo_logs t)\<rparr>) None
           (put_db_page (fst r) p (put_txn tid ?t1 db))))"
  note eff = put_row_effect(2) [OF mvcc_invD(3) [OF inv0] r(2) p(2)]
  have ap: "apply_mvcc_modify tid oid r True [] 0 db = (Inr (), ?db')"
    using t at(5) ne r(3) p(1) by (simp add: apply_mvcc_modify_def append_undo_log_def undo_of_def Let_def)
  have tid: "txn_id t = tid" "write_set_wf t" using mvcc_invD(7) [OF inv0 t(1)] by (auto simp: txn_ok_def)
  have w: "written ?t1 = written t" "write_set_wf ?t1" using tid by (simp_all add: written_def write_set_wf_def)
  have "txn_grows t (append_write_set oid r ?t1)"
    using set_written_append [OF w(2), of oid r] w by (auto simp: txn_grows_def append_write_set_def txn_live_def Let_def)
  moreover have "set (written (append_write_set oid r ?t1)) = insert (oid, r) (set (written t))"
    using set_written_append [OF w(2), of oid r] w by simp
  moreover have "row_at (db_store ?db') = (row_at (db_store db))(r \<mapsto> (\<lparr>ts = tid, is_deleted = True\<rparr>, b))"
    using eff tid by simp
  ultimately show ?thesis using ap
    by (intro that [of ?db' "append_write_set oid r ?t1"]) (simp_all add: append_write_set_def Let_def)
qed

lemma commit_effect:
  assumes inv: "db_inv db" and t: "find_txn db tid = Some t" and r: "txn_state t = RUNNING" "\<not> cancellation_requested t"
    and v: "txn_isolation t = SERIALIZABLE \<Longrightarrow> verify_txn db tid t = Some (Inr True)"
    and c: "last_commit_ts db + 1 < TXN_START_ID"
  shows "commit_txn tid db = Some (commit_stamped tid t db)"
    "\<exists>db'. commit_stamped tid t db = (Inr True, db')"
proof -
  have live: "txn_live t" using r by (simp add: txn_live_def)
  show "commit_txn tid db = Some (commit_stamped tid t db)" using t r v by (simp add: commit_txn_def)
  show "\<exists>db'. commit_stamped tid t db = (Inr True, db')"
    using commit_stamped_ok [OF db_invD(1) [OF inv] t live db_invD(2) [OF inv t live] c] by auto
qed

section \<open>A small run\<close>

text \<open>
  One table with one committed row (\<open>demo_loaded\<close>), then a reader and a writer that both begin
  (\<open>demo_both\<close>), the writer deleting the row (\<open>demo_deleted\<close>) and committing (\<open>demo_done\<close>).
\<close>

definition demo_open :: db where
  "demo_open = snd (begin_shared SNAPSHOT_ISOLATION 0
     (db_start (snd (table_heap_new empty_store)) [1 \<mapsto> fst (table_heap_new empty_store)] 0 0))"

definition demo_inserted :: db where
  "demo_inserted = snd (mvcc_insert TXN_START_ID 1 [[7, 8]] demo_open)"

definition demo_rid :: rid where
  "demo_rid = hd (projr (fst (mvcc_insert TXN_START_ID 1 [[7, 8]] demo_open)))"

definition demo_loaded :: db where
  "demo_loaded = snd (the (commit_txn TXN_START_ID demo_inserted))"

definition demo_reader :: db where
  "demo_reader = snd (begin_shared SNAPSHOT_ISOLATION 0 demo_loaded)"

definition demo_both :: db where
  "demo_both = snd (begin_shared SNAPSHOT_ISOLATION 0 demo_reader)"

definition demo_deleted :: db where
  "demo_deleted = snd (apply_mvcc_modify (2 + TXN_START_ID) 1 demo_rid True [] 0 demo_both)"

definition demo_done :: db where
  "demo_done = snd (the (commit_txn (2 + TXN_START_ID) demo_deleted))"

lemma demo_open_facts:
  "db_reachable demo_open" "find_txn demo_open = [TXN_START_ID \<mapsto> txn_new TXN_START_ID SNAPSHOT_ISOLATION 0]"
  "row_at (db_store demo_open) = Map.empty" "last_commit_ts demo_open = 0" "next_txn_id demo_open = TXN_START_ID + 1"
  "\<exists>h. db_catalog demo_open 1 = Some h"
proof -
  obtain h st where n: "table_heap_new empty_store = (h, st)" by force
  note w = table_heap_new_wf [OF empty_store_wf n]
  have emp: "row_at st = Map.empty" unfolding w(4) by (simp add: row_at_def empty_store_def fun_eq_iff)
  let ?db = "db_start st [1 \<mapsto> h] 0 0"
  have "start_ok st [1 \<mapsto> h] 0" using w(1,2) emp by (auto simp: start_ok_def TXN_START_ID_def split: if_splits)
  then have re: "db_reachable ?db" by (rule db_reachable.reach_start)
  have sel: "find_txn ?db = Map.empty" "db_store ?db = st" "db_catalog ?db = [1 \<mapsto> h]" "last_commit_ts ?db = 0"
    "next_txn_id ?db = TXN_START_ID"
    by (auto simp: db_start_def set_last_commit_ts_def find_txn_def fun_eq_iff)
  from begin_effect [OF reachable_inv [OF re], of SNAPSHOT_ISOLATION 0] obtain db' t where
    b: "begin_shared SNAPSHOT_ISOLATION 0 ?db = (Inr TXN_START_ID, db')"
    "t = (txn_new TXN_START_ID SNAPSHOT_ISOLATION 0)\<lparr>read_ts := 0\<rparr>" "find_txn db' = [TXN_START_ID \<mapsto> t]"
    "db_store db' = st" "db_catalog db' = [1 \<mapsto> h]" "last_commit_ts db' = 0" "next_txn_id db' = TXN_START_ID + 1"
    using sel by metis
  have d: "demo_open = db'" using b(1) n by (simp add: demo_open_def)
  show "db_reachable demo_open" using db_reachable.reach_step [OF re db_step.step_begin [OF b(1)]] d by simp
  show "find_txn demo_open = [TXN_START_ID \<mapsto> txn_new TXN_START_ID SNAPSHOT_ISOLATION 0]"
    using b(2,3) d by (simp add: txn_new_def)
  show "row_at (db_store demo_open) = Map.empty" "last_commit_ts demo_open = 0" "next_txn_id demo_open = TXN_START_ID + 1"
    "\<exists>h. db_catalog demo_open 1 = Some h" using b d emp by simp_all
qed

abbreviation demo_txn :: "int \<Rightarrow> int \<Rightarrow> txn" where
  "demo_txn i s \<equiv> (txn_new i SNAPSHOT_ISOLATION 0)\<lparr>read_ts := s\<rparr>"

lemma demo_inserted_facts:
  "db_reachable demo_inserted" "snd demo_rid < 65536" "fst (mvcc_insert TXN_START_ID 1 [[7, 8]] demo_open) = Inr [demo_rid]"
  "find_txn demo_inserted = [TXN_START_ID \<mapsto> append_write_set 1 demo_rid (demo_txn TXN_START_ID 0)]"
  "row_at (db_store demo_inserted) = [demo_rid \<mapsto> (\<lparr>ts = TXN_START_ID, is_deleted = False\<rparr>, [7, 8])]"
  "get_undo_link demo_inserted demo_rid = None"
  "last_commit_ts demo_inserted = 0" "next_txn_id demo_inserted = TXN_START_ID + 1"
  "\<exists>h. db_catalog demo_inserted 1 = Some h \<and> fst demo_rid \<in> set (page_directory h)"
proof -
  note o = demo_open_facts
  let ?t = "txn_new TXN_START_ID SNAPSHOT_ISOLATION 0"
  have t: "find_txn demo_open TXN_START_ID = Some ?t" "txn_live ?t" using o(2) by (simp_all add: txn_new_def)
  have rt: "?t = demo_txn TXN_START_ID 0" by (simp add: txn_new_def)
  obtain h where h: "db_catalog demo_open 1 = Some h" using o(6) by blast
  have len: "length [7, 8 :: byte] \<le> MAX_ROW_SIZE" by (simp add: MAX_ROW_SIZE_def page_consts)
  from insert_one [OF reachable_inv [OF o(1)] t h len] obtain rid db' h' where
    i: "mvcc_insert TXN_START_ID 1 [[7, 8]] demo_open = (Inr [rid], db')"
    "row_at (db_store db') = (row_at (db_store demo_open))(rid \<mapsto> (\<lparr>ts = TXN_START_ID, is_deleted = False\<rparr>, [7, 8]))"
    "find_txn db' = (find_txn demo_open)(TXN_START_ID \<mapsto> append_write_set 1 rid ?t)" "db_catalog db' 1 = Some h'"
    "fst rid \<in> set (page_directory h')" "next_txn_id db' = next_txn_id demo_open" "last_commit_ts db' = last_commit_ts demo_open"
    "get_undo_link db' = (get_undo_link demo_open)(rid := None)" "snd rid < 65536" by metis
  have d: "demo_inserted = db'" "demo_rid = rid" using i(1) by (simp_all add: demo_inserted_def demo_rid_def)
  show "db_reachable demo_inserted"
    using db_reachable.reach_step [OF o(1) db_step.step_insert [OF t i(1)]] d by simp
  show "find_txn demo_inserted = [TXN_START_ID \<mapsto> append_write_set 1 demo_rid (demo_txn TXN_START_ID 0)]"
    using i(3) o(2) d rt by simp
  show "snd demo_rid < 65536" "fst (mvcc_insert TXN_START_ID 1 [[7, 8]] demo_open) = Inr [demo_rid]"
  "row_at (db_store demo_inserted) = [demo_rid \<mapsto> (\<lparr>ts = TXN_START_ID, is_deleted = False\<rparr>, [7, 8])]"
  "get_undo_link demo_inserted demo_rid = None"
  "last_commit_ts demo_inserted = 0" "next_txn_id demo_inserted = TXN_START_ID + 1"
  "\<exists>h. db_catalog demo_inserted 1 = Some h \<and> fst demo_rid \<in> set (page_directory h)"
    using i o d by simp_all
qed

lemma written_one: "written (append_write_set oid r (demo_txn i s)) = [(oid, r)]"
  by (simp add: written_def append_write_set_def txn_new_def Let_def)

lemma demo_loaded_facts:
  "db_reachable demo_loaded" "commit_txn TXN_START_ID demo_inserted = Some (Inr True, demo_loaded)"
  "row_at (db_store demo_loaded) = [demo_rid \<mapsto> (\<lparr>ts = 1, is_deleted = False\<rparr>, [7, 8])]"
  "find_txn demo_loaded = [TXN_START_ID \<mapsto> (append_write_set 1 demo_rid (demo_txn TXN_START_ID 0))\<lparr>commit_ts := 1, txn_state := COMMITTED\<rparr>]"
  "last_commit_ts demo_loaded = 1" "next_txn_id demo_loaded = TXN_START_ID + 1"
  "\<exists>h. db_catalog demo_loaded 1 = Some h \<and> fst demo_rid \<in> set (page_directory h)"
proof -
  note o = demo_inserted_facts
  let ?t = "append_write_set 1 demo_rid (demo_txn TXN_START_ID 0)"
  have t: "find_txn demo_inserted TXN_START_ID = Some ?t" using o(4) by simp
  have r: "txn_state ?t = RUNNING" "\<not> cancellation_requested ?t" "txn_isolation ?t = SNAPSHOT_ISOLATION"
    by (simp_all add: append_write_set_def txn_new_def Let_def)
  have live: "txn_live ?t" using r by (simp add: txn_live_def)
  have c: "last_commit_ts demo_inserted + 1 < TXN_START_ID" using o(7) by (simp add: TXN_START_ID_def)
  note inv = reachable_inv [OF o(1)]
  from commit_effect [OF inv t r(1,2) _ c] r(3) obtain db' where
    co: "commit_txn TXN_START_ID demo_inserted = Some (Inr True, db')" "commit_stamped TXN_START_ID ?t demo_inserted = (Inr True, db')" by auto
  have d: "demo_loaded = db'" using co(1) by (simp add: demo_loaded_def)
  show cm: "commit_txn TXN_START_ID demo_inserted = Some (Inr True, demo_loaded)" using co d by simp
  have "db_step (Some TXN_START_ID) demo_inserted demo_loaded" by (rule db_step.step_commit [OF t live c _ cm]) simp
  then show "db_reachable demo_loaded" by (rule db_reachable.reach_step [OF o(1)])
  have w: "writes ?t = {demo_rid}" by (simp add: writes_def written_one)
  note m = commit_stamped_ok [OF db_invD(1) [OF inv] t live db_invD(2) [OF inv t live] c]
  show "row_at (db_store demo_loaded) = [demo_rid \<mapsto> (\<lparr>ts = 1, is_deleted = False\<rparr>, [7, 8])]"
    using m co d o(5,7) w by (auto simp: fun_eq_iff)
  show "find_txn demo_loaded = [TXN_START_ID \<mapsto> ?t\<lparr>commit_ts := 1, txn_state := COMMITTED\<rparr>]"
    "last_commit_ts demo_loaded = 1" "next_txn_id demo_loaded = TXN_START_ID + 1"
    "\<exists>h. db_catalog demo_loaded 1 = Some h \<and> fst demo_rid \<in> set (page_directory h)"
    using m co d o by auto
qed

lemma demo_begin:
  assumes "db_reachable db" and "db' = snd (begin_shared SNAPSHOT_ISOLATION 0 db)"
  shows "db_reachable db'" "db_step None db db'"
    "find_txn db' = (find_txn db)(next_txn_id db \<mapsto> demo_txn (next_txn_id db) (last_commit_ts db))"
    "db_store db' = db_store db" "db_catalog db' = db_catalog db" "last_commit_ts db' = last_commit_ts db"
    "next_txn_id db' = next_txn_id db + 1"
proof -
  from begin_effect [OF reachable_inv [OF assms(1)], of SNAPSHOT_ISOLATION 0] obtain db1 where
    b: "begin_shared SNAPSHOT_ISOLATION 0 db = (Inr (next_txn_id db), db1)"
    "find_txn db1 = (find_txn db)(next_txn_id db \<mapsto> demo_txn (next_txn_id db) (last_commit_ts db))"
    "db_store db1 = db_store db" "db_catalog db1 = db_catalog db" "last_commit_ts db1 = last_commit_ts db"
    "next_txn_id db1 = next_txn_id db + 1" by metis
  have d: "db' = db1" using assms(2) b(1) by simp
  show st: "db_step None db db'" using db_step.step_begin [OF b(1)] d by simp
  show "db_reachable db'" by (rule db_reachable.reach_step [OF assms(1) st])
  show "find_txn db' = (find_txn db)(next_txn_id db \<mapsto> demo_txn (next_txn_id db) (last_commit_ts db))"
    "db_store db' = db_store db" "db_catalog db' = db_catalog db" "last_commit_ts db' = last_commit_ts db"
    "next_txn_id db' = next_txn_id db + 1" using b d by simp_all
qed

abbreviation demo_B :: int where "demo_B \<equiv> TXN_START_ID + 1"
abbreviation demo_C :: int where "demo_C \<equiv> 2 + TXN_START_ID"

lemma demo_both_facts:
  "db_reachable demo_reader" "db_reachable demo_both" "db_step None demo_reader demo_both"
  "find_txn demo_reader demo_B = Some (demo_txn demo_B 1)" 
  "find_txn demo_both demo_B = Some (demo_txn demo_B 1)" "find_txn demo_both demo_C = Some (demo_txn demo_C 1)"
  "row_at (db_store demo_both) = [demo_rid \<mapsto> (\<lparr>ts = 1, is_deleted = False\<rparr>, [7, 8])]"
  "row_at (db_store demo_reader) = [demo_rid \<mapsto> (\<lparr>ts = 1, is_deleted = False\<rparr>, [7, 8])]"
  "last_commit_ts demo_both = 1" "next_txn_id demo_both = 3 + TXN_START_ID"
  "\<exists>h. db_catalog demo_both 1 = Some h \<and> fst demo_rid \<in> set (page_directory h)"
  "last_commit_ts demo_reader = 1" "next_txn_id demo_reader = 2 + TXN_START_ID"
  "find_txn demo_both TXN_START_ID = find_txn demo_loaded TXN_START_ID"
proof -
  note o = demo_loaded_facts
  note r = demo_begin [OF o(1) demo_reader_def]
  note b = demo_begin [OF r(1) demo_both_def]
  show "db_reachable demo_reader" by (rule r(1))
  show "db_reachable demo_both" by (rule b(1))
  show "db_step None demo_reader demo_both" by (rule b(2))
  show "find_txn demo_both TXN_START_ID = find_txn demo_loaded TXN_START_ID" using b r o by simp
  show "find_txn demo_reader demo_B = Some (demo_txn demo_B 1)" using r o by simp
  show "find_txn demo_both demo_B = Some (demo_txn demo_B 1)" using b r o by simp
  show "find_txn demo_both demo_C = Some (demo_txn demo_C 1)" using b r o by simp
  show "row_at (db_store demo_both) = [demo_rid \<mapsto> (\<lparr>ts = 1, is_deleted = False\<rparr>, [7, 8])]" using b r o by simp
  show "row_at (db_store demo_reader) = [demo_rid \<mapsto> (\<lparr>ts = 1, is_deleted = False\<rparr>, [7, 8])]" using r o by simp
  show "last_commit_ts demo_both = 1" "next_txn_id demo_both = 3 + TXN_START_ID"
    "last_commit_ts demo_reader = 1" "next_txn_id demo_reader = 2 + TXN_START_ID" using b r o by simp_all
  show "\<exists>h. db_catalog demo_both 1 = Some h \<and> fst demo_rid \<in> set (page_directory h)" using b r o by simp
qed

lemma demo_live [simp]: "txn_live (demo_txn i s)" "txn_state (demo_txn i s) = RUNNING" "written (demo_txn i s) = []"
  "read_ts (demo_txn i s) = s" "txn_id (demo_txn i s) = i" "\<not> cancellation_requested (demo_txn i s)"
  "txn_isolation (demo_txn i s) = SNAPSHOT_ISOLATION"
  by (simp_all add: txn_new_def txn_live_def written_def)

lemma demo_deleted_facts:
  "db_reachable demo_deleted" "db_step (Some demo_C) demo_both demo_deleted"
  "apply_mvcc_modify demo_C 1 demo_rid True [] 0 demo_both = (Inr (), demo_deleted)"
  "find_txn demo_deleted demo_B = Some (demo_txn demo_B 1)"
  "\<exists>t. find_txn demo_deleted demo_C = Some t \<and> written t = [(1, demo_rid)] \<and> txn_live t \<and> txn_state t = RUNNING \<and>
     \<not> cancellation_requested t \<and> txn_isolation t = SNAPSHOT_ISOLATION \<and> read_ts t = 1"
  "row_at (db_store demo_deleted) = [demo_rid \<mapsto> (\<lparr>ts = demo_C, is_deleted = True\<rparr>, [7, 8])]"
  "last_commit_ts demo_deleted = 1" "next_txn_id demo_deleted = 3 + TXN_START_ID"
  "find_txn demo_deleted TXN_START_ID = find_txn demo_loaded TXN_START_ID"
proof -
  note o = demo_both_facts
  obtain h where h: "db_catalog demo_both 1 = Some h" "fst demo_rid \<in> set (page_directory h)" using o(11) by blast
  have at: "row_at (db_store demo_both) demo_rid = Some (\<lparr>ts = 1, is_deleted = False\<rparr>, [7, 8])" using o(7) by simp
  note inv = reachable_inv [OF o(2)]
  have old: "ts \<lparr>ts = 1, is_deleted = False\<rparr> \<le> read_ts (demo_txn demo_C 1)" by simp
  from delete_one [OF inv o(6) demo_live(1) h at old demo_inserted_facts(2)] obtain db' t' where
    d: "apply_mvcc_modify demo_C 1 demo_rid True [] 0 demo_both = (Inr (), db')"
    "row_at (db_store db') = (row_at (db_store demo_both))(demo_rid \<mapsto> (\<lparr>ts = demo_C, is_deleted = True\<rparr>, [7, 8]))"
    "find_txn db' = (find_txn demo_both)(demo_C \<mapsto> t')" "txn_grows (demo_txn demo_C 1) t'"
    "set (written t') = insert (1, demo_rid) (set (written (demo_txn demo_C 1)))"
    "txn_isolation t' = txn_isolation (demo_txn demo_C 1)" "txn_state t' = txn_state (demo_txn demo_C 1)"
    "cancellation_requested t' = cancellation_requested (demo_txn demo_C 1)"
    "next_txn_id db' = next_txn_id demo_both" "last_commit_ts db' = last_commit_ts demo_both" by metis
  have e: "demo_deleted = db'" using d(1) by (simp add: demo_deleted_def)
  show res: "apply_mvcc_modify demo_C 1 demo_rid True [] 0 demo_both = (Inr (), demo_deleted)" using d e by simp
  show st: "db_step (Some demo_C) demo_both demo_deleted"
    by (rule db_step.step_modify [OF o(6) demo_live(1) h demo_inserted_facts(2) _ _ res]) simp_all
  show re: "db_reachable demo_deleted" by (rule db_reachable.reach_step [OF o(2) st])
  have f: "find_txn demo_deleted demo_C = Some t'" using d e by simp
  have "distinct (written t')"
    using mvcc_invD(7) [OF db_invD(1) [OF reachable_inv [OF re]] f] by (auto simp: txn_ok_def intro: distinct_written)
  then have "written t' = [(1, demo_rid)]" using d(5) by (cases "written t'") (auto simp: subset_singleton_iff)
  then show "\<exists>t. find_txn demo_deleted demo_C = Some t \<and> written t = [(1, demo_rid)] \<and> txn_live t \<and> txn_state t = RUNNING \<and>
     \<not> cancellation_requested t \<and> txn_isolation t = SNAPSHOT_ISOLATION \<and> read_ts t = 1"
    using f d(4,6,7,8) by (simp add: txn_grows_def)
  show "find_txn demo_deleted demo_B = Some (demo_txn demo_B 1)"
    "row_at (db_store demo_deleted) = [demo_rid \<mapsto> (\<lparr>ts = demo_C, is_deleted = True\<rparr>, [7, 8])]"
    "last_commit_ts demo_deleted = 1" "next_txn_id demo_deleted = 3 + TXN_START_ID"
    "find_txn demo_deleted TXN_START_ID = find_txn demo_loaded TXN_START_ID" using d e o by simp_all
qed

lemma demo_done_facts:
  "db_reachable demo_done" "db_step (Some demo_C) demo_deleted demo_done"
  "commit_txn demo_C demo_deleted = Some (Inr True, demo_done)"
  "find_txn demo_done demo_B = Some (demo_txn demo_B 1)"
  "\<exists>t. find_txn demo_done demo_C = Some t \<and> written t = [(1, demo_rid)] \<and> txn_state t = COMMITTED \<and> commit_ts t = 2 \<and> read_ts t = 1"
  "row_at (db_store demo_done) = [demo_rid \<mapsto> (\<lparr>ts = 2, is_deleted = True\<rparr>, [7, 8])]"
  "last_commit_ts demo_done = 2" "next_txn_id demo_done = 3 + TXN_START_ID"
  "find_txn demo_done TXN_START_ID = find_txn demo_loaded TXN_START_ID"
proof -
  note o = demo_deleted_facts
  obtain t where t: "find_txn demo_deleted demo_C = Some t" "written t = [(1, demo_rid)]" "txn_live t" "txn_state t = RUNNING"
    "\<not> cancellation_requested t" "txn_isolation t = SNAPSHOT_ISOLATION" "read_ts t = 1" using o(5) by blast
  have c: "last_commit_ts demo_deleted + 1 < TXN_START_ID" using o(7) by (simp add: TXN_START_ID_def)
  note inv = reachable_inv [OF o(1)]
  from commit_effect [OF inv t(1,4,5) _ c] t(6) obtain db' where
    co: "commit_txn demo_C demo_deleted = Some (Inr True, db')" "commit_stamped demo_C t demo_deleted = (Inr True, db')" by auto
  have d: "demo_done = db'" using co(1) by (simp add: demo_done_def)
  show cm: "commit_txn demo_C demo_deleted = Some (Inr True, demo_done)" using co d by simp
  show st: "db_step (Some demo_C) demo_deleted demo_done" by (rule db_step.step_commit [OF t(1,3) c _ cm]) simp
  then show "db_reachable demo_done" by (rule db_reachable.reach_step [OF o(1)])
  have w: "writes t = {demo_rid}" using t(2) by (simp add: writes_def)
  note m = commit_stamped_ok [OF db_invD(1) [OF inv] t(1,3) db_invD(2) [OF inv t(1,3)] c]
  show "row_at (db_store demo_done) = [demo_rid \<mapsto> (\<lparr>ts = 2, is_deleted = True\<rparr>, [7, 8])]"
    using m co d o(6,7) w by (auto simp: fun_eq_iff)
  show "find_txn demo_done demo_B = Some (demo_txn demo_B 1)"
    "\<exists>t. find_txn demo_done demo_C = Some t \<and> written t = [(1, demo_rid)] \<and> txn_state t = COMMITTED \<and> commit_ts t = 2 \<and> read_ts t = 1"
    "last_commit_ts demo_done = 2" "next_txn_id demo_done = 3 + TXN_START_ID"
    "find_txn demo_done TXN_START_ID = find_txn demo_loaded TXN_START_ID"
    using m co d o t by (auto simp: written_def)
qed

lemma demo_others:
  "others_run demo_B demo_reader demo_done"
proof -
  have "others_run demo_B demo_reader demo_both"
    by (rule others_run.others_step [OF others_run.others_refl demo_both_facts(3)]) simp
  then have "others_run demo_B demo_reader demo_deleted"
    by (rule others_run.others_step [OF _ demo_deleted_facts(2)]) simp
  then show ?thesis by (rule others_run.others_step [OF _ demo_done_facts(2)]) simp
qed

lemma collect_existing:
  assumes "db_inv db" and "row_at (db_store db) r \<noteq> None"
  shows "collect_visible_version db t r = map_option Inr (view db t r)"
proof -
  obtain m b where "row_at (db_store db) r = Some (m, b)" using assms(2) by force
  from collect_view [OF mvcc_invD(6) [OF db_invD(1) [OF assms(1)]] this] show ?thesis .
qed

lemma begin_snapshot:
  assumes inv: "db_inv db" and b: "begin_shared level now db = (Inr n, db')" and t: "find_txn db' n = Some t"
    and r: "row_at (db_store db) r \<noteq> None"
  shows "collect_visible_version db' t r = map_option Inr (snap db (last_commit_ts db) r)"
proof -
  have inv': "db_inv db'" by (rule begin_step(1) [OF inv b])
  obtain db1 t1 where e: "begin_shared level now db = (Inr (next_txn_id db), db1)"
    "t1 = (txn_new (next_txn_id db) level now)\<lparr>read_ts := last_commit_ts db\<rparr>"
    "find_txn db1 = (find_txn db)(next_txn_id db \<mapsto> t1)" "db_store db1 = db_store db"
    "last_commit_ts db1 = last_commit_ts db" "\<And>r. snap db1 (last_commit_ts db) r = snap db (last_commit_ts db) r"
    using begin_effect [OF inv, of level now] by metis
  have d: "db1 = db'" "n = next_txn_id db" "t = t1" using e(1,3) b t by auto
  have w: "written t = []" "txn_live t" "read_ts t = last_commit_ts db'"
    using d e(2,5) by (simp_all add: written_def txn_new_def txn_live_def)
  have "view db' t r = snap db (last_commit_ts db) r" using fresh_view [OF inv' t w(3,1,2)] d e by simp
  moreover have "row_at (db_store db') r \<noteq> None" using r d e(4) by simp
  ultimately show ?thesis using collect_existing [OF inv'] by simp
qed

lemma commit_True:
  assumes "commit_txn tid db = Some (Inr True, db')" and "find_txn db tid = Some t"
  shows "commit_stamped tid t db = (Inr True, db')" "txn_live t"
  using assms by (auto simp: commit_txn_def abort_and_refuse_def txn_live_def split: if_splits option.splits sum.splits prod.splits)

section \<open>Properties\<close>



text \<open>
  (C9) Read your own writes. After a successful update or delete of a row the transaction reads the
  new value there (nothing after a delete) and what it read before everywhere else.
\<close>

theorem read_own_writes:
  assumes "db_reachable db" and t: "find_txn db tid = Some t" "txn_live t"
    and h: "db_catalog db oid = Some h" "fst r \<in> set (page_directory h)" and "snd r < 65536"
    and n: "n \<le> length row" "n < 65536" and res: "apply_mvcc_modify tid oid r del row n db = (Inr (), db')"
    and x: "row_at (db_store db') x \<noteq> None"
  shows "collect_visible_version db' (the (find_txn db' tid)) x =
     (if x = r then Some (Inr (if del then None else Some (take n row))) else collect_visible_version db t x)"
proof -
  note inv = reachable_inv [OF assms(1)]
  note inv0 = db_invD(1) [OF inv]
  note m = apply_mvcc_modify_inv [OF inv0 t h assms(6) n res]
  from m obtain t' b' l where mm: "txn_grows t t'" "rewrites_row tid t' r \<lparr>ts = tid, is_deleted = del\<rparr> b' l db db'"
    "del \<or> b' = take n row" using t by (auto simp: modifies_def)
  have f: "find_txn db' tid = Some t'" using find_txn_rewrites [OF mm(2)] by simp
  have rows: "row_at (db_store db') = (row_at (db_store db))(r \<mapsto> (\<lparr>ts = tid, is_deleted = del\<rparr>, b'))"
    and eq: "running_txns db' = running_txns db" using mm(2) by (auto simp: rewrites_row_def)
  have ids: "txn_id t' = tid" "txn_id t = tid" "read_ts t' = read_ts t" "read_ts t \<le> last_commit_ts db"
    using mvcc_invD(7) [OF inv0 t(1)] mm(1) by (auto simp: txn_ok_def txn_grows_def)
  have "view db' t' x = (if x = r then Some (if del then None else Some (take n row)) else view db t x)"
  proof (cases "x = r")
    case True
    then show ?thesis using rows ids mm(3) by (auto simp: view_def own_value_def)
  next
    case False
    have "snap db' (read_ts t) x = snap db (read_ts t) x" using m wm_bounds(3) [OF inv0 t] ids by blast
    then show ?thesis using False rows ids by (auto simp: view_def own_value_def split: option.split)
  qed
  moreover have "collect_visible_version db' t' x = map_option Inr (view db' t' x)"
    by (rule collect_existing [OF modify_step(1) [OF inv t h assms(6) n res] x])
  moreover have "x \<noteq> r \<Longrightarrow> collect_visible_version db t x = map_option Inr (view db t x)"
    by (rule collect_existing [OF inv]) (use x rows in simp)
  ultimately show ?thesis using f by simp
qed

theorem read_own_writes_witness:
  "apply_mvcc_modify (2 + TXN_START_ID) 1 demo_rid True [] 0 demo_both = (Inr (), demo_deleted) \<and>
   collect_visible_version demo_deleted (the (find_txn demo_deleted (2 + TXN_START_ID))) demo_rid = Some (Inr None)"
proof -
  note o = demo_both_facts and d = demo_deleted_facts
  obtain h where h: "db_catalog demo_both 1 = Some h" "fst demo_rid \<in> set (page_directory h)" using o(11) by blast
  from read_own_writes [OF o(2,6) demo_live(1) h demo_inserted_facts(2) _ _ d(3), of demo_rid] d(3,6) show ?thesis by simp
qed

text \<open>
  (C4) Commit publishes atomically. A transaction that begins after the commit reads, on every row the
  committed transaction wrote, the value that one left there, and on every other row what a
  transaction begun just before the commit reads.
\<close>

theorem commit_publishes:
  assumes "db_reachable db" and t: "find_txn db tid = Some t" and c: "last_commit_ts db + 1 < TXN_START_ID"
    and res: "commit_txn tid db = Some (Inr True, db')"
    and b: "begin_shared level now db = (Inr n, dba)" "find_txn dba n = Some ta"
    and b': "begin_shared level now db' = (Inr n', dbb)" "find_txn dbb n' = Some tb"
    and r: "row_at (db_store db) r \<noteq> None"
  shows "collect_visible_version dbb tb r =
     (if r \<in> writes t then Some (Inr (own_value db r)) else collect_visible_version dba ta r)"
proof -
  note inv = reachable_inv [OF assms(1)]
  note cs = commit_True [OF res t]
  note m = commit_stamped_ok [OF db_invD(1) [OF inv] t cs(2) db_invD(2) [OF inv t cs(2)] c]
  have inv': "db_inv db'" by (rule commit_stamped_step(1) [OF inv t cs(2) c cs(1)])
  have last: "last_commit_ts db' = last_commit_ts db + 1" and r': "row_at (db_store db') r \<noteq> None"
    and s: "snap db' (last_commit_ts db + 1) r = (if r \<in> writes t then Some (own_value db r) else snap db (last_commit_ts db) r)"
    using m cs(1) r by auto
  show ?thesis using begin_snapshot [OF inv b r] begin_snapshot [OF inv' b' r'] last s by simp
qed

theorem commit_publishes_witness:
  "\<exists>n db t. begin_shared SNAPSHOT_ISOLATION 0 demo_done = (Inr n, db) \<and> find_txn db n = Some t \<and>
     commit_txn (2 + TXN_START_ID) demo_deleted = Some (Inr True, demo_done) \<and>
     collect_visible_version db t demo_rid = Some (Inr None)"
proof -
  note o = demo_deleted_facts and d = demo_done_facts
  obtain t where t: "find_txn demo_deleted demo_C = Some t" "written t = [(1, demo_rid)]" using o(5) by blast
  have c: "last_commit_ts demo_deleted + 1 < TXN_START_ID" using o(7) by (simp add: TXN_START_ID_def)
  obtain dba ta where a: "begin_shared SNAPSHOT_ISOLATION 0 demo_deleted = (Inr (next_txn_id demo_deleted), dba)"
    "find_txn dba (next_txn_id demo_deleted) = Some ta" using begin_effect [OF reachable_inv [OF o(1)]] by (metis fun_upd_same)
  obtain dbb tb where b: "begin_shared SNAPSHOT_ISOLATION 0 demo_done = (Inr (next_txn_id demo_done), dbb)"
    "find_txn dbb (next_txn_id demo_done) = Some tb" using begin_effect [OF reachable_inv [OF d(1)]] by (metis fun_upd_same)
  have "demo_rid \<in> writes t" using t by (simp add: writes_def)
  with commit_publishes [OF o(1) t(1) c d(3) a b, of demo_rid] o(6) b d(3) show ?thesis by (auto simp: own_value_def)
qed


lemma rollback_fresh:
  assumes "store_wf (db_store db)" and "find_txn db tid = Some t" and "row_at (db_store db) r = Some (m, b)"
    and "get_undo_link db r = None"
  shows "\<exists>db'. mvcc_rollback tid r db = (Inr (), db') \<and> find_txn db' = find_txn db \<and> running_txns db' = running_txns db"
proof -
  note at = page_rows_at [OF assms(1,3)]
  from update_tuple_meta_rows [OF at(4,1), of "m\<lparr>ts := 0, is_deleted := True\<rparr>"] obtain p where
    "update_tuple_meta (m\<lparr>ts := 0, is_deleted := True\<rparr>) (snd r) (db_page db r) = Inr p" by blast
  then show ?thesis using assms at by (simp add: mvcc_rollback_def tombstone_fresh_def)
qed


text \<open>
  (C10) Garbage collection makes progress: whatever the transaction map held, no collectible transaction
  survives a run, and a run at a moment without live transactions empties the map.
\<close>

theorem gc_collects:
  assumes "db_reachable db" and res: "garbage_collection now db = (Inr stats, db')"
  shows "(\<forall>i u. find_txn db' i = Some u \<longrightarrow> \<not> collectible (db_watermark db') u) \<and>
     ((\<forall>i u. find_txn db i = Some u \<longrightarrow> \<not> txn_live u) \<longrightarrow> txn_map db' = [])"
proof -
  note inv = reachable_inv [OF assms(1)]
  obtain tids n db1 k where g: "cancel_expired tids 0 db = (Inr n, db1)" "sweep db1 = (k, db')"
    "tids = map fst (filter (\<lambda>(i, t). txn_live t \<and> is_expired (txn_timeout db) now t) (txn_map db))"
    using res by (auto simp: garbage_collection_def Let_def split: prod.splits sum.splits)
  have inv1: "db_inv db1" using cancel_expired_step [OF inv g(1)] by blast
  note s = sweep_inv [OF db_invD(1) [OF inv1] g(2)]
  have wm: "db_watermark db' = db_watermark db1" using s(3) by (simp add: db_watermark_def)
  have one: "\<forall>i u. find_txn db' i = Some u \<longrightarrow> \<not> collectible (db_watermark db') u"
    using s(4) wm by (auto split: option.splits if_splits)
  have "txn_map db' = []" if none: "\<forall>i u. find_txn db i = Some u \<longrightarrow> \<not> txn_live u"
  proof (rule ccontr)
    assume "txn_map db' \<noteq> []"
    then obtain i u where iu: "find_txn db' i = Some u" by (cases "txn_map db'") (force simp: find_txn_def)+
    have dist: "distinct (map fst (txn_map db))" using mvcc_invD(1) [OF db_invD(1) [OF inv]] by (simp add: clock_ok_def)
    have dead: "\<not> txn_live t" if "(j, t) \<in> set (txn_map db)" for j t
      using none that map_of_is_SomeI [OF dist that] by (simp add: find_txn_def)
    have "tids = []" using g(3) dead by (auto simp: filter_empty_conv)
    then have eq: "db1 = db" using g(1) by simp
    have u: "find_txn db i = Some u" using iu s(4) eq by (auto split: option.splits if_splits)
    have "live_reads (running_txns db) = {#}"
      using mvcc_invD(2) [OF db_invD(1) [OF inv]] dead by (auto simp: wm_ok_def live_mset_def filter_empty_conv)
    then have "db_watermark db = last_commit_ts db"
      using mvcc_invD(2) [OF db_invD(1) [OF inv]] get_watermark_Min [of "running_txns db"]
      by (simp add: wm_ok_def db_watermark_def)
    then have "collectible (db_watermark db') u"
      using mvcc_invD(7) [OF db_invD(1) [OF inv] u] none u wm eq
      by (cases "txn_state u") (auto simp: collectible_def txn_ok_def txn_live_def)
    then show False using one iu by blast
  qed
  with one show ?thesis by blast
qed

theorem gc_collects_witness:
  "\<exists>stats db'. garbage_collection 0 demo_loaded = (Inr stats, db') \<and> txn_map db' = []"
proof -
  note o = demo_loaded_facts
  have dist: "distinct (map fst (txn_map demo_loaded))"
    using mvcc_invD(1) [OF db_invD(1) [OF reachable_inv [OF o(1)]]] by (simp add: clock_ok_def)
  have none: "\<not> txn_live u" if "find_txn demo_loaded i = Some u" for i u using that o(4) by (auto split: if_splits)
  then have dead: "\<not> txn_live t" if "(j, t) \<in> set (txn_map demo_loaded)" for j t
    using map_of_is_SomeI [OF dist that] by (auto simp: find_txn_def)
  then have "map fst (filter (\<lambda>(i, t). txn_live t \<and> is_expired (txn_timeout demo_loaded) 0 t) (txn_map demo_loaded)) = []"
    by (auto simp: filter_empty_conv)
  then obtain stats db' where g: "garbage_collection 0 demo_loaded = (Inr stats, db')"
    by (cases "sweep demo_loaded") (simp add: garbage_collection_def Let_def)
  from gc_collects [OF o(1) g] none g show ?thesis by blast
qed

end
