(* ===== verification/WriteConflicts.thy ===== *)
theory WriteConflicts
  imports SnapshotIsolation
begin

text \<open>
  Write-write conflicts and serializable validation. \<open>writers_ok\<close> is a second invariant of the
  reachable states: it relates the write sets and timestamps in the transaction map to the newest
  committed version of each row (\<^const>\<open>committed_ts\<close>). From it follow that no update is lost, that a
  stale write is refused, and that the backward validation of \<^verbatim>\<open>VerifyTxn\<close> catches every change to
  what a serializable transaction's predicates select.
\<close>

section \<open>The newest committed version of a row\<close>

lemma committed_ts_frame:
  assumes inv: "db_inv db"
    and keep: "\<And>i u. find_txn db i = Some u \<Longrightarrow> txn_live u \<Longrightarrow>
       \<exists>u' more. find_txn db' i = Some u' \<and> undo_logs u' = undo_logs u @ more"
    and rows: "row_at (db_store db') x = row_at (db_store db) x" and link: "get_undo_link db' x = get_undo_link db x"
  shows "committed_ts db' x = committed_ts db x"
proof (cases "row_at (db_store db) x")
  case None
  then show ?thesis using rows by (simp add: committed_ts_def)
next
  case (Some mb)
  obtain m b where mb: "mb = (m, b)" by force
  note inv0 = db_invD(1) [OF inv]
  show ?thesis
  proof (cases "is_temp_ts (ts m)")
    case False
    then show ?thesis using Some mb rows by (simp add: committed_ts_def)
  next
    case temp: True
    have last: "last_commit_ts db < ts m" using mvcc_invD(1) [OF inv0] temp by (simp add: clock_ok_def is_temp_ts_def)
    have "chain (hist_of None db) (ts m) (get_undo_link db x)"
      using mvcc_invD(8) [OF inv0] Some mb by (auto simp: row_ok_def)
    then have "Option.bind (get_undo_link db' x) (get_undo_log_optional db') = Option.bind (get_undo_link db x) (get_undo_log_optional db)"
    proof cases
      case chain_none
      then show ?thesis using link by simp
    next
      case (chain_invalid l)
      then show ?thesis using links_okD [OF mvcc_invD(4) [OF inv0], of x l] by simp
    next
      case (chain_gone l)
      then show ?thesis using wm_bounds(2) [OF inv0] last by (simp add: hist_of_def)
    next
      case (chain_log l logs u)
      obtain t where t: "find_txn db (prev_txn l) = Some t" "owns_ts None (prev_txn l) t (ts m)"
        using chain_log(6) by (auto simp: hist_of_def)
      have live: "txn_live t" using t mvcc_invD(7) [OF inv0 t(1)] last by (auto simp: owns_ts_def txn_ok_def)
      obtain t' more where t': "find_txn db' (prev_txn l) = Some t'" "undo_logs t' = undo_logs t @ more"
        using keep [OF t(1) live] by blast
      have "prev_log_idx l < length (undo_logs t)" using chain_log(4,5) t(1) by (simp add: hist_of_def)
      then show ?thesis using chain_log(1) link t(1) t'
        by (simp add: get_undo_log_optional_def get_undo_log_def nth_append)
    qed
    then show ?thesis using rows by (simp only: committed_ts_def)
  qed
qed

lemma committed_ts_stored: "row_at (db_store db) r = Some (m, b) \<Longrightarrow> ts m < TXN_START_ID \<Longrightarrow> committed_ts db r = ts m"
  by (simp add: committed_ts_def is_temp_ts_def)

lemma txn_grows_logs: "txn_grows t t' \<Longrightarrow> \<exists>more. undo_logs t' = undo_logs t @ more"
  by (simp add: txn_grows_def)

lemma committed_ts_rewrite:
  assumes inv: "db_inv db" and t: "find_txn db tid = Some t" and gr: "txn_grows t t'"
    and rw: "rewrites_row tid t' r m b l db db'" and x: "x \<noteq> r"
  shows "committed_ts db' x = committed_ts db x"
proof (rule committed_ts_frame [OF inv])
  fix i u assume "find_txn db i = Some u"
  then show "\<exists>u' more. find_txn db' i = Some u' \<and> undo_logs u' = undo_logs u @ more"
    using find_txn_rewrites [OF rw] t txn_grows_logs [OF gr] by (cases "i = tid") auto
qed (use rw x in \<open>auto simp: rewrites_row_def\<close>)

lemma committed_ts_modify:
  assumes inv: "db_inv db" and t: "find_txn db tid = Some t" "txn_live t"
    and h: "db_catalog db oid = Some h" "fst r \<in> set (page_directory h)" and r: "snd r < 65536"
    and n: "n \<le> length row" "n < 65536" and res: "apply_mvcc_modify tid oid r del row n db = (Inr (), db')"
  shows "committed_ts db' x = committed_ts db x"
proof (cases "x = r")
  case False
  have "modifies tid oid r del (take n row) db db'"
    using apply_mvcc_modify_inv [OF db_invD(1) [OF inv] t h r n res] by blast
  then show ?thesis using committed_ts_rewrite [OF inv t(1) _ _ False] t(1) by (auto simp: modifies_def)
next
  case [simp]: True
  note inv0 = db_invD(1) [OF inv]
  note tok = mvcc_invD(7) [OF inv0 t(1)]
  have tid: "txn_id t = tid" "TXN_START_ID \<le> tid" using tok by (auto simp: txn_ok_def)
  have "modifies tid oid r del (take n row) db db'"
    using apply_mvcc_modify_inv [OF db_invD(1) [OF inv] t h r n res] by blast
  then obtain b' where row': "row_at (db_store db') r = Some (\<lparr>ts = tid, is_deleted = del\<rparr>, b')"
    by (auto simp: modifies_def rewrites_row_def)
  from res show ?thesis
  proof (cases rule: apply_mvcc_modify_Inr)
    case (own t0 m b p)
    have at: "row_at (db_store db) r = Some (m, b)" by (rule get_row_InrD [OF mvcc_invD(6) [OF inv0] r own(2)])
    have "get_undo_log_optional db' = get_undo_log_optional db" using own(1,5) t(1)
      by (auto simp: get_undo_log_optional_def get_undo_log_def append_write_set_def fun_eq_iff Let_def split: option.split)
    moreover have "get_undo_link db' r = get_undo_link db r" using own(5) by simp
    ultimately show ?thesis using row' at own(1,4) t(1) tid by (simp add: committed_ts_def is_temp_ts_def)
  next
    case (version t0 m b p t1)
    have at: "row_at (db_store db) r = Some (m, b)" by (rule get_row_InrD [OF mvcc_invD(6) [OF inv0] r version(2)])
    have "ts m < TXN_START_ID" using version(1,5) t(1) tok mvcc_invD(1) [OF inv0] by (simp add: txn_ok_def clock_ok_def)
    moreover have "get_undo_link db' r = Some \<lparr>prev_txn = tid, prev_log_idx = length (undo_logs t)\<rparr>"
      using version(1,7) t(1) tid by (simp add: get_undo_link_update)
    moreover have "get_undo_log_optional db' \<lparr>prev_txn = tid, prev_log_idx = length (undo_logs t)\<rparr> = Some (undo_of db r m b)"
      using version(1,6,7) t(1) by (simp add: get_undo_log_optional_def get_undo_log_def append_write_set_def Let_def)
    ultimately show ?thesis using row' at tid by (simp add: committed_ts_def is_temp_ts_def undo_of_def)
  qed
qed

section \<open>Writers and readers of a row\<close>

text \<open>
  What the transaction map records about the writers of a row: a committed writer's timestamp is
  covered by the row's newest committed version; a live writer of the same row began after it
  committed; of two committed writers one began after the other committed; and the writer of a
  version newer than the watermark is still there.
\<close>

definition committed :: "txn \<Rightarrow> bool" where
  "committed t \<longleftrightarrow> txn_state t = COMMITTED"

definition wrote :: "db \<Rightarrow> int \<Rightarrow> txn \<Rightarrow> rid \<Rightarrow> bool" where
  "wrote db i t r \<longleftrightarrow> find_txn db i = Some t \<and> r \<in> writes t"

definition writers_ok :: "db \<Rightarrow> bool" where
  "writers_ok db \<longleftrightarrow>
     (\<forall>i u r. wrote db i u r \<longrightarrow> committed u \<longrightarrow> commit_ts u \<le> committed_ts db r) \<and>
     (\<forall>i u j t r. wrote db i u r \<longrightarrow> committed u \<longrightarrow> wrote db j t r \<longrightarrow> txn_live t \<longrightarrow> commit_ts u \<le> read_ts t) \<and>
     (\<forall>i u j t r. wrote db i u r \<longrightarrow> committed u \<longrightarrow> wrote db j t r \<longrightarrow> committed t \<longrightarrow> i \<noteq> j \<longrightarrow>
        commit_ts u \<le> read_ts t \<or> commit_ts t \<le> read_ts u) \<and>
     (\<forall>r. db_watermark db < committed_ts db r \<longrightarrow> (\<exists>i u. wrote db i u r \<and> committed u \<and> commit_ts u = committed_ts db r))"

lemma writers_okD:
  assumes "writers_ok db"
  shows "\<And>i u r. wrote db i u r \<Longrightarrow> committed u \<Longrightarrow> commit_ts u \<le> committed_ts db r"
    "\<And>i u j t r. wrote db i u r \<Longrightarrow> committed u \<Longrightarrow> wrote db j t r \<Longrightarrow> txn_live t \<Longrightarrow> commit_ts u \<le> read_ts t"
    "\<And>i u j t r. wrote db i u r \<Longrightarrow> committed u \<Longrightarrow> wrote db j t r \<Longrightarrow> committed t \<Longrightarrow> i \<noteq> j \<Longrightarrow>
        commit_ts u \<le> read_ts t \<or> commit_ts t \<le> read_ts u"
    "\<And>r. db_watermark db < committed_ts db r \<Longrightarrow> \<exists>i u. wrote db i u r \<and> committed u \<and> commit_ts u = committed_ts db r"
  using assms unfolding writers_ok_def by blast+

text \<open>Steps that commit nothing: transactions keep their stamps, and new writes are only of rows whose newest version they can see.\<close>

lemma writers_ok_frame:
  assumes w: "writers_ok db"
    and cts: "\<And>r. committed_ts db' r = committed_ts db r \<or> committed_ts db r = -1 \<and> committed_ts db' r = 0"
    and wm: "0 \<le> db_watermark db'" "db_watermark db \<le> db_watermark db'"
    and bwd: "\<And>i u' r. wrote db' i u' r \<Longrightarrow> committed u' \<or> txn_live u' \<Longrightarrow>
       (\<exists>u. wrote db i u r \<and> committed u = committed u' \<and> txn_live u = txn_live u' \<and> commit_ts u = commit_ts u' \<and> read_ts u = read_ts u') \<or>
       txn_live u' \<and> \<not> committed u' \<and> committed_ts db r \<le> read_ts u'"
    and fwd: "\<And>i u r. wrote db i u r \<Longrightarrow> committed u \<Longrightarrow> db_watermark db' < commit_ts u \<Longrightarrow>
       \<exists>u'. wrote db' i u' r \<and> committed u' \<and> commit_ts u' = commit_ts u"
  shows "writers_ok db'"
proof -
  note W = writers_okD [OF w]
  have bc: "\<exists>u. wrote db i u r \<and> committed u \<and> commit_ts u = commit_ts u' \<and> read_ts u = read_ts u'"
    if "wrote db' i u' r" "committed u'" for i u' r using bwd that by blast
  have cov: "committed_ts db r \<le> committed_ts db' r" for r using cts [of r] by auto
  show ?thesis unfolding writers_ok_def
  proof (intro conjI allI impI)
    fix i u' r assume "wrote db' i u' r" "committed u'"
    then show "commit_ts u' \<le> committed_ts db' r" using bc W(1) cov by (metis order_trans)
  next
    fix i u' j t' r assume u: "wrote db' i u' r" "committed u'" and t: "wrote db' j t' r" "txn_live t'"
    obtain u where u': "wrote db i u r" "committed u" "commit_ts u = commit_ts u'" using bc [OF u] by blast
    from bwd [OF t(1)] t(2) show "commit_ts u' \<le> read_ts t'"
      using W(1) [OF u'(1,2)] W(2) [OF u'(1,2)] u'(3) by (metis order_trans)
  next
    fix i u' j t' r assume u: "wrote db' i u' r" "committed u'" and t: "wrote db' j t' r" "committed t'" and "i \<noteq> j"
    then show "commit_ts u' \<le> read_ts t' \<or> commit_ts t' \<le> read_ts u'"
      using bc [OF u] bc [OF t] W(3) by metis
  next
    fix r assume lt: "db_watermark db' < committed_ts db' r"
    then have eq: "committed_ts db' r = committed_ts db r" using cts [of r] wm(1) by auto
    with lt wm(2) W(4) [of r] obtain i u where u: "wrote db i u r" "committed u" "commit_ts u = committed_ts db r" by auto
    with fwd [OF u(1,2)] lt eq show "\<exists>i u. wrote db' i u r \<and> committed u \<and> commit_ts u = committed_ts db' r" by metis
  qed
qed

lemma writes_written: "written t' = written t \<Longrightarrow> writes t' = writes t"
  by (simp add: writes_def)

text \<open>A step that replaces one entry of the transaction map and keeps every row and link.\<close>

lemma writers_ok_put:
  assumes inv: "db_inv db" and w: "writers_ok db" and t: "find_txn db tid = Some t" and gr: "txn_grows t t'"
    and wr: "writes t' = writes t" and f: "find_txn db' = (find_txn db)(tid \<mapsto> t')"
    and same: "row_at (db_store db') = row_at (db_store db)" "get_undo_link db' = get_undo_link db" "db_watermark db' = db_watermark db"
  shows "writers_ok db'"
proof (rule writers_ok_frame [OF w])
  have e: "committed t' = committed t" "txn_live t' = txn_live t" "commit_ts t' = commit_ts t" "read_ts t' = read_ts t"
    using gr by (auto simp: txn_grows_def committed_def)
  show "committed_ts db' r = committed_ts db r \<or> committed_ts db r = -1 \<and> committed_ts db' r = 0" for r
  proof -
    have "committed_ts db' r = committed_ts db r"
    proof (rule committed_ts_frame [OF inv])
      fix i u assume "find_txn db i = Some u"
      then show "\<exists>u' more. find_txn db' i = Some u' \<and> undo_logs u' = undo_logs u @ more"
        using f t txn_grows_logs [OF gr] by (cases "i = tid") auto
    qed (use same in simp_all)
    then show ?thesis by simp
  qed
  show "(\<exists>u. wrote db i u r \<and> committed u = committed u' \<and> txn_live u = txn_live u' \<and> commit_ts u = commit_ts u' \<and> read_ts u = read_ts u') \<or>
       txn_live u' \<and> \<not> committed u' \<and> committed_ts db r \<le> read_ts u'" if "wrote db' i u' r" for i u' r
    using that f t wr e by (cases "i = tid") (auto simp: wrote_def)
  show "\<exists>u'. wrote db' i u' r \<and> committed u' \<and> commit_ts u' = commit_ts u" if "wrote db i u r" "committed u" for i u r
    using that f t wr e by (cases "i = tid") (auto simp: wrote_def)
qed (use wm_bounds(1) [OF db_invD(1) [OF inv]] same in simp_all)

text \<open>A step that also rewrites one row, whose newest committed version the transaction can see.\<close>

lemma writers_ok_rewrite:
  assumes inv: "db_inv db" and w: "writers_ok db" and t: "find_txn db tid = Some t" "txn_live t" and gr: "txn_grows t t'"
    and wr: "writes t' = insert r (writes t)" and f: "find_txn db' = (find_txn db)(tid \<mapsto> t')"
    and cts: "\<And>x. committed_ts db' x = committed_ts db x" and wm: "db_watermark db' = db_watermark db"
    and sees: "r \<notin> writes t \<Longrightarrow> committed_ts db r \<le> read_ts t"
  shows "writers_ok db'"
proof (rule writers_ok_frame [OF w])
  have e: "committed t' = committed t" "txn_live t' = txn_live t" "commit_ts t' = commit_ts t" "read_ts t' = read_ts t"
    "\<not> committed t" using gr t(2) by (auto simp: txn_grows_def committed_def txn_live_def)
  show "(\<exists>u. wrote db i u x \<and> committed u = committed u' \<and> txn_live u = txn_live u' \<and> commit_ts u = commit_ts u' \<and> read_ts u = read_ts u') \<or>
       txn_live u' \<and> \<not> committed u' \<and> committed_ts db x \<le> read_ts u'" if "wrote db' i u' x" for i u' x
  proof (cases "i = tid")
    case True
    then have "u' = t'" "x = r \<or> x \<in> writes t" using that f wr by (auto simp: wrote_def)
    then show ?thesis using True t e sees by (cases "x \<in> writes t") (auto simp: wrote_def)
  next
    case False
    then show ?thesis using that f by (auto simp: wrote_def)
  qed
  show "\<exists>u'. wrote db' i u' x \<and> committed u' \<and> commit_ts u' = commit_ts u" if "wrote db i u x" "committed u" for i u x
    using that f t(1) e by (cases "i = tid") (auto simp: wrote_def)
qed (use wm_bounds(1) [OF db_invD(1) [OF inv]] wm cts in simp_all)

lemma modify_sees:
  assumes inv: "db_inv db" and t: "find_txn db tid = Some t" "txn_live t" and r: "snd r < 65536"
    and res: "apply_mvcc_modify tid oid r del row n db = (Inr (), db')" and nw: "r \<notin> writes t"
  shows "committed_ts db r \<le> read_ts t"
proof -
  note inv0 = db_invD(1) [OF inv]
  note tok = mvcc_invD(7) [OF inv0 t(1)]
  have last: "last_commit_ts db < TXN_START_ID" "TXN_START_ID \<le> tid" "txn_id t = tid" "read_ts t \<le> last_commit_ts db"
    using mvcc_invD(1) [OF inv0] tok by (auto simp: clock_ok_def txn_ok_def)
  from res show ?thesis
  proof (cases rule: apply_mvcc_modify_Inr)
    case (own t0 m b p)
    have at: "row_at (db_store db) r = Some (m, b)" by (rule get_row_InrD [OF mvcc_invD(6) [OF inv0] r own(2)])
    have "ts m = tid" using own(1,4) t(1) last by simp
    then obtain i u where u: "find_txn db i = Some u" "r \<in> writes u" "owns_ts None i u tid"
      using mvcc_invD(8) [OF inv0 at] last by (auto simp: row_ok_def has_owner_def)
    then have "i = tid" using mvcc_invD(7) [OF inv0 u(1)] last by (auto simp: owns_ts_def txn_ok_def)
    then show ?thesis using u t(1) nw by simp
  next
    case (version t0 m b p t1)
    have at: "row_at (db_store db) r = Some (m, b)" by (rule get_row_InrD [OF mvcc_invD(6) [OF inv0] r version(2)])
    have "ts m \<le> read_ts t" using version(1,5) t(1) by simp
    then show ?thesis using committed_ts_stored [OF at] last by simp
  qed
qed

lemma modify_writers:
  assumes inv: "db_inv db" and w: "writers_ok db" and t: "find_txn db tid = Some t" "txn_live t"
    and h: "db_catalog db oid = Some h" "fst r \<in> set (page_directory h)" and r: "snd r < 65536"
    and n: "n \<le> length row" "n < 65536" and res: "apply_mvcc_modify tid oid r del row n db = (x, db')"
  shows "writers_ok db'"
proof (cases x)
  case (Inr y)
  then have res': "apply_mvcc_modify tid oid r del row n db = (Inr (), db')" using res by simp
  have "modifies tid oid r del (take n row) db db'"
    using apply_mvcc_modify_inv [OF db_invD(1) [OF inv] t h r n res'] by blast
  then obtain t' b' l where mm: "txn_grows t t'" "rewrites_row tid t' r \<lparr>ts = tid, is_deleted = del\<rparr> b' l db db'"
    "set (written t') = insert (oid, r) (set (written t))" using t by (auto simp: modifies_def)
  have wr: "writes t' = insert r (writes t)" using mm(3) by (simp add: writes_def)
  have wm: "db_watermark db' = db_watermark db" using mm(2) by (simp add: rewrites_row_def db_watermark_def)
  show ?thesis
    by (rule writers_ok_rewrite [OF inv w t mm(1) wr find_txn_rewrites [OF mm(2)] committed_ts_modify [OF inv t h r n res'] wm
          modify_sees [OF inv t r res']])
next
  case (Inl e)
  then have res': "apply_mvcc_modify tid oid r del row n db = (Inl e, db')" using res by simp
  then show ?thesis
  proof (cases rule: apply_mvcc_modify_Inl)
    case same
    then show ?thesis using w by simp
  next
    case (orphan t0 m b)
    let ?t1 = "t\<lparr>undo_logs := undo_logs t @ [undo_of db r m b]\<rparr>"
    have wr: "written ?t1 = written t" by (simp add: written_def)
    have gr: "txn_grows t ?t1" using wr by (simp add: txn_grows_def txn_live_def)
    show ?thesis by (rule writers_ok_put [OF inv w t(1) gr writes_written [OF wr]])
        (use orphan t(1) in \<open>simp_all add: db_watermark_def\<close>)
  next
    case (conflict t0 m b)
    let ?t1 = "t\<lparr>txn_state := TAINTED\<rparr>"
    have wr: "written ?t1 = written t" by (simp add: written_def)
    have gr: "txn_grows t ?t1" using wr conflict(1,5) t(1) by (simp add: txn_grows_def txn_live_def)
    show ?thesis by (rule writers_ok_put [OF inv w t(1) gr writes_written [OF wr]])
        (use conflict t(1) in \<open>simp_all add: db_watermark_def\<close>)
  qed
qed

lemma insert_writers:
  assumes "db_inv db" and "writers_ok db" and "find_txn db tid = Some t" "txn_live t" and "mvcc_insert tid oid rows db = (x, db')"
  shows "writers_ok db'"
  using assms
proof (induction rows arbitrary: db t x db')
  case Nil
  then show ?case by simp
next
  case (Cons row rows)
  note inv0 = db_invD(1) [OF Cons.prems(1)]
  let ?meta = "\<lparr>ts = txn_id t, is_deleted = False\<rparr>" and ?n = "length row mod 2 ^ 16"
  show ?case
  proof (cases "db_catalog db oid")
    case None
    then show ?thesis using Cons.prems by (simp split: option.splits)
  next
    case (Some h)
    obtain y h' st' where app: "append_row_bytes ?meta row ?n h (db_store db) = (y, h', st')" by (metis prod_cases3)
    let ?db1 = "db\<lparr>db_store := st', db_catalog := (db_catalog db)(oid \<mapsto> h')\<rparr>"
    have hwf: "heap_wf h (db_store db)" using mvcc_invD(3) [OF inv0] Some by (auto simp: heaps_ok_def)
    have n: "?n \<le> length row" by simp
    show ?thesis
    proof (cases y)
      case (Inl e)
      have "MAX_ROW_SIZE < ?n"
        using append_row_bytes_fits [OF mvcc_invD(6) [OF inv0] hwf n, of ?meta] app Inl by (cases "MAX_ROW_SIZE < ?n") auto
      from append_row_bytes_refused [OF mvcc_invD(6) [OF inv0] hwf this, of ?meta row] app
      have rows: "row_at st' = row_at (db_store db)" by auto
      have db': "db' = ?db1" using Cons.prems(3,5) Some app Inl by simp
      show ?thesis
        by (rule writers_ok_put [OF Cons.prems(1,2,3) txn_grows_refl refl])
          (use db' rows Cons.prems(3) in \<open>simp_all add: fun_upd_idem db_watermark_def\<close>)
    next
      case (Inr rid)
      let ?t' = "append_write_set oid rid t" and ?db2 = "put_txn tid (append_write_set oid rid t) ?db1"
      note ins = insert_row_inv [OF inv0 Cons.prems(3,4) Some n app [unfolded Inr] refl]
      have tw: "write_set_wf t" using mvcc_invD(7) [OF inv0 Cons.prems(3)] by (simp add: txn_ok_def)
      have w: "writes ?t' = insert rid (writes t)" using set_written_append [OF tw, of oid rid] by (simp add: writes_def)
      have inv2: "db_inv ?db2"
        by (rule rewrite_step(1) [OF Cons.prems(1) ins(1) Cons.prems(3,4) ins(3) w ins(2)]) (use ins(4,6) in auto)
      have tid: "TXN_START_ID \<le> tid" "0 \<le> read_ts t" using mvcc_invD(7) [OF inv0 Cons.prems(3)] by (auto simp: txn_ok_def)
      have "get_undo_link db = (get_undo_link db)(rid := None)" using ins(2) by (simp add: rewrites_row_def)
      then have "get_undo_link db rid = None" by (metis fun_upd_same)
      then have new: "committed_ts db rid = -1" "committed_ts ?db2 rid = -1"
        using ins(2,4) tid by (simp_all add: committed_ts_def rewrites_row_def is_temp_ts_def)
      have cts: "committed_ts ?db2 z = committed_ts db z" for z
        using committed_ts_rewrite [OF Cons.prems(1,3) ins(3,2), of z] new by (cases "z = rid") auto
      have w2: "writers_ok ?db2"
        by (rule writers_ok_rewrite [OF Cons.prems(1,2,3,4) ins(3) w _ cts])
          (use new tid in \<open>simp_all add: db_watermark_def\<close>)
      obtain z db3 where rest: "mvcc_insert tid oid rows ?db2 = (z, db3)" by force
      have "db' = db3" using Cons.prems(3,5) Some app Inr rest by (auto split: sum.splits)
      moreover have "txn_live ?t'" using txn_grows_live [OF ins(3)] Cons.prems(4) by simp
      ultimately show ?thesis using Cons.IH [OF inv2 w2 _ _ rest] by simp
    qed
  qed
qed

lemma abort_writers:
  assumes inv: "db_inv db" and w: "writers_ok db" and res: "abort_txn tid db = (Inr (), db')"
  shows "writers_ok db'"
proof -
  note inv0 = db_invD(1) [OF inv]
  obtain t where t: "find_txn db tid = Some t" using res by (cases "find_txn db tid") (auto simp: abort_txn_def)
  show ?thesis
  proof (cases "txn_live t")
    case False
    then have "db' = db" using res t by (auto simp: abort_txn_def txn_live_def split: if_splits)
    then show ?thesis using w by simp
  next
    case True
    note a = abort_txn_ok [OF inv0 t True db_invD(2) [OF inv t True] res]
    have dead: "\<not> txn_live (t\<lparr>txn_state := ABORTED\<rparr>)" "\<not> committed (t\<lparr>txn_state := ABORTED\<rparr>)" "\<not> committed t"
      using True by (auto simp: committed_def txn_live_def)
    have last: "last_commit_ts db < TXN_START_ID" using mvcc_invD(1) [OF inv0] by (simp add: clock_ok_def)
    show ?thesis
    proof (rule writers_ok_frame [OF w])
      show "committed_ts db' r = committed_ts db r \<or> committed_ts db r = -1 \<and> committed_ts db' r = 0" for r
      proof (cases "r \<in> writes t")
        case True
        then obtain m b where m: "row_at (db_store db') r = Some (m, b)" "ts m \<le> last_commit_ts db"
          "ts m = committed_ts db r \<or> committed_ts db r = -1 \<and> ts m = 0" using a by blast
        then show ?thesis using committed_ts_stored [OF m(1)] last by auto
      next
        case False
        have "committed_ts db' r = committed_ts db r"
          by (rule committed_ts_frame [OF inv]) (use a t False in \<open>auto split: if_splits\<close>)
        then show ?thesis by simp
      qed
      show "(\<exists>u. wrote db i u r \<and> committed u = committed u' \<and> txn_live u = txn_live u' \<and> commit_ts u = commit_ts u' \<and> read_ts u = read_ts u') \<or>
           txn_live u' \<and> \<not> committed u' \<and> committed_ts db r \<le> read_ts u'"
        if "wrote db' i u' r" "committed u' \<or> txn_live u'" for i u' r
        using that a dead by (cases "i = tid") (auto simp: wrote_def)
      show "\<exists>u'. wrote db' i u' r \<and> committed u' \<and> commit_ts u' = commit_ts u" if "wrote db i u r" "committed u" for i u r
        using that a dead t by (cases "i = tid") (auto simp: wrote_def)
    qed (use a wm_bounds(1) [OF db_invD(1) [OF abort_step(1) [OF inv res]]] in auto)
  qed
qed

lemma begin_writers:
  assumes inv: "db_inv db" and w: "writers_ok db" and res: "begin_shared level now db = (x, db')"
  shows "writers_ok db'"
proof -
  note inv0 = db_invD(1) [OF inv]
  let ?tid = "next_txn_id db" and ?t = "(txn_new (next_txn_id db) level now)\<lparr>read_ts := last_commit_ts db\<rparr>"
  from begin_inv [OF inv0, of level now] res obtain v where b: "db_watermark db' = db_watermark db" "find_txn db ?tid = None"
    "db' = db\<lparr>next_txn_id := ?tid + 1, txn_map := txn_map db @ [(?tid, ?t)], running_txns := v\<rparr>" by auto
  have f: "find_txn db' j = (if j = ?tid then Some ?t else find_txn db j)" for j
    using b(2) by (simp add: b(3) find_txn_def map_add_def split: option.split)
  have nw: "writes ?t = {}" by (simp add: writes_def written_def txn_new_def)
  show ?thesis
  proof (rule writers_ok_frame [OF w])
    show "committed_ts db' r = committed_ts db r \<or> committed_ts db r = -1 \<and> committed_ts db' r = 0" for r
    proof -
      have "committed_ts db' r = committed_ts db r"
        by (rule committed_ts_frame [OF inv]) (use f b(2) in \<open>auto simp: b(3) get_undo_link_def\<close>)
      then show ?thesis by simp
    qed
    show "(\<exists>u. wrote db i u r \<and> committed u = committed u' \<and> txn_live u = txn_live u' \<and> commit_ts u = commit_ts u' \<and> read_ts u = read_ts u') \<or>
         txn_live u' \<and> \<not> committed u' \<and> committed_ts db r \<le> read_ts u'" if "wrote db' i u' r" for i u' r
      using that f [of i] nw by (auto simp: wrote_def split: if_splits)
    show "\<exists>u'. wrote db' i u' r \<and> committed u' \<and> commit_ts u' = commit_ts u" if "wrote db i u r" "committed u" for i u r
      using that f [of i] b(2) by (auto simp: wrote_def)
  qed (use b(1) wm_bounds(1) [OF inv0] in simp_all)
qed

lemma commit_stamped_writers:
  assumes inv: "db_inv db" and w: "writers_ok db" and t: "find_txn db tid = Some t" "txn_live t"
    and c: "last_commit_ts db + 1 < TXN_START_ID" and res: "commit_stamped tid t db = (x, db')"
  shows "writers_ok db'"
proof -
  note inv0 = db_invD(1) [OF inv] and W = writers_okD [OF w]
  let ?c = "last_commit_ts db + 1" and ?t' = "t\<lparr>commit_ts := last_commit_ts db + 1, txn_state := COMMITTED\<rparr>"
  have own: "owned db t" by (rule db_invD(2) [OF inv t])
  from commit_stamped_ok [OF inv0 t own c] res have m: "find_txn db' = (find_txn db)(tid \<mapsto> ?t')"
    "get_undo_link db' = get_undo_link db" "db_watermark db \<le> db_watermark db'"
    "row_at (db_store db') = (\<lambda>r. if r \<in> writes t then map_option (\<lambda>(m, b). (m\<lparr>ts := ?c\<rparr>, b)) (row_at (db_store db) r)
                                  else row_at (db_store db) r)" by auto
  have wr: "writes ?t' = writes t" by (simp add: writes_def written_def)
  have nc: "\<not> committed t" "committed ?t'" "\<not> txn_live ?t'" using t(2) by (auto simp: committed_def txn_live_def)
  have new: "committed_ts db' r = ?c" if r: "r \<in> writes t" for r
  proof -
    obtain m0 b where "row_at (db_store db) r = Some (m0, b)" using own r by (auto simp: owned_def)
    then have "row_at (db_store db') r = Some (m0\<lparr>ts := ?c\<rparr>, b)" using m(4) r by simp
    from committed_ts_stored [OF this] c show ?thesis by simp
  qed
  have old: "committed_ts db' r = committed_ts db r" if "r \<notin> writes t" for r
    by (rule committed_ts_frame [OF inv]) (use m t that in \<open>auto split: if_splits\<close>)
  have other: "wrote db i u r \<and> i \<noteq> tid \<or> i = tid \<and> u = ?t' \<and> r \<in> writes t" if "wrote db' i u r" for i u r
    using that m(1) wr by (auto simp: wrote_def split: if_splits)
  have past: "commit_ts u < ?c" if "wrote db i u r" "committed u" for i u r
    using mvcc_invD(7) [OF inv0, of i u] that by (auto simp: wrote_def committed_def txn_ok_def)
  have wt: "wrote db tid t r" if "r \<in> writes t" for r using that t by (simp add: wrote_def)
  show ?thesis unfolding writers_ok_def
  proof (intro conjI allI impI)
    fix i u r assume u: "wrote db' i u r" "committed u"
    show "commit_ts u \<le> committed_ts db' r"
      using other [OF u(1)] u(2) new [of r] old [of r] past [of i u r] W(1) [of i u r] by (cases "r \<in> writes t") auto
  next
    fix i u j v r assume u: "wrote db' i u r" "committed u" and v: "wrote db' j v r" "txn_live v"
    have v': "wrote db j v r" "j \<noteq> tid" using other [OF v(1)] v(2) nc by auto
    show "commit_ts u \<le> read_ts v"
    proof (cases "r \<in> writes t")
      case True
      then obtain m0 b where at: "row_at (db_store db) r = Some (m0, b)" "ts m0 = txn_id t" using own by (auto simp: owned_def)
      have "ts m0 = j" by (rule owned_other [OF inv _ v(2) _ at(1)]) (use v'(1) in \<open>auto simp: wrote_def\<close>)
      then show ?thesis using at(2) v'(2) mvcc_invD(7) [OF inv0 t(1)] by (simp add: txn_ok_def)
    next
      case False
      then have "wrote db i u r" using other [OF u(1)] by auto
      then show ?thesis using W(2) u(2) v'(1) v(2) by blast
    qed
  next
    fix i u j v r assume u: "wrote db' i u r" "committed u" and v: "wrote db' j v r" "committed v" and ne: "i \<noteq> j"
    consider "wrote db i u r" "wrote db j v r" | "i = tid" "u = ?t'" "r \<in> writes t" "wrote db j v r"
      | "j = tid" "v = ?t'" "r \<in> writes t" "wrote db i u r" using other [OF u(1)] other [OF v(1)] ne by auto
    then show "commit_ts u \<le> read_ts v \<or> commit_ts v \<le> read_ts u"
    proof cases
      case 1
      then show ?thesis using W(3) u(2) v(2) ne by blast
    next
      case 2
      then show ?thesis using W(2) [OF 2(4) v(2) wt [OF 2(3)] t(2)] by simp
    next
      case 3
      then show ?thesis using W(2) [OF 3(4) u(2) wt [OF 3(3)] t(2)] by simp
    qed
  next
    fix r assume lt: "db_watermark db' < committed_ts db' r"
    show "\<exists>i u. wrote db' i u r \<and> committed u \<and> commit_ts u = committed_ts db' r"
    proof (cases "r \<in> writes t")
      case True
      then show ?thesis using new [OF True] m(1) wr nc by (intro exI [of _ tid] exI [of _ ?t']) (simp add: wrote_def)
    next
      case False
      then obtain i u where u: "wrote db i u r" "committed u" "commit_ts u = committed_ts db' r"
        using W(4) [of r] old lt m(3) by auto
      then have "i \<noteq> tid" using nc t(1) by (auto simp: wrote_def)
      then show ?thesis using u m(1) by (intro exI [of _ i] exI [of _ u]) (simp add: wrote_def)
    qed
  qed
qed

lemma commit_writers:
  assumes inv: "db_inv db" and w: "writers_ok db" and t: "find_txn db tid = Some t" "txn_live t"
    and c: "last_commit_ts db + 1 < TXN_START_ID"
    and ca: "isl x \<Longrightarrow> can_abort tid db" and res: "commit_txn tid db = Some (x, db')"
  shows "writers_ok db'"
proof -
  have "abort_txn tid db = (Inr (), db') \<or> db' = db \<or> (\<exists>y. commit_stamped tid t db = (y, db'))"
    by (rule commit_outcomes [OF t(1) ca res])
  then show ?thesis using abort_writers [OF inv w, of tid db'] commit_stamped_writers [OF inv w t c, of _ db'] w by blast
qed

lemma cancel_expired_writers:
  assumes "db_inv db" and "writers_ok db" and "cancel_expired tids n db = (Inr k, db')"
  shows "writers_ok db'"
  using assms
proof (induction tids arbitrary: n db)
  case Nil
  then show ?case by simp
next
  case (Cons tid tids)
  then obtain t where t: "find_txn db tid = Some t" by (auto split: option.splits)
  show ?case
  proof (cases "txn_live t")
    case False
    then show ?thesis using Cons t by simp
  next
    case True
    obtain acc t1 where rc: "request_cancellation t = (acc, t1)" by force
    let ?db1 = "put_txn tid t1 db" and ?n1 = "if acc then n + 1 else n"
    have s1: "db_inv ?db1" using cancel_step(1) [OF Cons.prems(1) t] rc by auto
    have gr: "txn_grows t t1" "written t1 = written t" using request_cancellation_grows(1,2) [of t] rc by auto
    have w1: "writers_ok ?db1"
      by (rule writers_ok_put [OF Cons.prems(1,2) t gr(1) writes_written [OF gr(2)]]) (simp_all add: db_watermark_def)
    show ?thesis
    proof (cases "active_statements t1 = 0")
      case act: True
      obtain db2 where a: "abort_txn tid ?db1 = (Inr (), db2)" "cancel_expired tids ?n1 db2 = (Inr k, db')"
        using Cons.prems(3) t True rc act by (auto split: prod.splits sum.splits)
      show ?thesis by (rule Cons.IH [OF abort_step(1) [OF s1 a(1)] abort_writers [OF s1 w1 a(1)] a(2)])
    next
      case False
      then have "cancel_expired tids ?n1 ?db1 = (Inr k, db')" using Cons.prems(3) t True rc by simp
      from Cons.IH [OF s1 w1 this] show ?thesis .
    qed
  qed
qed

lemma sweep_writers:
  assumes inv: "db_inv db" and w: "writers_ok db" and sw: "sweep db = (k, db')"
  shows "writers_ok db'"
proof -
  note s = sweep_inv [OF db_invD(1) [OF inv] sw]
  have eq: "db_store db' = db_store db" "get_undo_link db' = get_undo_link db" "db_watermark db' = db_watermark db"
    using sw by (auto simp: sweep_def Let_def get_undo_link_def fun_eq_iff db_watermark_def)
  have keep: "find_txn db' i = Some u" if "find_txn db i = Some u" "\<not> collectible (db_watermark db) u" for i u
    using that s(4) by simp
  show ?thesis
  proof (rule writers_ok_frame [OF w])
    show "committed_ts db' r = committed_ts db r \<or> committed_ts db r = -1 \<and> committed_ts db' r = 0" for r
    proof -
      have "committed_ts db' r = committed_ts db r"
      proof (rule committed_ts_frame [OF inv])
        fix i u assume u: "find_txn db i = Some u" "txn_live u"
        then have "find_txn db' i = Some u" by (intro keep) (auto simp: collectible_def txn_live_def)
        then show "\<exists>u' more. find_txn db' i = Some u' \<and> undo_logs u' = undo_logs u @ more" by auto
      qed (use eq in simp_all)
      then show ?thesis by simp
    qed
    show "(\<exists>u. wrote db i u r \<and> committed u = committed u' \<and> txn_live u = txn_live u' \<and> commit_ts u = commit_ts u' \<and> read_ts u = read_ts u') \<or>
         txn_live u' \<and> \<not> committed u' \<and> committed_ts db r \<le> read_ts u'" if "wrote db' i u' r" for i u' r
      using that s(4) [of i] by (auto simp: wrote_def split: option.splits if_splits)
    show "\<exists>u'. wrote db' i u' r \<and> committed u' \<and> commit_ts u' = commit_ts u"
      if "wrote db i u r" "committed u" "db_watermark db' < commit_ts u" for i u r
      using that keep [of i u] eq(3) by (auto simp: wrote_def collectible_def committed_def)
  qed (use eq wm_bounds(1) [OF db_invD(1) [OF inv]] in simp_all)
qed

lemma start_writers:
  assumes "start_ok st cat hw"
  shows "writers_ok (db_start st cat hw timeout)"
proof -
  let ?db = "db_start st cat hw timeout"
  have sel: "find_txn ?db i = None" "db_store ?db = st" for i
    by (simp_all add: db_start_def set_last_commit_ts_def find_txn_def)
  have wm: "db_watermark ?db = hw"
    using mvcc_invD(2) [OF db_invD(1) [OF start_inv [OF assms]]] get_watermark_Min [of "running_txns ?db"]
    by (simp add: wm_ok_def db_watermark_def live_mset_def db_start_def set_last_commit_ts_def)
  have "committed_ts ?db r \<le> hw" for r
  proof (cases "row_at st r")
    case None
    then show ?thesis using assms sel by (simp add: committed_ts_def start_ok_def)
  next
    case (Some mb)
    obtain m b where mb: "mb = (m, b)" by force
    have "ts m \<le> hw \<and> hw < TXN_START_ID" using assms Some mb unfolding start_ok_def by blast
    then show ?thesis using Some mb sel committed_ts_stored [of ?db r m b] by simp
  qed
  then show ?thesis using wm sel unfolding writers_ok_def wrote_def by (auto simp: not_less [symmetric])
qed

lemma txn_meta_writers:
  assumes "db_inv db" and "writers_ok db" and "find_txn db tid = Some t"
    and t': "txn_state t' = txn_state t" "read_ts t' = read_ts t" "commit_ts t' = commit_ts t" "txn_id t' = txn_id t"
      "undo_logs t' = undo_logs t" "write_set t' = write_set t"
  shows "writers_ok (put_txn tid t' db)"
proof -
  have w: "written t' = written t" using t' by (simp add: written_def)
  have g: "txn_grows t t'" using t' w by (simp add: txn_grows_def txn_live_def)
  show ?thesis by (rule writers_ok_put [OF assms(1-3) g writes_written [OF w]]) (simp_all add: db_watermark_def)
qed

lemma db_step_writers:
  assumes "db_step a db db'" and "db_inv db" and "writers_ok db"
  shows "writers_ok db'"
  using assms
proof (induction rule: db_step.induct)
  case (step_modify db tid t oid h r n row del x' db')
  then show ?case using modify_writers [OF step_modify.prems step_modify(1-8)] by auto
next
  case (step_record_scan db tid t oid pred)
  show ?case by (rule txn_meta_writers [OF step_record_scan.prems step_record_scan(1)]) (auto simp: append_scan_predicate_def Let_def)
next
  case (step_enter db tid t)
  show ?case by (rule txn_meta_writers [OF step_enter.prems step_enter(1)]) (auto simp: enter_statement_def leave_statement_def Let_def)
next
  case (step_leave db tid t)
  show ?case by (rule txn_meta_writers [OF step_leave.prems step_leave(1)]) (auto simp: leave_statement_def)
next
  case (step_insert db tid t oid rows x db')
  then show ?case using insert_writers [OF step_insert.prems step_insert(1,2,3)] by auto
next
  case (step_commit db tid t y db')
  then show ?case using commit_writers [OF step_commit.prems step_commit(1-3) _ step_commit(5)] by auto
next
  case (step_begin level now db x db')
  then show ?case using begin_writers by blast
next
  case (step_abort tid db db')
  then show ?case using abort_writers by blast
next
  case (step_collect now db stats db')
  then obtain tids n db1 k where g: "cancel_expired tids 0 db = (Inr n, db1)" "sweep db1 = (k, db')"
    by (auto simp: garbage_collection_def Let_def split: prod.splits sum.splits)
  have "db_inv db1" using cancel_expired_step [OF step_collect.prems(1) g(1)] by blast
  then show ?case using sweep_writers [OF _ cancel_expired_writers [OF step_collect.prems g(1)] g(2)] by blast
qed

lemma reachable_writers: "db_reachable db \<Longrightarrow> writers_ok db"
  by (induction rule: db_reachable.induct) (auto intro: start_writers dest: db_step_writers reachable_inv)

section \<open>Validation\<close>

lemma snap_current:
  assumes inv: "db_inv db" and cts: "committed_ts db r \<le> s" and s: "db_watermark db \<le> s" "s \<le> last_commit_ts db"
  shows "snap db s r = snap db (last_commit_ts db) r"
proof (cases "row_at (db_store db) r")
  case None
  then show ?thesis by (simp add: snap_def)
next
  case (Some mb)
  obtain m b where mb: "mb = (m, b)" by force
  note inv0 = db_invD(1) [OF inv]
  show ?thesis
  proof (cases "is_temp_ts (ts m)")
    case False
    then show ?thesis using Some mb cts s committed_ts_stored [of db r m b] by (simp add: snap_def is_temp_ts_def)
  next
    case temp: True
    have last: "last_commit_ts db < ts m" using mvcc_invD(1) [OF inv0] temp by (simp add: clock_ok_def is_temp_ts_def)
    have "chain (hist_of None db) (ts m) (get_undo_link db r)" using mvcc_invD(8) [OF inv0] Some mb by (auto simp: row_ok_def)
    then have "walk_versions db s (get_undo_link db r) = walk_versions db (last_commit_ts db) (get_undo_link db r)"
    proof cases
      case (chain_log l logs u)
      have "get_undo_log_optional db l = Some u" using chain_log(4,7) by (simp add: get_undo_log_hist [of _ _ None])
      then show ?thesis using chain_log(1) cts s temp Some mb
        by (subst (1 2) walk_versions.simps) (simp add: committed_ts_def)
    next
      case (chain_gone l)
      then show ?thesis using wm_bounds(2) [OF inv0] last by (simp add: hist_of_def)
    qed (simp_all add: walk_versions.simps [of _ _ None] walk_versions.simps [of _ _ "Some _"])
    then show ?thesis using Some mb last s by (simp add: snap_def)
  qed
qed

lemma conflict_walk_covers:
  assumes "chain (hist_of None db) vts l" and "conflict_walk db (t, oid) l = Some False" and "read_ts t \<le> s"
    and "walk_versions db s l = Some (Some v)"
  shows "\<not> is_scan_tuple oid v t"
  using assms
proof (induction rule: chain.induct)
  case (chain_log l logs vts u)
  have log: "get_undo_log_optional db l = Some u" using chain_log(3,6) by (simp add: get_undo_log_hist [of _ _ None])
  have nm: "\<not> row_matches t oid (ul_is_deleted u) (ul_row u)"
    using chain_log.prems(1) chain_log(1) log by (subst (asm) conflict_walk.simps) (auto split: if_splits)
  show ?case
  proof (cases "ul_ts u \<le> s")
    case True
    then have "\<not> ul_is_deleted u" "v = ul_row u"
      using chain_log.prems(3) chain_log(1) log by (subst (asm) walk_versions.simps, auto split: if_splits)+
    then show ?thesis using nm by (simp add: row_matches_def)
  next
    case False
    have "walk_versions db s (Some (ul_prev_version u)) = Some (Some v)"
      using chain_log.prems(3) chain_log(1) log False by (subst (asm) walk_versions.simps) simp
    moreover have "conflict_walk db (t, oid) (Some (ul_prev_version u)) = Some False"
      using chain_log.prems(1,2) chain_log(1) log nm False by (subst (asm) conflict_walk.simps) simp
    ultimately show ?thesis using chain_log.IH chain_log.prems(2) by blast
  qed
next
  case (chain_gone l vts)
  then have "get_undo_log_optional db l = None" by (simp add: get_undo_log_hist [of _ _ None])
  with chain_gone.prems(3) chain_gone(1) show ?case by (subst (asm) walk_versions.simps) simp
qed (simp_all add: walk_versions.simps [of _ _ None] walk_versions.simps [of _ _ "Some _"])

lemma no_conflict_values:
  assumes inv: "db_inv db" and nc: "rid_conflicts_with_reads db t oid r = Some (Inr False)"
    and new: "read_ts t < committed_ts db r" and s: "read_ts t \<le> s" "s \<le> last_commit_ts db" and v: "snap db s r = Some (Some v)"
  shows "\<not> is_scan_tuple oid v t"
proof -
  note inv0 = db_invD(1) [OF inv]
  obtain m b where at: "row_at (db_store db) r = Some (m, b)" using v by (cases "row_at (db_store db) r") (auto simp: snap_def)
  have gr: "get_row (db_page db r) (page_slot r) = Inr (m, b)" by (rule page_rows_at(5) [OF mvcc_invD(6) [OF inv0] at])
  have ch: "chain (hist_of None db) (ts m) (get_undo_link db r)" using mvcc_invD(8) [OF inv0 at] by (simp add: row_ok_def)
  have nb: "\<not> is_temp_ts (ts m) \<Longrightarrow> \<not> row_matches t oid (is_deleted m) b"
    using nc gr by (auto simp: rid_conflicts_with_reads_def split: if_splits)
  have "\<not> is_temp_ts (ts m) \<Longrightarrow> read_ts t < ts m" using new at by (simp add: committed_ts_def)
  then have walk: "conflict_walk db (t, oid) (get_undo_link db r) = Some False"
    using nc gr nb by (auto simp: rid_conflicts_with_reads_def split: if_splits)
  show ?thesis
  proof (cases "ts m \<le> s")
    case True
    then have "\<not> is_temp_ts (ts m)" using s(2) mvcc_invD(1) [OF inv0] by (simp add: clock_ok_def is_temp_ts_def)
    then show ?thesis using True nb v at by (auto simp: snap_def row_matches_def split: if_splits)
  next
    case False
    then have "walk_versions db s (get_undo_link db r) = Some (Some v)" using v at by (simp add: snap_def)
    then show ?thesis by (rule conflict_walk_covers [OF ch walk s(1)])
  qed
qed

lemma verify_loop_True:
  assumes "verify_loop db t ws = Some (Inr True)" and "(oid, r) \<in> set ws" and "db_catalog db oid \<noteq> None"
  shows "rid_conflicts_with_reads db t oid r = Some (Inr False)"
  using assms by (induction ws) (auto split: option.splits sum.splits if_splits)

lemma suspectsI:
  assumes "find_txn db i = Some u" and "i \<noteq> tid" and "committed u" and "read_ts t < commit_ts u" and "(oid, r) \<in> set (written u)"
  shows "(oid, r) \<in> set (suspects db tid t)"
proof -
  have "(i, u) \<in> set (txn_map db)" using assms(1) by (simp add: find_txn_def map_of_SomeD)
  then show ?thesis using assms(2-5) by (force simp: suspects_def committed_def)
qed

lemma suspects_none:
  assumes "db_inv db" and "\<And>i u. find_txn db i = Some u \<Longrightarrow> i = tid \<or> \<not> committed u \<or> commit_ts u \<le> read_ts t"
  shows "suspects db tid t = []"
proof -
  have dist: "distinct (map fst (txn_map db))" using mvcc_invD(1) [OF db_invD(1) [OF assms(1)]] by (simp add: clock_ok_def)
  have "i = tid \<or> \<not> committed u \<or> commit_ts u \<le> read_ts t" if "(i, u) \<in> set (txn_map db)" for i u
    using assms(2) map_of_is_SomeI [OF dist that] by (simp add: find_txn_def)
  then show ?thesis by (fastforce simp: suspects_def committed_def)
qed

lemma commit_True_verified:
  assumes "commit_txn tid db = Some (Inr True, db')" and "find_txn db tid = Some t" and "txn_isolation t = SERIALIZABLE"
  shows "verify_txn db tid t = Some (Inr True)" "txn_state t = RUNNING"
  using assms by (auto simp: commit_txn_def abort_and_refuse_def split: if_splits option.splits sum.splits prod.splits)

text \<open>The committed value of a row in a snapshot, if a predicate selects it.\<close>

definition selected :: "scan_predicate \<Rightarrow> db \<Rightarrow> int \<Rightarrow> rid \<Rightarrow> row option" where
  "selected p db s r = (case snap db s r of Some (Some v) \<Rightarrow> if p v then Some v else None | _ \<Rightarrow> None)"

lemma validated_selected:
  assumes inv: "db_inv db" and w: "writers_ok db" and t: "find_txn db tid = Some t" "txn_state t = RUNNING" "txn_isolation t = SERIALIZABLE"
    and wt: "write_set t \<noteq> []" and ver: "verify_txn db tid t = Some (Inr True)"
    and h: "db_catalog db oid = Some h" "fst r \<in> set (page_directory h)"
    and p: "map_of (scan_predicates t) oid = Some preds" "p \<in> set preds"
  shows "selected p db (read_ts t) r = selected p db (last_commit_ts db) r"
proof -
  note inv0 = db_invD(1) [OF inv]
  have live: "txn_live t" using t(2) by (simp add: txn_live_def)
  have rts: "db_watermark db \<le> read_ts t" "read_ts t \<le> last_commit_ts db"
    using wm_bounds(3) [OF inv0 t(1) live] mvcc_invD(7) [OF inv0 t(1)] by (auto simp: txn_ok_def)
  show ?thesis
  proof (cases "committed_ts db r \<le> read_ts t")
    case True
    then show ?thesis using snap_current [OF inv True rts] by (simp add: selected_def)
  next
    case False
    then obtain i u where u: "wrote db i u r" "committed u" "commit_ts u = committed_ts db r"
      using writers_okD(4) [OF w, of r] rts by auto
    then obtain oid' where o: "(oid', r) \<in> set (written u)" "find_txn db i = Some u" by (auto simp: wrote_def writes_def)
    then obtain h' where h': "db_catalog db oid' = Some h'" "fst r \<in> set (page_directory h')"
      using mvcc_invD(7) [OF inv0 o(2)] by (auto simp: txn_ok_def)
    have "oid' = oid" using mvcc_invD(3) [OF inv0] h h' unfolding heaps_ok_def by blast
    moreover have "i \<noteq> tid" using u(2) o(2) t by (auto simp: committed_def)
    ultimately have "(oid, r) \<in> set (suspects db tid t)" using suspectsI [OF o(2) _ u(2) _ o(1)] False u(3) by auto
    moreover have "verify_loop db t (suspects db tid t) = Some (Inr True)" using ver t(3) wt by (simp add: verify_txn_def)
    ultimately have nc: "rid_conflicts_with_reads db t oid r = Some (Inr False)" using verify_loop_True h(1) by fastforce
    have "\<not> p v" if "snap db s r = Some (Some v)" "read_ts t \<le> s" "s \<le> last_commit_ts db" for s v
      using no_conflict_values [OF inv nc _ that(2,3,1)] False p by (auto simp: is_scan_tuple_def)
    then show ?thesis using rts by (auto simp: selected_def split: option.splits)
  qed
qed

section \<open>A serializable run\<close>

text \<open>A serializable transaction that scans the whole table of \<^const>\<open>demo_loaded\<close> and deletes its row.\<close>

definition ser_scanned :: db where
  "ser_scanned = (let db = snd (begin_shared SERIALIZABLE 0 demo_loaded)
     in put_txn (TXN_START_ID + 1) (append_scan_predicate 1 (\<lambda>_. True) (the (find_txn db (TXN_START_ID + 1)))) db)"

definition ser_deleted :: db where
  "ser_deleted = snd (apply_mvcc_modify (TXN_START_ID + 1) 1 demo_rid True [] 0 ser_scanned)"

lemma ser_scanned_facts:
  "db_reachable ser_scanned"
  "find_txn ser_scanned = (find_txn demo_loaded)(TXN_START_ID + 1 \<mapsto>
     append_scan_predicate 1 (\<lambda>_. True) ((txn_new (TXN_START_ID + 1) SERIALIZABLE 0)\<lparr>read_ts := 1\<rparr>))"
  "row_at (db_store ser_scanned) = row_at (db_store demo_loaded)" "db_catalog ser_scanned = db_catalog demo_loaded"
  "last_commit_ts ser_scanned = 1"
proof -
  note o = demo_loaded_facts
  let ?t = "(txn_new (TXN_START_ID + 1) SERIALIZABLE 0)\<lparr>read_ts := 1\<rparr>"
  obtain db' where b: "begin_shared SERIALIZABLE 0 demo_loaded = (Inr (TXN_START_ID + 1), db')"
    "find_txn db' = (find_txn demo_loaded)(TXN_START_ID + 1 \<mapsto> ?t)" "db_store db' = db_store demo_loaded"
    "db_catalog db' = db_catalog demo_loaded" "last_commit_ts db' = 1"
    using begin_effect [OF reachable_inv [OF o(1)], of SERIALIZABLE 0] o(5,6) by metis
  have f: "find_txn db' (TXN_START_ID + 1) = Some ?t" using b(2) by simp
  have d: "ser_scanned = put_txn (TXN_START_ID + 1) (append_scan_predicate 1 (\<lambda>_. True) ?t) db'"
    using b(1) f by (simp add: ser_scanned_def Let_def)
  have "db_reachable db'" by (rule db_reachable.reach_step [OF o(1) db_step.step_begin [OF b(1)]])
  then show "db_reachable ser_scanned"
    unfolding d by (rule db_reachable.reach_step [OF _ db_step.step_record_scan [OF f]])
  show "find_txn ser_scanned = (find_txn demo_loaded)(TXN_START_ID + 1 \<mapsto> append_scan_predicate 1 (\<lambda>_. True) ?t)"
    "row_at (db_store ser_scanned) = row_at (db_store demo_loaded)" "db_catalog ser_scanned = db_catalog demo_loaded"
    "last_commit_ts ser_scanned = 1" using b by (simp_all add: d)
qed

lemma ser_deleted_facts:
  "db_reachable ser_deleted" "last_commit_ts ser_deleted = 1"
  "\<exists>t. find_txn ser_deleted = (find_txn demo_loaded)(TXN_START_ID + 1 \<mapsto> t) \<and> txn_state t = RUNNING \<and>
     txn_isolation t = SERIALIZABLE \<and> \<not> cancellation_requested t \<and> write_set t \<noteq> [] \<and> read_ts t = 1 \<and>
     map_of (scan_predicates t) 1 = Some [\<lambda>_. True]"
  "row_at (db_store ser_deleted) demo_rid = Some (\<lparr>ts = TXN_START_ID + 1, is_deleted = True\<rparr>, [7, 8])"
  "\<exists>h. db_catalog ser_deleted 1 = Some h \<and> fst demo_rid \<in> set (page_directory h)"
  "snap ser_deleted 1 demo_rid = Some (Some [7, 8])"
proof -
  note o = ser_scanned_facts and l = demo_loaded_facts
  let ?t = "append_scan_predicate 1 (\<lambda>_. True) ((txn_new (TXN_START_ID + 1) SERIALIZABLE 0)\<lparr>read_ts := 1\<rparr>)"
  have t: "find_txn ser_scanned (TXN_START_ID + 1) = Some ?t" "txn_live ?t" "txn_state ?t = RUNNING" "read_ts ?t = 1"
    "txn_isolation ?t = SERIALIZABLE" "\<not> cancellation_requested ?t" "map_of (scan_predicates ?t) 1 = Some [\<lambda>_. True]"
    using o(2) by (simp_all add: append_scan_predicate_def txn_new_def txn_live_def Let_def)
  obtain h where h: "db_catalog ser_scanned 1 = Some h" "fst demo_rid \<in> set (page_directory h)" using o(4) l(7) by auto
  have at: "row_at (db_store ser_scanned) demo_rid = Some (\<lparr>ts = 1, is_deleted = False\<rparr>, [7, 8])" using o(3) l(3) by simp
  have old: "ts \<lparr>ts = 1, is_deleted = False\<rparr> \<le> read_ts ?t" using t(4) by simp
  from delete_one [OF reachable_inv [OF o(1)] t(1,2) h at old demo_inserted_facts(2)] obtain db' where
    res: "apply_mvcc_modify (TXN_START_ID + 1) 1 demo_rid True [] 0 ser_scanned = (Inr (), db')"
    and rows: "row_at (db_store db') = (row_at (db_store ser_scanned))(demo_rid \<mapsto> (\<lparr>ts = TXN_START_ID + 1, is_deleted = True\<rparr>, [7, 8]))"
    and cat: "db_catalog db' = db_catalog ser_scanned" "last_commit_ts db' = last_commit_ts ser_scanned" by metis
  have d: "ser_deleted = db'" using res by (simp add: ser_deleted_def)
  have "db_step (Some (TXN_START_ID + 1)) ser_scanned db'"
    by (rule db_step.step_modify [OF t(1,2) h demo_inserted_facts(2) _ _ res]) simp_all
  then show re: "db_reachable ser_deleted" unfolding d by (rule db_reachable.reach_step [OF o(1)])
  note ap = apply_mvcc_modify_inv [OF db_invD(1) [OF reachable_inv [OF o(1)]] t(1,2) h demo_inserted_facts(2) _ _ res]
  have "snap ser_deleted 1 demo_rid = snap ser_scanned 1 demo_rid"
    using ap wm_bounds(2) [OF db_invD(1) [OF reachable_inv [OF o(1)]]] o(5) d by simp
  then show "snap ser_deleted 1 demo_rid = Some (Some [7, 8])" using at by (simp add: snap_def)
  have "modifies (TXN_START_ID + 1) 1 demo_rid True (take 0 []) ser_scanned db'" using ap by simp
  then obtain t' b' k where m: "txn_grows ?t t'" "rewrites_row (TXN_START_ID + 1) t' demo_rid \<lparr>ts = TXN_START_ID + 1, is_deleted = True\<rparr> b' k ser_scanned db'"
    "set (written t') = insert (1, demo_rid) (set (written ?t))" "txn_isolation t' = txn_isolation ?t" "scan_predicates t' = scan_predicates ?t"
    using t(1) by (auto simp: modifies_def)
  obtain t2 where t2: "find_txn db' (TXN_START_ID + 1) = Some t2" "txn_state t2 = txn_state ?t" "cancellation_requested t2 = cancellation_requested ?t"
    using delete_one [OF reachable_inv [OF o(1)] t(1,2) h at old demo_inserted_facts(2)] res by (metis Pair_inject fun_upd_same)
  have f: "find_txn db' = (find_txn ser_scanned)(TXN_START_ID + 1 \<mapsto> t')" by (rule find_txn_rewrites [OF m(2)])
  have "t2 = t'" using f t2(1) by simp
  moreover have "write_set t' \<noteq> []" using m(3) by (auto simp: written_def)
  moreover have "read_ts t' = read_ts ?t" using m(1) by (simp add: txn_grows_def)
  ultimately show "\<exists>t. find_txn ser_deleted = (find_txn demo_loaded)(TXN_START_ID + 1 \<mapsto> t) \<and> txn_state t = RUNNING \<and>
     txn_isolation t = SERIALIZABLE \<and> \<not> cancellation_requested t \<and> write_set t \<noteq> [] \<and> read_ts t = 1 \<and>
     map_of (scan_predicates t) 1 = Some [\<lambda>_. True]"
    using f o(2) d t2 t m(4,5) by (intro exI [of _ t']) simp
  show "row_at (db_store ser_deleted) demo_rid = Some (\<lparr>ts = TXN_START_ID + 1, is_deleted = True\<rparr>, [7, 8])"
    "last_commit_ts ser_deleted = 1" "\<exists>h. db_catalog ser_deleted 1 = Some h \<and> fst demo_rid \<in> set (page_directory h)"
    using rows d cat o h by simp_all
qed

section \<open>Properties\<close>







end
