(* ===== verification/Numeric.thy ===== *)
theory Numeric
  imports Prelude
begin

text \<open>
  Numbers and their decimal text: the integer types of the engine with their limits
  (\<^verbatim>\<open>common/limits.{h,cpp}\<close>), the checked conversion between them and the integer parser
  (\<^verbatim>\<open>type/vector/operator/cast_operators.h\<close>), and the digit-pair formatter
  (\<^verbatim>\<open>common/numeric_utils.{h,cpp}\<close>).

  A formatter writes backwards into a buffer whose size was computed beforehand; \<open>write_back\<close> is that
  buffer, and writing in front of it is an error value. Scaling by a decimal exponent is done in
  floating point in the source and is a parameter of the parser.
\<close>

section \<open>Integer types\<close>

datatype int_type = I8 | I16 | I32 | I64 | U8 | U16 | U32 | U64

fun type_bits :: "int_type \<Rightarrow> nat" where
  "type_bits I8 = 8"
| "type_bits I16 = 16"
| "type_bits I32 = 32"
| "type_bits I64 = 64"
| "type_bits U8 = 8"
| "type_bits U16 = 16"
| "type_bits U32 = 32"
| "type_bits U64 = 64"

fun is_signed :: "int_type \<Rightarrow> bool" where
  "is_signed I8 = True"
| "is_signed I16 = True"
| "is_signed I32 = True"
| "is_signed I64 = True"
| "is_signed U8 = False"
| "is_signed U16 = False"
| "is_signed U32 = False"
| "is_signed U64 = False"

fun type_digits :: "int_type \<Rightarrow> nat" where
  "type_digits I8 = 3"
| "type_digits I16 = 5"
| "type_digits I32 = 10"
| "type_digits I64 = 19"
| "type_digits U8 = 3"
| "type_digits U16 = 5"
| "type_digits U32 = 10"
| "type_digits U64 = 20"

definition type_min :: "int_type \<Rightarrow> int" where
  "type_min T = (if is_signed T then - (2 ^ (type_bits T - 1)) else 0)"

definition type_max :: "int_type \<Rightarrow> int" where
  "type_max T = (if is_signed T then 2 ^ (type_bits T - 1) - 1 else 2 ^ type_bits T - 1)"

definition in_type :: "int_type \<Rightarrow> int \<Rightarrow> bool" where
  "in_type T v \<longleftrightarrow> type_min T \<le> v \<and> v \<le> type_max T"

text \<open>\<^verbatim>\<open>static_cast\<close> to an integer type, and C++ division, which truncates.\<close>

definition static_cast :: "int_type \<Rightarrow> int \<Rightarrow> int" where
  "static_cast T v = (v - type_min T) mod 2 ^ type_bits T + type_min T"

definition c_div :: "int \<Rightarrow> int \<Rightarrow> int" where
  "c_div a b = (if a < 0 then - ((- a) div b) else a div b)"

definition numeric_try_cast :: "int_type \<Rightarrow> int_type \<Rightarrow> int \<Rightarrow> int option" where
  "numeric_try_cast S D v =
     (if is_signed S \<noteq> is_signed D then
        if is_signed S then
          if type_digits S > type_digits D then
            if v < 0 \<or> v > static_cast S (type_max D) then None else Some (static_cast D v)
          else if v < 0 then None else Some (static_cast D v)
        else if type_digits S \<ge> type_digits D then
          if v \<le> static_cast S (type_max D) then Some (static_cast D v) else None
        else Some (static_cast D v)
      else if type_digits D \<ge> type_digits S then Some (static_cast D v)
      else if v < static_cast S (type_min D) \<or> v > static_cast S (type_max D) then None
      else Some (static_cast D v))"

section \<open>Characters\<close>

definition is_digit :: "char \<Rightarrow> bool" where
  "is_digit c \<longleftrightarrow> (48 :: nat) \<le> of_char c \<and> of_char c \<le> (57 :: nat)"

definition is_space :: "char \<Rightarrow> bool" where
  "is_space c \<longleftrightarrow> c = CHR '' '' \<or> c = CHR 0x09 \<or> c = CHR 0x0A \<or> c = CHR 0x0B \<or> c = CHR 0x0C \<or> c = CHR 0x0D"

definition to_lower :: "char \<Rightarrow> char" where
  "to_lower c = (if (65 :: nat) \<le> of_char c \<and> of_char c \<le> (90 :: nat) then char_of (of_char c + (32 :: nat)) else c)"

definition digit_val :: "char \<Rightarrow> nat" where
  "digit_val c = of_char c - 48"

definition digit_char :: "nat \<Rightarrow> char" where
  "digit_char n = char_of (48 + n)"

section \<open>Formatting\<close>

definition DIGITS :: string where
  "DIGITS = ''0001020304050607080910111213141516171819'' @ ''2021222324252627282930313233343536373839'' @
     ''4041424344454647484950515253545556575859'' @ ''6061626364656667686970717273747576777879'' @
     ''8081828384858687888990919293949596979899''"

text \<open>The digits of a value in front of what is already in the buffer, two at a time.\<close>

fun format_unsigned :: "nat \<Rightarrow> string \<Rightarrow> string" where
  "format_unsigned v acc =
     (if v \<ge> 100
      then format_unsigned (v div 100) (DIGITS ! (v mod 100 * 2) # DIGITS ! (v mod 100 * 2 + 1) # acc)
      else if v < 10 then digit_char v # acc
      else DIGITS ! (v * 2) # DIGITS ! (v * 2 + 1) # acc)"

declare format_unsigned.simps [simp del]

definition write_back :: "string \<Rightarrow> string \<Rightarrow> string result" where
  "write_back buf s = (if length s \<le> length buf then Inr (take (length buf - length s) buf @ s) else Inl OutOfPageAccess)"

definition at_least :: "nat \<Rightarrow> nat \<Rightarrow> nat" where
  "at_least b v = (if v \<ge> b then 1 else 0)"

text \<open>The four specialisations of \<^verbatim>\<open>UnsignedLength\<close>, by the number of bits.\<close>

definition unsigned_length_8 :: "nat \<Rightarrow> nat" where
  "unsigned_length_8 v = 1 + at_least 10 v + at_least 100 v"

definition unsigned_length_16 :: "nat \<Rightarrow> nat" where
  "unsigned_length_16 v = 1 + at_least 10 v + at_least 100 v + at_least 1000 v + at_least 10000 v"

definition unsigned_length_32 :: "nat \<Rightarrow> nat" where
  "unsigned_length_32 v =
     (if v \<ge> 10000
      then 5 + at_least 100000 v + at_least 1000000 v + at_least 10000000 v + at_least 100000000 v + at_least 1000000000 v
      else 1 + at_least 10 v + at_least 100 v + at_least 1000 v)"

definition unsigned_length_64 :: "nat \<Rightarrow> nat" where
  "unsigned_length_64 v =
     (if v \<ge> 10000000000 then
        if v \<ge> 1000000000000000
        then 16 + at_least 10000000000000000 v + at_least 100000000000000000 v + at_least 1000000000000000000 v +
             at_least 10000000000000000000 v
        else 11 + at_least 100000000000 v + at_least 1000000000000 v + at_least 10000000000000 v +
             at_least 100000000000000 v
      else if v \<ge> 100000
      then 6 + at_least 1000000 v + at_least 10000000 v + at_least 100000000 v + at_least 1000000000 v
      else 1 + at_least 10 v + at_least 100 v + at_least 1000 v + at_least 10000 v)"

definition unsigned_length :: "int_type \<Rightarrow> nat \<Rightarrow> nat" where
  "unsigned_length T v =
     (if type_bits T = 8 then unsigned_length_8 v
      else if type_bits T = 16 then unsigned_length_16 v
      else if type_bits T = 32 then unsigned_length_32 v
      else unsigned_length_64 v)"

text \<open>\<^verbatim>\<open>UNSIGNED(value ^ sign) - sign\<close> with \<open>sign\<close> all ones for a negative value.\<close>

definition magnitude :: "int_type \<Rightarrow> int \<Rightarrow> nat" where
  "magnitude T v = (let sign = (if v < 0 then - 1 else 0) in nat (((v XOR sign) - sign) mod 2 ^ type_bits T))"

definition signed_length :: "int_type \<Rightarrow> int \<Rightarrow> nat" where
  "signed_length T v = unsigned_length T (magnitude T v) + (if v < 0 then 1 else 0)"

definition format_signed :: "int_type \<Rightarrow> int \<Rightarrow> string result" where
  "format_signed T v =
     write_back (replicate (signed_length T v) (CHR 0x00))
       (if v < 0 then CHR ''-'' # format_unsigned (magnitude T v) [] else format_unsigned (magnitude T v) [])"

definition POWERS_OF_TEN :: "nat list" where
  "POWERS_OF_TEN = [1, 10, 100, 1000, 10000, 100000, 1000000, 10000000, 100000000, 1000000000, 10000000000,
     100000000000, 1000000000000, 10000000000000, 100000000000000, 1000000000000000, 10000000000000000,
     100000000000000000, 1000000000000000000, 0]"

definition decimal_length :: "int_type \<Rightarrow> nat \<Rightarrow> int \<Rightarrow> nat" where
  "decimal_length T scale v =
     (if scale = 0 then signed_length T v
      else max (scale + 2 + (if v < 0 then 1 else 0)) (signed_length T v + 1))"

definition pad_zeros :: "nat \<Rightarrow> string \<Rightarrow> string" where
  "pad_zeros n s = replicate (n - length s) (CHR ''0'') @ s"

text \<open>
  \<^verbatim>\<open>FormatDecimal\<close>. The backing integer is negated in its own type; the division is done in the
  unsigned counterpart for 32 and 64 bits and in \<^verbatim>\<open>int\<close>, by promotion, for the narrower types.
\<close>

definition format_decimal :: "int_type \<Rightarrow> nat \<Rightarrow> int \<Rightarrow> string result" where
  "format_decimal T scale v =
     (let dst = replicate (decimal_length T scale v) (CHR 0x00);
          value = static_cast T (if v < 0 then - v else v);
          dst1 = (if v < 0 then dst[0 := CHR ''-''] else dst)
      in if scale = 0 then write_back dst1 (format_unsigned (nat (value mod 2 ^ type_bits T)) [])
         else if length POWERS_OF_TEN \<le> scale then Inl OutOfPageAccess
         else let p = int (POWERS_OF_TEN ! scale) mod 2 ^ type_bits T;
                  operand = (if type_bits T < 32 then value else value mod 2 ^ type_bits T)
              in if p = 0 then Inl (AssertionFailed ''division by zero'')
                 else let minor = nat ((operand - c_div operand p * p) mod 2 ^ type_bits T);
                          major = nat (c_div operand p mod 2 ^ type_bits T)
                      in write_back dst1 (format_unsigned major (CHR ''.'' # pad_zeros scale (format_unsigned minor []))))"

section \<open>Parsing\<close>

definition handle_digit :: "int_type \<Rightarrow> bool \<Rightarrow> int \<Rightarrow> int \<Rightarrow> int option" where
  "handle_digit T negative result digit =
     (if negative
      then if result < c_div (type_min T + digit) 10 then None else Some (static_cast T (result * 10 - digit))
      else if result > c_div (type_max T - digit) 10 then None else Some (static_cast T (result * 10 + digit)))"

type_synonym exponent_op = "int \<Rightarrow> int \<Rightarrow> int option"

text \<open>
  \<^verbatim>\<open>IntegerCastLoop\<close> from its current position: \<open>started\<close> is \<^verbatim>\<open>pos > start_pos\<close>, \<open>ex\<close> is
  \<^verbatim>\<open>HandleExponent\<close> where the template allows an exponent.
\<close>

function (sequential) int_loop :: "int_type \<Rightarrow> bool \<Rightarrow> exponent_op option \<Rightarrow> bool \<Rightarrow> string \<Rightarrow> int \<Rightarrow> int option" where
  "int_loop T negative ex started [] result = (if started then Some result else None)"
| "int_loop T negative ex started (c # cs) result =
     (if is_digit c then
        (case handle_digit T negative result (int (digit_val c)) of
           None \<Rightarrow> None
         | Some r \<Rightarrow> int_loop T negative ex True cs r)
      else if c = CHR ''.'' then None
      else if is_space c then if list_all is_space cs then Some result else None
      else case ex of
             None \<Rightarrow> None
           | Some handle_exponent \<Rightarrow>
               if c = CHR ''e'' \<or> c = CHR ''E'' then
                 if \<not> started \<or> cs = [] then None
                 else let neg = (hd cs = CHR ''-'');
                          rest = (if neg \<or> hd cs = CHR ''+'' then tl cs else cs)
                      in (case int_loop I64 neg None False rest 0 of
                            None \<Rightarrow> None
                          | Some e \<Rightarrow> handle_exponent result e)
               else None)"
  by pat_completeness auto
termination
  by (relation "measure (\<lambda>(_, _, _, _, cs, _). length cs)") auto

definition integer_cast_loop :: "int_type \<Rightarrow> bool \<Rightarrow> exponent_op option \<Rightarrow> string \<Rightarrow> int \<Rightarrow> int option" where
  "integer_cast_loop T negative ex buf result =
     int_loop T negative ex False (if negative \<or> hd buf = CHR ''+'' then tl buf else buf) result"

definition try_integer_cast :: "int_type \<Rightarrow> exponent_op option \<Rightarrow> string \<Rightarrow> int option" where
  "try_integer_cast T ex s =
     (let buf = dropWhile is_space s
      in if buf = [] then None
         else let negative = (hd buf = CHR ''-'')
              in if \<not> negative then integer_cast_loop T False ex buf 0
                 else if \<not> is_signed T \<and> \<not> list_all (\<lambda>c. c = CHR ''0'') (tl buf) then None
                 else integer_cast_loop T True ex buf 0)"

section \<open>Digits\<close>

definition digits_val :: "nat \<Rightarrow> string \<Rightarrow> nat" where
  "digits_val a s = foldl (\<lambda>n c. n * 10 + digit_val c) a s"

lemma digits_val_simps [simp]:
  "digits_val a [] = a" "digits_val a (c # s) = digits_val (a * 10 + digit_val c) s"
  "digits_val a (s @ t) = digits_val (digits_val a s) t"
  by (simp_all add: digits_val_def)

lemma digits_val_add: "digits_val a s = a * 10 ^ length s + digits_val 0 s"
proof (induction s arbitrary: a)
  case (Cons c s)
  show ?case using Cons [of "a * 10 + digit_val c"] Cons [of "digit_val c"] by (simp add: algebra_simps)
qed simp

lemma digits_val_le: "a \<le> digits_val a s"
proof -
  have "a * 1 \<le> a * 10 ^ length s" by (rule mult_le_mono2) simp
  then show ?thesis by (subst digits_val_add) linarith
qed

lemma digit_char [simp]: "n < 10 \<Longrightarrow> is_digit (digit_char n) \<and> digit_val (digit_char n) = n"
  by (simp add: is_digit_def digit_val_def digit_char_def)

lemma digit_val_less: "is_digit c \<Longrightarrow> digit_val c < 10"
  by (auto simp: is_digit_def digit_val_def)

lemma nth_pairs:
  "v < n \<Longrightarrow> concat (map (\<lambda>i. [f i, g i]) [0..<n]) ! (v * 2) = f v \<and> concat (map (\<lambda>i. [f i, g i]) [0..<n]) ! (v * 2 + 1) = g v"
proof (induction n)
  case (Suc n)
  have "length (concat (map (\<lambda>i. [f i, g i]) [0..<n])) = n * 2" by (induction n) auto
  with Suc show ?case by (cases "v = n") (auto simp: nth_append)
qed simp

lemma DIGITS_codes: "map of_char DIGITS = concat (map (\<lambda>i. [48 + i div 10, 48 + i mod 10 :: nat]) [0..<100])"
  by code_simp

lemma DIGITS_pairs:
  assumes "v < 100"
  shows "is_digit (DIGITS ! (v * 2)) \<and> is_digit (DIGITS ! (v * 2 + 1)) \<and>
     digit_val (DIGITS ! (v * 2)) = v div 10 \<and> digit_val (DIGITS ! (v * 2 + 1)) = v mod 10"
proof -
  have "length DIGITS = 200" by (simp add: DIGITS_def)
  then have at: "(of_char (DIGITS ! k) :: nat) = concat (map (\<lambda>i. [48 + i div 10, 48 + i mod 10]) [0..<100]) ! k"
    if "k < 200" for k using that unfolding DIGITS_codes [symmetric] by simp
  have "of_char (DIGITS ! (v * 2)) = 48 + v div 10" "of_char (DIGITS ! (v * 2 + 1)) = 48 + v mod 10"
    using assms at [of "v * 2"] at [of "v * 2 + 1"] nth_pairs [OF assms, of "\<lambda>i. 48 + i div 10" "\<lambda>i. 48 + i mod 10"] by auto
  moreover have "v div 10 < 10" "v mod 10 < 10" using assms by auto
  ultimately show ?thesis by (simp add: is_digit_def digit_val_def)
qed

text \<open>The digit-pair loop writes the decimal representation, without leading zeros.\<close>

lemma format_unsigned_append: "format_unsigned v acc = format_unsigned v [] @ acc"
proof (induction v arbitrary: acc rule: less_induct)
  case (less v)
  show ?case
  proof (cases "v \<ge> 100")
    case True
    then have d: "v div 100 < v" by simp
    let ?p = "[DIGITS ! (v mod 100 * 2), DIGITS ! (v mod 100 * 2 + 1)]"
    have "format_unsigned v acc = format_unsigned (v div 100) (?p @ acc)" "format_unsigned v [] = format_unsigned (v div 100) ?p"
      using True by (simp_all add: format_unsigned.simps [of v])
    then show ?thesis using less [OF d, of "?p @ acc"] less [OF d, of ?p] by simp
  next
    case False
    then show ?thesis by (simp add: format_unsigned.simps [of v])
  qed
qed

lemma format_unsigned_step:
  "v \<ge> 100 \<Longrightarrow> format_unsigned v [] = format_unsigned (v div 100) [] @ [DIGITS ! (v mod 100 * 2), DIGITS ! (v mod 100 * 2 + 1)]"
  by (subst format_unsigned.simps) (simp add: format_unsigned_append [of "v div 100" "[_, _]"])

lemma format_unsigned_digits:
  "list_all is_digit (format_unsigned v []) \<and> digits_val 0 (format_unsigned v []) = v \<and> format_unsigned v [] \<noteq> []"
proof (induction v rule: less_induct)
  case (less v)
  show ?case
  proof (cases "v \<ge> 100")
    case True
    have m: "v mod 100 < 100" "v mod 100 div 10 < 10" by auto
    have "digits_val 0 (format_unsigned v []) = (v div 100 * 10 + v mod 100 div 10) * 10 + v mod 100 mod 10"
      using less [of "v div 100"] True DIGITS_pairs [OF m(1)] by (simp add: format_unsigned_step [OF True])
    also have "\<dots> = v div 100 * 100 + (v mod 100 div 10 * 10 + v mod 100 mod 10)" by simp
    also have "\<dots> = v" by (simp only: div_mult_mod_eq)
    finally show ?thesis using less [of "v div 100"] True DIGITS_pairs [OF m(1)] by (simp add: format_unsigned_step [OF True])
  next
    case False
    then show ?thesis using DIGITS_pairs [of v] by (simp add: format_unsigned.simps [of v])
  qed
qed

text \<open>Its length is the number of decimal digits.\<close>

lemma length_format_unsigned:
  "length (format_unsigned v []) = (if v < 10 then 1 else Suc (length (format_unsigned (v div 10) [])))"
proof (induction v rule: less_induct)
  case (less v)
  have two: "length (format_unsigned w []) = length (format_unsigned (w div 100) []) + 2" if "w \<ge> 100" for w
    using that by (simp add: format_unsigned_step)
  have small: "length (format_unsigned w []) = (if w < 10 then 1 else 2)" if "w < 100" for w
    using that by (simp add: format_unsigned.simps [of w])
  consider "v < 10" | "10 \<le> v" "v < 100" | "100 \<le> v" "v < 1000" | "1000 \<le> v" by linarith
  then show ?case
  proof cases
    case 2
    then show ?thesis using small [of v] small [of "v div 10"] by simp
  next
    case 3
    then have "v div 100 < 10" "10 \<le> v div 10" "v div 10 < 100" by auto
    then show ?thesis using two [of v] 3 small [of "v div 100"] small [of "v div 10"] by simp
  next
    case 4
    have "v div 100 div 10 = v div 10 div 100" by (simp add: div_mult2_eq [symmetric])
    moreover have "10 \<le> v div 100" "100 \<le> v div 10" using 4 by auto
    ultimately show ?thesis using two [of v] two [of "v div 10"] less [of "v div 100"] 4 by simp
  qed (use small [of v] in simp)
qed

lemma format_unsigned_length_iff: "length (format_unsigned v []) \<le> Suc n \<longleftrightarrow> v < 10 ^ Suc n"
proof (induction n arbitrary: v)
  case 0
  then show ?case using format_unsigned_digits [of "v div 10"] by (subst length_format_unsigned) auto
next
  case (Suc n)
  show ?case
  proof (cases "v < 10")
    case True
    moreover have "(10 :: nat) \<le> 10 ^ Suc (Suc n)" by simp
    ultimately show ?thesis by (subst length_format_unsigned) (simp del: power_Suc)
  next
    case False
    then have "length (format_unsigned v []) \<le> Suc (Suc n) \<longleftrightarrow> v div 10 < 10 ^ Suc n"
      using Suc by (subst length_format_unsigned) simp
    also have "\<dots> \<longleftrightarrow> v < 10 ^ Suc (Suc n)" by (simp add: div_less_iff_less_mult mult.commute)
    finally show ?thesis .
  qed
qed

section \<open>Lengths\<close>

lemma less_power_iff: "0 < n \<Longrightarrow> v < 10 ^ n \<longleftrightarrow> length (format_unsigned v []) \<le> n"
  using format_unsigned_length_iff [of v "n - 1"] by simp

lemma unsigned_length_correct:
  assumes "v < 2 ^ type_bits T"
  shows "unsigned_length T v = length (format_unsigned v [])"
proof -
  define l where "l = length (format_unsigned v [])"
  have le: "l \<le> n \<longleftrightarrow> v < 10 ^ n" if "0 < n" for n using that less_power_iff by (simp add: l_def)
  have ge: "10 ^ n \<le> v \<longleftrightarrow> n < l" if "0 < n" for n using le [OF that] by auto
  note G = ge [of 1, simplified] ge [of 2, simplified] ge [of 3, simplified] ge [of 4, simplified] ge [of 5, simplified]
    ge [of 6, simplified] ge [of 7, simplified] ge [of 8, simplified] ge [of 9, simplified] ge [of 10, simplified]
    ge [of 11, simplified] ge [of 12, simplified] ge [of 13, simplified] ge [of 14, simplified] ge [of 15, simplified]
    ge [of 16, simplified] ge [of 17, simplified] ge [of 18, simplified] ge [of 19, simplified]
  have pos: "0 < l" using format_unsigned_digits [of v] by (simp add: l_def)
  have bnd: "type_bits T = 8 \<Longrightarrow> l \<le> 3" "type_bits T = 16 \<Longrightarrow> l \<le> 5" "type_bits T = 32 \<Longrightarrow> l \<le> 10" "l \<le> 20"
    using assms le [of 3] le [of 5] le [of 10] le [of 20] by (cases T; simp)+
  have cases: "l = 1 \<or> l = 2 \<or> l = 3 \<or> l = 4 \<or> l = 5 \<or> l = 6 \<or> l = 7 \<or> l = 8 \<or> l = 9 \<or> l = 10 \<or> l = 11 \<or> l = 12 \<or>
    l = 13 \<or> l = 14 \<or> l = 15 \<or> l = 16 \<or> l = 17 \<or> l = 18 \<or> l = 19 \<or> l = 20" using pos bnd(4) by presburger
  have "unsigned_length_64 v = l"
    using cases by (elim disjE) (simp_all add: unsigned_length_64_def at_least_def G)
  moreover have "l \<le> 10 \<Longrightarrow> unsigned_length_32 v = l"
    using cases by (elim disjE) (simp_all add: unsigned_length_32_def at_least_def G)
  moreover have "l \<le> 5 \<Longrightarrow> unsigned_length_16 v = l"
    using cases by (elim disjE) (simp_all add: unsigned_length_16_def at_least_def G)
  moreover have "l \<le> 3 \<Longrightarrow> unsigned_length_8 v = l"
    using cases by (elim disjE) (simp_all add: unsigned_length_8_def at_least_def G)
  ultimately show ?thesis using bnd by (auto simp: unsigned_length_def l_def)
qed

lemma magnitude_abs: "in_type T v \<Longrightarrow> magnitude T v = nat \<bar>v\<bar>"
proof -
  assume v: "in_type T v"
  then have "\<bar>v\<bar> < 2 ^ type_bits T" by (cases T) (auto simp: in_type_def type_min_def type_max_def)
  moreover have "v XOR - 1 = - v - 1" by (simp add: not_eq_complement)
  ultimately show ?thesis by (simp add: magnitude_def Let_def)
qed

lemma write_back_exact: "length buf = length s \<Longrightarrow> write_back buf s = Inr s"
  by (simp add: write_back_def)

lemma in_type_magnitude: "in_type T v \<Longrightarrow> nat \<bar>v\<bar> < 2 ^ type_bits T"
  by (cases T) (auto simp: in_type_def type_min_def type_max_def)

lemma format_signed_text:
  assumes "in_type T v"
  shows "format_signed T v = Inr ((if v < 0 then ''-'' else []) @ format_unsigned (nat \<bar>v\<bar>) [])"
  using unsigned_length_correct [OF in_type_magnitude [OF assms]]
  by (simp add: format_signed_def magnitude_abs [OF assms] signed_length_def write_back_exact)

section \<open>Parsing digits\<close>

lemma static_cast_id: "in_type T v \<Longrightarrow> static_cast T v = v"
  by (cases T) (auto simp: static_cast_def in_type_def type_min_def type_max_def)

lemma c_div_10: "c_div a 10 = (if a < 0 then - ((- a) div 10) else a div 10)"
  by (simp add: c_div_def)

text \<open>The overflow test in front of each digit is exact.\<close>

lemma handle_digit_exact:
  assumes d: "0 \<le> d" "d \<le> 9" and r: "if negative then r \<le> 0 else 0 \<le> r" and u: "negative \<Longrightarrow> is_signed T \<or> d = 0 \<and> r = 0"
  shows "handle_digit T negative r d =
     (let r' = (if negative then r * 10 - d else r * 10 + d) in if in_type T r' then Some r' else None)"
proof (cases negative)
  case True
  have m: "0 \<le> type_max T" "is_signed T \<Longrightarrow> type_min T \<le> - 128" "\<not> is_signed T \<Longrightarrow> type_min T = 0"
    by (cases T; simp add: type_max_def type_min_def)+
  show ?thesis
  proof (cases "is_signed T")
    case sg: True
    have "r < c_div (type_min T + d) 10 \<longleftrightarrow> r * 10 - d < type_min T"
      using m(2) [OF sg] d unfolding c_div_10 by simp presburger
    moreover have "r * 10 - d \<le> type_max T" using d(1) r True m(1) by simp
    ultimately show ?thesis using True by (auto simp: handle_digit_def in_type_def static_cast_id)
  next
    case False
    then show ?thesis using u [OF True] m True by (simp add: handle_digit_def in_type_def c_div_10 static_cast_id)
  qed
next
  case False
  have m: "9 \<le> type_max T" "type_min T \<le> 0" by (cases T; simp add: type_max_def type_min_def)+
  have "r > c_div (type_max T - d) 10 \<longleftrightarrow> type_max T < r * 10 + d"
    using m d unfolding c_div_10 by auto
  moreover have "type_min T \<le> r * 10 + d" using d(1) r False m by auto
  ultimately show ?thesis using False by (auto simp: handle_digit_def in_type_def static_cast_id)
qed

lemma int_loop_digits:
  assumes "list_all is_digit ds" and "if negative then r \<le> 0 else 0 \<le> r" and "in_type T r" and "ds \<noteq> [] \<or> started"
    and "negative \<Longrightarrow> is_signed T \<or> r = 0 \<and> list_all (\<lambda>c. c = CHR ''0'') ds"
  shows "int_loop T negative ex started ds r =
     (let v = (if negative then - int (digits_val (nat (- r)) ds) else int (digits_val (nat r) ds))
      in if in_type T v then Some v else None)"
  using assms
proof (induction ds arbitrary: r started)
  case Nil
  then show ?case by (cases negative) (simp_all add: Let_def)
next
  case (Cons c ds)
  let ?d = "int (digit_val c)" and ?r = "if negative then r * 10 - int (digit_val c) else r * 10 + int (digit_val c)"
  have d: "0 \<le> ?d" "?d \<le> 9" using Cons.prems(1) digit_val_less [of c] by auto
  have sgn: "if negative then ?r \<le> 0 else 0 \<le> ?r" using Cons.prems(2) by auto
  have un: "negative \<Longrightarrow> is_signed T \<or> ?d = 0 \<and> r = 0" "negative \<Longrightarrow> is_signed T \<or> ?r = 0 \<and> list_all (\<lambda>c. c = CHR ''0'') ds"
    using Cons.prems(5) by (auto simp: digit_val_def)
  have step: "int_loop T negative ex started (c # ds) r = (if in_type T ?r then int_loop T negative ex True ds ?r else None)"
    using Cons.prems(1) handle_digit_exact [OF d Cons.prems(2) un(1)] by (simp add: Let_def)
  have val: "nat (- r) * 10 + digit_val c = nat (- ?r)" if negative using that Cons.prems(2) by auto
  have val': "nat r * 10 + digit_val c = nat ?r" if "\<not> negative" using that Cons.prems(2) by auto
  show ?case
  proof (cases "in_type T ?r")
    case True
    then show ?thesis using step Cons.IH [OF _ sgn True _ un(2), of True] Cons.prems(1) val val' by (cases negative) simp_all
  next
    case False
    have "\<not> in_type T (if negative then - int (digits_val (nat (- ?r)) ds) else int (digits_val (nat ?r) ds))"
    proof (cases negative)
      case True
      have "type_max T \<ge> 0" by (cases T) (simp_all add: type_max_def)
      then have "?r < type_min T" using False sgn True by (auto simp: in_type_def)
      then show ?thesis using digits_val_le [of "nat (- ?r)" ds] sgn True by (auto simp: in_type_def)
    next
      case False
      have "type_min T \<le> 0" by (cases T) (simp_all add: type_min_def)
      then have "?r > type_max T" using \<open>\<not> in_type T ?r\<close> sgn False by (auto simp: in_type_def)
      then show ?thesis using digits_val_le [of "nat ?r" ds] sgn False by (auto simp: in_type_def)
    qed
    then show ?thesis using step False val val' by (cases negative) (simp_all add: Let_def)
  qed
qed

section \<open>Decimals\<close>

lemma length_format_unsigned_div: "10 ^ k \<le> v \<Longrightarrow> length (format_unsigned v []) = length (format_unsigned (v div 10 ^ k) []) + k"
proof (induction k arbitrary: v)
  case (Suc k)
  have "(10 :: nat) \<le> 10 ^ Suc k" by simp
  then have v: "10 \<le> v" using Suc.prems by linarith
  have "10 ^ k \<le> v div 10" using Suc.prems by (simp add: less_eq_div_iff_mult_less_eq mult.commute)
  from Suc.IH [OF this] show ?case using v by (subst length_format_unsigned) (simp add: div_mult2_eq)
qed simp

lemma digits_val_pad: "digits_val 0 (pad_zeros n s) = digits_val 0 s"
proof -
  have "digits_val 0 (replicate k (CHR ''0'')) = 0" for k by (induction k) (simp_all add: digit_val_def)
  then show ?thesis by (simp add: pad_zeros_def)
qed

lemma digit_pad: "list_all is_digit s \<Longrightarrow> list_all is_digit (pad_zeros n s)"
  by (auto simp: pad_zeros_def list_all_iff is_digit_def)

lemma length_pad: "length s \<le> n \<Longrightarrow> length (pad_zeros n s) = n"
  by (simp add: pad_zeros_def)

lemma POWERS_OF_TEN_powers: "POWERS_OF_TEN = map (\<lambda>k. 10 ^ k) [0..<19] @ [0]"
  by (simp add: POWERS_OF_TEN_def upt_rec)

lemma power_of_ten: "k \<le> 18 \<Longrightarrow> POWERS_OF_TEN ! k = 10 ^ k"
  by (simp add: POWERS_OF_TEN_powers nth_append)

lemma decimal_length_text:
  assumes v: "in_type T v" and s: "0 < scale"
    and f: "length f = scale" and i: "i = format_unsigned (nat \<bar>v\<bar> div 10 ^ scale) []"
  shows "decimal_length T scale v = length (i @ CHR ''.'' # f) + (if v < 0 then 1 else 0)"
proof -
  let ?a = "nat \<bar>v\<bar>" and ?n = "if v < 0 then 1 else 0 :: nat" and ?l = "length (format_unsigned (nat \<bar>v\<bar>) [])"
  have sl: "signed_length T v = ?l + ?n"
    using unsigned_length_correct [OF in_type_magnitude [OF v]] by (simp add: signed_length_def magnitude_abs [OF v])
  show ?thesis
  proof (cases "?a < 10 ^ scale")
    case True
    then have "?l \<le> scale" using less_power_iff [OF s] by blast
    moreover have "length i = 1" using True i by (simp add: format_unsigned.simps)
    ultimately show ?thesis using sl f s by (simp add: decimal_length_def)
  next
    case False
    then have l: "?l = length i + scale" unfolding i by (intro length_format_unsigned_div) (simp only: not_less)
    have "1 \<le> length i" using format_unsigned_digits [of "?a div 10 ^ scale"] i by (simp add: Suc_le_eq)
    then have "max (scale + 2 + ?n) (length i + scale + ?n + 1) = length i + Suc scale + ?n" by simp
    then show ?thesis using s unfolding decimal_length_def sl l length_append list.size f by simp
  qed
qed

lemma int_mod_id: "n < 2 ^ b \<Longrightarrow> int n mod 2 ^ b = int n"
  by (metis mod_less of_nat_mod of_nat_numeral of_nat_power)

lemma decimal_text:
  assumes v: "in_type T v" "- type_max T \<le> v" and s: "0 < scale" "scale \<le> 18" "10 ^ scale < (2 :: int) ^ type_bits T"
  shows "format_decimal T scale v = Inr ((if v < 0 then ''-'' else []) @ format_unsigned (nat \<bar>v\<bar> div 10 ^ scale) [] @
     CHR ''.'' # pad_zeros scale (format_unsigned (nat \<bar>v\<bar> mod 10 ^ scale) []))"
proof -
  let ?a = "nat \<bar>v\<bar>"
  let ?ip = "format_unsigned (?a div 10 ^ scale) []" and ?fp = "pad_zeros scale (format_unsigned (?a mod 10 ^ scale) [])"
  have a: "static_cast T (if v < 0 then - v else v) = int ?a"
    using v by (subst static_cast_id) (auto simp: in_type_def type_min_def split: if_splits)
  have lt: "?a < 2 ^ type_bits T" by (rule in_type_magnitude [OF v(1)])
  note a2 = int_mod_id [OF lt] and maj' = int_mod_id [OF order_le_less_trans [OF div_le_dividend lt], of "10 ^ scale"]
    and min' = int_mod_id [OF order_le_less_trans [OF mod_less_eq_dividend lt], of "10 ^ scale"]
  have p: "int (POWERS_OF_TEN ! scale) mod 2 ^ type_bits T = 10 ^ scale" "\<not> length POWERS_OF_TEN \<le> scale"
    using s power_of_ten [OF s(2)] by (simp_all add: POWERS_OF_TEN_powers)
  have maj: "c_div (int ?a) (10 ^ scale) = int (?a div 10 ^ scale)" by (simp add: c_div_def zdiv_int)
  have min: "int ?a - int (?a div 10 ^ scale) * 10 ^ scale = int (?a mod 10 ^ scale)"
    using arg_cong [OF div_mult_mod_eq [of ?a "10 ^ scale"], of int]
    by (simp only: of_nat_add of_nat_mult of_nat_power of_nat_numeral)
  have "?a mod 10 ^ scale < 10 ^ scale" by simp
  then have "length ?fp = scale" using less_power_iff [OF s(1)] length_pad by blast
  from decimal_length_text [OF v(1) s(1) this refl]
  have len: "decimal_length T scale v = length (?ip @ CHR ''.'' # ?fp) + (if v < 0 then 1 else 0)" .
  have "format_decimal T scale v = write_back (if v < 0 then (replicate (decimal_length T scale v) (CHR 0x00))[0 := CHR ''-'']
      else replicate (decimal_length T scale v) (CHR 0x00)) (?ip @ CHR ''.'' # ?fp)"
    using s(1) p(2) unfolding format_decimal_def Let_def a p a2 if_cancel maj maj' min min' nat_int
      format_unsigned_append [of "?a div 10 ^ scale" "CHR ''.'' # ?fp"] by simp
  then show ?thesis unfolding len by (simp add: write_back_def)
qed

section \<open>Properties\<close>

text \<open>
  (C34) The checked conversion between any two of the eight integer types succeeds exactly when the
  value is representable in the target type, and then does not change it.
\<close>

theorem numeric_try_cast_exact:
  assumes "in_type S v"
  shows "numeric_try_cast S D v = (if in_type D v then Some v else None)"
  using assms
  by (cases S; cases D) (auto simp: numeric_try_cast_def static_cast_def in_type_def type_min_def type_max_def)

theorem numeric_try_cast_exact_witness:
  "in_type I64 (- 129) \<and> numeric_try_cast I64 I8 (- 129) = None"
  using numeric_try_cast_exact [of I64 "- 129" I8] by (simp add: in_type_def type_min_def type_max_def)

text \<open>
  (C35) Rendering an integer and parsing the text gives the integer back, for every type and every
  value of it, the smallest negative one included; the rendering fills its buffer exactly.
\<close>

theorem integer_text_roundtrip:
  assumes "in_type T v"
  shows "\<exists>s. format_signed T v = Inr s \<and> length s = signed_length T v \<and> try_integer_cast T ex s = Some v"
proof -
  let ?ds = "format_unsigned (nat \<bar>v\<bar>) []"
  note f = format_signed_text [OF assms] and d = format_unsigned_digits [of "nat \<bar>v\<bar>"]
  obtain c cs where c: "?ds = c # cs" "is_digit c" using d by (cases ?ds) auto
  then have ns: "\<not> is_space c" "c \<noteq> CHR ''-''" "c \<noteq> CHR ''+''" by (auto simp: is_digit_def is_space_def)
  have z: "in_type T 0" by (cases T) (simp_all add: in_type_def type_min_def type_max_def)
  have len: "length ((if v < 0 then ''-'' else []) @ ?ds) = signed_length T v"
    using unsigned_length_correct [OF in_type_magnitude [OF assms]] by (simp add: signed_length_def magnitude_abs [OF assms])
  have "try_integer_cast T ex ((if v < 0 then ''-'' else []) @ ?ds) = Some v"
  proof (cases "v < 0")
    case True
    then have sg: "is_signed T" using assms by (cases T) (auto simp: in_type_def type_min_def)
    have "int_loop T True ex False ?ds 0 = Some v"
      using int_loop_digits [of ?ds True 0 T False ex] d z sg True assms by (simp add: Let_def)
    then show ?thesis using True sg by (simp add: try_integer_cast_def integer_cast_loop_def is_space_def)
  next
    case False
    have "int_loop T False ex False ?ds 0 = Some v"
      using int_loop_digits [of ?ds False 0 T False ex] d z False assms by (simp add: Let_def)
    then show ?thesis using False c ns by (simp add: try_integer_cast_def integer_cast_loop_def)
  qed
  then show ?thesis using f len by blast
qed

theorem integer_text_roundtrip_witness:
  "in_type I8 (- 128) \<and> (\<exists>s. format_signed I8 (- 128) = Inr s \<and> length s = signed_length I8 (- 128) \<and> try_integer_cast I8 None s = Some (- 128))"
  using integer_text_roundtrip [of I8 "- 128" None]
  by (simp add: in_type_def type_min_def type_max_def)



text \<open>
  A sign followed only by spaces is accepted as zero: the loop leaves at the first space with its
  position behind the sign, which the final test takes for a parsed digit.
\<close>

theorem sign_without_digits_parses:
  "try_integer_cast I64 ex ''- '' = Some 0 \<and> try_integer_cast U64 ex ''+ '' = Some 0"
  by (simp add: try_integer_cast_def integer_cast_loop_def is_space_def is_digit_def)



end
