(* ===== verification/Date.thy ===== *)
theory Date
  imports Numeric
begin

text \<open>
  Calendar dates: \<^verbatim>\<open>type/date.{h,cpp}\<close>. A date is a count of days since 1970-01-01; the code converts
  it to and from year, month and day with lookup tables over one period of 400 years. The tables are
  transcribed, and the conversions are proved to be inverse to each other on the whole 32-bit range.

  The text buffer of the parser is the list of the characters not yet consumed; \<open>pos\<close> of the source is
  the number of characters consumed.
\<close>

section \<open>Tables\<close>

definition NORMAL_DAYS :: "int list" where
  "NORMAL_DAYS = [
     0, 31, 28, 31, 30, 31, 30, 31, 31, 30, 31, 30, 31]"

definition CUMULATIVE_DAYS :: "int list" where
  "CUMULATIVE_DAYS = [
     0, 31, 59, 90, 120, 151, 181, 212, 243, 273, 304, 334, 365]"

definition LEAP_DAYS :: "int list" where
  "LEAP_DAYS = [
     0, 31, 29, 31, 30, 31, 30, 31, 31, 30, 31, 30, 31]"

definition CUMULATIVE_LEAP_DAYS :: "int list" where
  "CUMULATIVE_LEAP_DAYS = [
     0, 31, 60, 91, 121, 152, 182, 213, 244, 274, 305, 335, 366]"

definition MONTH_PER_DAY_OF_YEAR :: "int list" where
  "MONTH_PER_DAY_OF_YEAR = [
     1, 1, 1, 1, 1, 1, 1, 1, 1, 1, 1, 1, 1, 1, 1, 1, 1, 1, 1, 1, 1, 1, 1, 1, 1, 1, 1, 1, 1, 1, 1, 2, 2, 2, 2, 2, 2,
     2, 2, 2, 2, 2, 2, 2, 2, 2, 2, 2, 2, 2, 2, 2, 2, 2, 2, 2, 2, 2, 2, 3, 3, 3, 3, 3, 3, 3, 3, 3, 3, 3, 3, 3, 3, 3,
     3, 3, 3, 3, 3, 3, 3, 3, 3, 3, 3, 3, 3, 3, 3, 3, 4, 4, 4, 4, 4, 4, 4, 4, 4, 4, 4, 4, 4, 4, 4, 4, 4, 4, 4, 4, 4,
     4, 4, 4, 4, 4, 4, 4, 4, 4, 5, 5, 5, 5, 5, 5, 5, 5, 5, 5, 5, 5, 5, 5, 5, 5, 5, 5, 5, 5, 5, 5, 5, 5, 5, 5, 5, 5,
     5, 5, 5, 6, 6, 6, 6, 6, 6, 6, 6, 6, 6, 6, 6, 6, 6, 6, 6, 6, 6, 6, 6, 6, 6, 6, 6, 6, 6, 6, 6, 6, 6, 7, 7, 7, 7,
     7, 7, 7, 7, 7, 7, 7, 7, 7, 7, 7, 7, 7, 7, 7, 7, 7, 7, 7, 7, 7, 7, 7, 7, 7, 7, 7, 8, 8, 8, 8, 8, 8, 8, 8, 8, 8,
     8, 8, 8, 8, 8, 8, 8, 8, 8, 8, 8, 8, 8, 8, 8, 8, 8, 8, 8, 8, 8, 9, 9, 9, 9, 9, 9, 9, 9, 9, 9, 9, 9, 9, 9, 9, 9,
     9, 9, 9, 9, 9, 9, 9, 9, 9, 9, 9, 9, 9, 9, 10, 10, 10, 10, 10, 10, 10, 10, 10, 10, 10, 10, 10, 10, 10, 10, 10,
     10, 10, 10, 10, 10, 10, 10, 10, 10, 10, 10, 10, 10, 10, 11, 11, 11, 11, 11, 11, 11, 11, 11, 11, 11, 11, 11,
     11, 11, 11, 11, 11, 11, 11, 11, 11, 11, 11, 11, 11, 11, 11, 11, 11, 12, 12, 12, 12, 12, 12, 12, 12, 12, 12,
     12, 12, 12, 12, 12, 12, 12, 12, 12, 12, 12, 12, 12, 12, 12, 12, 12, 12, 12, 12, 12]"

definition LEAP_MONTH_PER_DAY_OF_YEAR :: "int list" where
  "LEAP_MONTH_PER_DAY_OF_YEAR = [
     1, 1, 1, 1, 1, 1, 1, 1, 1, 1, 1, 1, 1, 1, 1, 1, 1, 1, 1, 1, 1, 1, 1, 1, 1, 1, 1, 1, 1, 1, 1, 2, 2, 2, 2, 2, 2,
     2, 2, 2, 2, 2, 2, 2, 2, 2, 2, 2, 2, 2, 2, 2, 2, 2, 2, 2, 2, 2, 2, 2, 3, 3, 3, 3, 3, 3, 3, 3, 3, 3, 3, 3, 3, 3,
     3, 3, 3, 3, 3, 3, 3, 3, 3, 3, 3, 3, 3, 3, 3, 3, 3, 4, 4, 4, 4, 4, 4, 4, 4, 4, 4, 4, 4, 4, 4, 4, 4, 4, 4, 4, 4,
     4, 4, 4, 4, 4, 4, 4, 4, 4, 4, 5, 5, 5, 5, 5, 5, 5, 5, 5, 5, 5, 5, 5, 5, 5, 5, 5, 5, 5, 5, 5, 5, 5, 5, 5, 5, 5,
     5, 5, 5, 5, 6, 6, 6, 6, 6, 6, 6, 6, 6, 6, 6, 6, 6, 6, 6, 6, 6, 6, 6, 6, 6, 6, 6, 6, 6, 6, 6, 6, 6, 6, 7, 7, 7,
     7, 7, 7, 7, 7, 7, 7, 7, 7, 7, 7, 7, 7, 7, 7, 7, 7, 7, 7, 7, 7, 7, 7, 7, 7, 7, 7, 7, 8, 8, 8, 8, 8, 8, 8, 8, 8,
     8, 8, 8, 8, 8, 8, 8, 8, 8, 8, 8, 8, 8, 8, 8, 8, 8, 8, 8, 8, 8, 8, 9, 9, 9, 9, 9, 9, 9, 9, 9, 9, 9, 9, 9, 9, 9,
     9, 9, 9, 9, 9, 9, 9, 9, 9, 9, 9, 9, 9, 9, 9, 10, 10, 10, 10, 10, 10, 10, 10, 10, 10, 10, 10, 10, 10, 10, 10,
     10, 10, 10, 10, 10, 10, 10, 10, 10, 10, 10, 10, 10, 10, 10, 11, 11, 11, 11, 11, 11, 11, 11, 11, 11, 11, 11,
     11, 11, 11, 11, 11, 11, 11, 11, 11, 11, 11, 11, 11, 11, 11, 11, 11, 11, 12, 12, 12, 12, 12, 12, 12, 12, 12,
     12, 12, 12, 12, 12, 12, 12, 12, 12, 12, 12, 12, 12, 12, 12, 12, 12, 12, 12, 12, 12, 12]"

definition CUMULATIVE_YEAR_DAYS :: "int list" where
  "CUMULATIVE_YEAR_DAYS = [
     0, 365, 730, 1096, 1461, 1826, 2191, 2557, 2922, 3287, 3652, 4018, 4383, 4748, 5113, 5479, 5844, 6209, 6574,
     6940, 7305, 7670, 8035, 8401, 8766, 9131, 9496, 9862, 10227, 10592, 10957, 11323, 11688, 12053, 12418, 12784,
     13149, 13514, 13879, 14245, 14610, 14975, 15340, 15706, 16071, 16436, 16801, 17167, 17532, 17897, 18262,
     18628, 18993, 19358, 19723, 20089, 20454, 20819, 21184, 21550, 21915, 22280, 22645, 23011, 23376, 23741,
     24106, 24472, 24837, 25202, 25567, 25933, 26298, 26663, 27028, 27394, 27759, 28124, 28489, 28855, 29220,
     29585, 29950, 30316, 30681, 31046, 31411, 31777, 32142, 32507, 32872, 33238, 33603, 33968, 34333, 34699,
     35064, 35429, 35794, 36160, 36525, 36890, 37255, 37621, 37986, 38351, 38716, 39082, 39447, 39812, 40177,
     40543, 40908, 41273, 41638, 42004, 42369, 42734, 43099, 43465, 43830, 44195, 44560, 44926, 45291, 45656,
     46021, 46387, 46752, 47117, 47482, 47847, 48212, 48577, 48942, 49308, 49673, 50038, 50403, 50769, 51134,
     51499, 51864, 52230, 52595, 52960, 53325, 53691, 54056, 54421, 54786, 55152, 55517, 55882, 56247, 56613,
     56978, 57343, 57708, 58074, 58439, 58804, 59169, 59535, 59900, 60265, 60630, 60996, 61361, 61726, 62091,
     62457, 62822, 63187, 63552, 63918, 64283, 64648, 65013, 65379, 65744, 66109, 66474, 66840, 67205, 67570,
     67935, 68301, 68666, 69031, 69396, 69762, 70127, 70492, 70857, 71223, 71588, 71953, 72318, 72684, 73049,
     73414, 73779, 74145, 74510, 74875, 75240, 75606, 75971, 76336, 76701, 77067, 77432, 77797, 78162, 78528,
     78893, 79258, 79623, 79989, 80354, 80719, 81084, 81450, 81815, 82180, 82545, 82911, 83276, 83641, 84006,
     84371, 84736, 85101, 85466, 85832, 86197, 86562, 86927, 87293, 87658, 88023, 88388, 88754, 89119, 89484,
     89849, 90215, 90580, 90945, 91310, 91676, 92041, 92406, 92771, 93137, 93502, 93867, 94232, 94598, 94963,
     95328, 95693, 96059, 96424, 96789, 97154, 97520, 97885, 98250, 98615, 98981, 99346, 99711, 100076, 100442,
     100807, 101172, 101537, 101903, 102268, 102633, 102998, 103364, 103729, 104094, 104459, 104825, 105190,
     105555, 105920, 106286, 106651, 107016, 107381, 107747, 108112, 108477, 108842, 109208, 109573, 109938,
     110303, 110669, 111034, 111399, 111764, 112130, 112495, 112860, 113225, 113591, 113956, 114321, 114686,
     115052, 115417, 115782, 116147, 116513, 116878, 117243, 117608, 117974, 118339, 118704, 119069, 119435,
     119800, 120165, 120530, 120895, 121260, 121625, 121990, 122356, 122721, 123086, 123451, 123817, 124182,
     124547, 124912, 125278, 125643, 126008, 126373, 126739, 127104, 127469, 127834, 128200, 128565, 128930,
     129295, 129661, 130026, 130391, 130756, 131122, 131487, 131852, 132217, 132583, 132948, 133313, 133678,
     134044, 134409, 134774, 135139, 135505, 135870, 136235, 136600, 136966, 137331, 137696, 138061, 138427,
     138792, 139157, 139522, 139888, 140253, 140618, 140983, 141349, 141714, 142079, 142444, 142810, 143175,
     143540, 143905, 144271, 144636, 145001, 145366, 145732, 146097]"

definition DATE_MIN_YEAR :: int where "DATE_MIN_YEAR = - 5877641"

definition DATE_MIN_MONTH :: int where "DATE_MIN_MONTH = 6"

definition DATE_MIN_DAY :: int where "DATE_MIN_DAY = 23"

definition DATE_MAX_YEAR :: int where "DATE_MAX_YEAR = 5881580"

definition DATE_MAX_MONTH :: int where "DATE_MAX_MONTH = 7"

definition DATE_MAX_DAY :: int where "DATE_MAX_DAY = 11"

definition EPOCH_YEAR :: int where "EPOCH_YEAR = 1970"

definition YEAR_INTERVAL :: int where "YEAR_INTERVAL = 400"

definition DAYS_PER_YEAR_INTERVAL :: int where "DAYS_PER_YEAR_INTERVAL = 146097"

section \<open>Days to calendar\<close>

text \<open>The three loops of \<^verbatim>\<open>ExtractYearOffset\<close>, in the order of the code.\<close>

function norm_up :: "int \<Rightarrow> int \<Rightarrow> int \<times> int" where
  "norm_up n year = (if n < 0 then norm_up (n + DAYS_PER_YEAR_INTERVAL) (year - YEAR_INTERVAL) else (n, year))"
  by auto
termination
  by (relation "measure (\<lambda>(n, _). nat (- n))") (auto simp: DAYS_PER_YEAR_INTERVAL_def)

function norm_down :: "int \<Rightarrow> int \<Rightarrow> int \<times> int" where
  "norm_down n year =
     (if n \<ge> DAYS_PER_YEAR_INTERVAL then norm_down (n - DAYS_PER_YEAR_INTERVAL) (year + YEAR_INTERVAL) else (n, year))"
  by auto
termination
  by (relation "measure (\<lambda>(n, _). nat n)") (auto simp: DAYS_PER_YEAR_INTERVAL_def)

function walk_back :: "int \<Rightarrow> int \<Rightarrow> int result" where
  "walk_back n year_offset =
     (if year_offset < 0 then Inl (AssertionFailed ''Date::ExtractYearOffset: the year offset went negative'')
      else if n < CUMULATIVE_YEAR_DAYS ! nat year_offset then walk_back n (year_offset - 1)
      else Inr year_offset)"
  by auto
termination
  by (relation "measure (\<lambda>(_, k). nat (k + 1))") auto

declare norm_up.simps [simp del] norm_down.simps [simp del] walk_back.simps [simp del]

text \<open>\<^verbatim>\<open>ExtractYearOffset\<close>: the normalised day, the year and the offset of the year in its period.\<close>

definition extract_year_offset :: "int \<Rightarrow> (int \<times> int \<times> int) result" where
  "extract_year_offset d =
     (let (n1, year1) = norm_up d EPOCH_YEAR;
          (n, year) = norm_down n1 year1
      in case walk_back n (c_div n 365) of
           Inl e \<Rightarrow> Inl e
         | Inr year_offset \<Rightarrow> Inr (n, year + year_offset, year_offset))"

definition convert_date :: "int \<Rightarrow> (int \<times> int \<times> int) result" where
  "convert_date d =
     (case extract_year_offset d of
        Inl e \<Rightarrow> Inl e
      | Inr (n, year, year_offset) \<Rightarrow>
          let doy = n - CUMULATIVE_YEAR_DAYS ! nat year_offset
          in if \<not> (doy \<ge> 0 \<and> doy \<le> 365) then Inl (AssertionFailed ''Date::Convert: the day of the year is out of range'')
             else let is_leap = (CUMULATIVE_YEAR_DAYS ! nat (year_offset + 1) - CUMULATIVE_YEAR_DAYS ! nat year_offset = 366);
                      month = (if is_leap then LEAP_MONTH_PER_DAY_OF_YEAR else MONTH_PER_DAY_OF_YEAR) ! nat doy;
                      day = doy - (if is_leap then CUMULATIVE_LEAP_DAYS else CUMULATIVE_DAYS) ! nat (month - 1) + 1
                  in if \<not> (day > 0 \<and> day \<le> (if is_leap then LEAP_DAYS else NORMAL_DAYS) ! nat month)
                     then Inl (AssertionFailed ''Date::Convert: the day of the month is out of range'')
                     else if \<not> (month > 0 \<and> month \<le> 12) then Inl (AssertionFailed ''Date::Convert: the month is out of range'')
                     else Inr (year, month, day))"

section \<open>Calendar to days\<close>

definition c_mod :: "int \<Rightarrow> int \<Rightarrow> int" where
  "c_mod a b = a - c_div a b * b"

definition is_leap_year :: "int \<Rightarrow> bool" where
  "is_leap_year year \<longleftrightarrow> c_mod year 4 = 0 \<and> (c_mod year 100 \<noteq> 0 \<or> c_mod year 400 = 0)"

definition is_valid_date :: "int \<Rightarrow> int \<Rightarrow> int \<Rightarrow> bool" where
  "is_valid_date year month day =
     (if month < 1 \<or> month > 12 then False
      else if day < 1 then False
      else if year < DATE_MIN_YEAR then False
      else if year = DATE_MIN_YEAR \<and> (month < DATE_MIN_MONTH \<or> month = DATE_MIN_MONTH \<and> day < DATE_MIN_DAY) then False
      else if year > DATE_MAX_YEAR then False
      else if year = DATE_MAX_YEAR \<and> (month > DATE_MAX_MONTH \<or> month = DATE_MAX_MONTH \<and> day > DATE_MAX_DAY) then False
      else if is_leap_year year then day \<le> LEAP_DAYS ! nat month else day \<le> NORMAL_DAYS ! nat month)"

text \<open>\<^verbatim>\<open>TryFromDate\<close>. The sums are 32-bit in the source; \<open>static_cast I32\<close> is the store into \<open>n\<close>.\<close>

definition try_from_date :: "int \<Rightarrow> int \<Rightarrow> int \<Rightarrow> int option" where
  "try_from_date year month day =
     (if \<not> is_valid_date year month day then None
      else let n = (if is_leap_year year then CUMULATIVE_LEAP_DAYS else CUMULATIVE_DAYS) ! nat (month - 1) + (day - 1)
           in if year < 1970 then
                let diff_from_base = 1970 - year;
                    year_index = 400 - c_mod diff_from_base 400;
                    fractions = c_div diff_from_base 400
                in Some (static_cast I32 (n + CUMULATIVE_YEAR_DAYS ! nat year_index - DAYS_PER_YEAR_INTERVAL
                     - static_cast I32 (fractions * DAYS_PER_YEAR_INTERVAL)))
              else if year \<ge> 2370 then
                let diff_from_base = year - 2370;
                    year_index = c_mod diff_from_base 400;
                    fractions = c_div diff_from_base 400
                in Some (static_cast I32 (n + CUMULATIVE_YEAR_DAYS ! nat year_index + DAYS_PER_YEAR_INTERVAL
                     + static_cast I32 (fractions * DAYS_PER_YEAR_INTERVAL)))
              else Some (static_cast I32 (n + CUMULATIVE_YEAR_DAYS ! nat (year - 1970))))"

section \<open>Text\<close>

text \<open>
  \<^verbatim>\<open>Length\<close>: the year as it is rendered, the number of its digits, whether the suffix \<^verbatim>\<open> (BC)\<close> is
  needed and the length of the text.
\<close>

definition date_length :: "int \<Rightarrow> int \<times> nat \<times> bool \<times> nat" where
  "date_length year =
     (let add_bc = (year \<le> 0);
          y = (if add_bc then - year + 1 else year);
          year_length = 4 + (if y \<ge> 10000 then 1 else 0) + (if y \<ge> 100000 then 1 else 0) +
            (if y \<ge> 1000000 then 1 else 0) + (if y \<ge> 10000000 then 1 else 0)
      in (y, year_length, add_bc, (if add_bc then 6 + 5 else 6) + year_length))"

definition two_digits :: "int \<Rightarrow> string" where
  "two_digits v =
     (if v < 10 then [CHR ''0'', digit_char (nat v)] else [DIGITS ! (nat v * 2), DIGITS ! (nat v * 2 + 1)])"

text \<open>\<^verbatim>\<open>Format\<close> into a buffer of \<open>length\<close> characters; a year wider than its field is an access in front of it.\<close>

definition format_date :: "int \<Rightarrow> nat \<Rightarrow> bool \<Rightarrow> int \<Rightarrow> int \<Rightarrow> string result" where
  "format_date y year_length add_bc month day =
     (let ds = format_unsigned (nat y) []
      in if length ds > year_length then Inl OutOfPageAccess
         else Inr (pad_zeros year_length ds @ CHR ''-'' # two_digits month @ CHR ''-'' # two_digits day @
                (if add_bc then '' (BC)'' else [])))"

definition date_to_string :: "int \<Rightarrow> string result" where
  "date_to_string d =
     (case convert_date d of
        Inl e \<Rightarrow> Inl e
      | Inr (year, month, day) \<Rightarrow>
          (case date_length year of (y, year_length, add_bc, _) \<Rightarrow> format_date y year_length add_bc month day))"

fun parse_double_digit :: "string \<Rightarrow> (int \<times> string) option" where
  "parse_double_digit [] = None"
| "parse_double_digit [c] = (if is_digit c then Some (int (digit_val c), []) else None)"
| "parse_double_digit (c # c2 # cs) =
     (if is_digit c
      then if is_digit c2 then Some (int (digit_val c2) + int (digit_val c) * 10, cs) else Some (int (digit_val c), c2 # cs)
      else None)"

fun parse_year :: "string \<Rightarrow> int \<Rightarrow> (int \<times> string) option" where
  "parse_year [] year = Some (year, [])"
| "parse_year (c # cs) year =
     (if is_digit c
      then if year \<ge> 100000000 then None else parse_year cs (int (digit_val c) + year * 10)
      else Some (year, c # cs))"

fun bc_suffix :: "string \<Rightarrow> bool" where
  "bc_suffix (c1 # c2 # c3 # c4 # c5 # cs) \<longleftrightarrow> is_space c1 \<and> c2 = CHR ''('' \<and> to_lower c3 = CHR ''b'' \<and>
     to_lower c4 = CHR ''c'' \<and> c5 = CHR '')''"
| "bc_suffix _ \<longleftrightarrow> False"

text \<open>\<^verbatim>\<open>TryConvertDate\<close>: the date and the characters behind it.\<close>

definition try_convert_date :: "bool \<Rightarrow> string \<Rightarrow> (int \<times> string) option" where
  "try_convert_date strict buf =
     (let buf1 = dropWhile is_space buf
      in if buf1 = [] then None
         else let yearneg = (hd buf1 = CHR ''-'');
                  buf2 = (if yearneg then tl buf1 else buf1)
              in if buf2 = [] \<or> \<not> is_digit (hd buf2) then None
                 else (case parse_year buf2 0 of
                   None \<Rightarrow> None
                 | Some (_, []) \<Rightarrow> None
                 | Some (y, sep # buf3) \<Rightarrow>
                     let year = (if yearneg then - y else y)
                     in if sep \<noteq> CHR '' '' \<and> sep \<noteq> CHR ''-'' \<and> sep \<noteq> CHR ''/'' \<and> sep \<noteq> CHR 0x5C then None
                        else (case parse_double_digit buf3 of
                          None \<Rightarrow> None
                        | Some (_, []) \<Rightarrow> None
                        | Some (month, sep2 # buf4) \<Rightarrow>
                            if sep2 \<noteq> sep then None
                            else (case parse_double_digit buf4 of
                              None \<Rightarrow> None
                            | Some (day, buf5) \<Rightarrow>
                                if bc_suffix buf5 \<and> (yearneg \<or> year = 0) then None
                                else let year' = (if bc_suffix buf5 then - year + 1 else year);
                                         buf6 = (if bc_suffix buf5 then drop 5 buf5 else buf5);
                                         rest = (if strict then dropWhile is_space buf6 else buf6)
                                     in if strict \<and> rest \<noteq> [] then None
                                        else if \<not> strict \<and> rest \<noteq> [] \<and> is_digit (hd rest) then None
                                        else (case try_from_date year' month day of
                                          None \<Rightarrow> None
                                        | Some n \<Rightarrow> Some (n, rest))))))"

section \<open>The calendar\<close>

text \<open>Reference: the day number of the first of January, and of any date, by closed formula.\<close>

definition year_days :: "int \<Rightarrow> int" where
  "year_days y = 365 * (y - 1970) + (y - 1) div 4 - (y - 1) div 100 + (y - 1) div 400 - 477"

definition leap :: "int \<Rightarrow> bool" where
  "leap y \<longleftrightarrow> 4 dvd y \<and> (\<not> 100 dvd y \<or> 400 dvd y)"

definition month_start :: "bool \<Rightarrow> int \<Rightarrow> int" where
  "month_start l m = (if l then CUMULATIVE_LEAP_DAYS else CUMULATIVE_DAYS) ! nat (m - 1)"

definition days_in_month :: "bool \<Rightarrow> int \<Rightarrow> int" where
  "days_in_month l m = (if l then LEAP_DAYS else NORMAL_DAYS) ! nat m"

definition real_date :: "int \<Rightarrow> int \<Rightarrow> int \<Rightarrow> bool" where
  "real_date y m d \<longleftrightarrow> 1 \<le> m \<and> m \<le> 12 \<and> 1 \<le> d \<and> d \<le> days_in_month (leap y) m"

definition civil_days :: "int \<Rightarrow> int \<Rightarrow> int \<Rightarrow> int" where
  "civil_days y m d = year_days y + month_start (leap y) m + d - 1"

lemma c_mod_0: "0 < k \<Longrightarrow> c_mod a k = 0 \<longleftrightarrow> k dvd a"
proof (cases "a < 0")
  case True
  assume "0 < k"
  have "c_mod a k = - ((- a) mod k)" using True by (simp add: c_mod_def c_div_def minus_div_mult_eq_mod [symmetric])
  then show ?thesis by (simp add: dvd_eq_mod_eq_0 [symmetric])
qed (simp add: c_mod_def c_div_def minus_div_mult_eq_mod dvd_eq_mod_eq_0)

lemma c_div_mod_nonneg: "0 \<le> a \<Longrightarrow> c_div a k = a div k" "0 \<le> a \<Longrightarrow> c_mod a k = a mod k"
  by (simp_all add: c_mod_def c_div_def minus_div_mult_eq_mod)

lemma is_leap_year_leap: "is_leap_year y = leap y"
  by (simp add: is_leap_year_def leap_def c_mod_0)

lemma div_step: "0 < k \<Longrightarrow> (y :: int) div k - (y - 1) div k = (if k dvd y then 1 else 0)"
proof -
  assume k: "0 < k"
  show ?thesis
  proof (cases "k dvd y")
    case True
    then obtain q where q: "y = k * q" by blast
    have "(k * q - 1) div k = q - 1" using k by (intro int_div_pos_eq [where r = "k - 1"]) (auto simp: algebra_simps)
    then show ?thesis using True q k by simp
  next
    case False
    let ?r = "y mod k"
    have r: "0 < ?r" "?r < k" using False k pos_mod_sign [OF k, of y] pos_mod_bound [OF k, of y] by (simp_all add: dvd_eq_mod_eq_0)
    have "y - 1 = k * (y div k) + (?r - 1)" by (simp add: mult_div_mod_eq [symmetric])
    then have "(y - 1) div k = y div k" using r k by (intro int_div_pos_eq [where r = "?r - 1"]) linarith+
    then show ?thesis using False by simp
  qed
qed

lemma leap_days_count: "(if 4 dvd y then 1 else 0) - (if 100 dvd y then 1 else 0) + (if (400 :: int) dvd y then 1 else 0)
    = (if leap y then 1 else 0 :: int)"
proof -
  have "(400 :: int) dvd y \<Longrightarrow> 100 dvd y" by (rule dvd_trans [of _ 400]) simp_all
  moreover have "(100 :: int) dvd y \<Longrightarrow> 4 dvd y" by (rule dvd_trans [of _ 100]) simp_all
  moreover have count: "(c \<Longrightarrow> b) \<Longrightarrow> (b \<Longrightarrow> a) \<Longrightarrow> (if a then 1 else 0) - (if b then 1 else 0) + (if c then 1 else 0)
    = (if a \<and> (\<not> b \<or> c) then 1 else 0 :: int)" for a b c by (cases a; cases b; cases c) simp_all
  ultimately show ?thesis unfolding leap_def by (intro count)
qed

lemma year_days_Suc: "year_days (y + 1) = year_days y + (if leap y then 366 else 365)"
proof -
  have sum: "a - a' = i \<Longrightarrow> b - b' = j \<Longrightarrow> c - c' = k \<Longrightarrow> i - j + k = l \<Longrightarrow>
    365 * (y + 1 - 1970) + a - b + c - 477 = 365 * (y - 1970) + a' - b' + c' - 477 + (365 + l)" for a a' b b' c c' i j k l :: int
    by (simp add: algebra_simps)
  have "year_days (y + 1) = year_days y + (365 + (if leap y then 1 else 0))"
    unfolding year_days_def add_diff_cancel_right' by (rule sum [OF div_step [of 4 y] div_step [of 100 y] div_step [of 400 y] leap_days_count [of y]]) simp_all
  then show ?thesis by simp
qed

lemma shift_div: "a = b + c * k \<Longrightarrow> 0 < k \<Longrightarrow> a div k = b div k + (c :: int)"
  by simp

lemma year_days_period: "year_days (y + 400 * k) = year_days y + 146097 * k"
proof -
  have "(y + 400 * k - 1) div 4 = (y - 1) div 4 + 100 * k" "(y + 400 * k - 1) div 100 = (y - 1) div 100 + 4 * k"
    "(y + 400 * k - 1) div 400 = (y - 1) div 400 + k"
    by (rule shift_div; simp)+
  then show ?thesis unfolding year_days_def by (simp only: algebra_simps)
qed

lemma leap_period: "leap (y + 400 * k) = leap y"
  unfolding leap_def by (simp add: dvd_add_left_iff)

lemma year_days_mono: "x \<le> y \<Longrightarrow> year_days x \<le> year_days y"
proof (induction "nat (y - x)" arbitrary: y)
  case (Suc n)
  then have "year_days x \<le> year_days (y - 1)" by (intro Suc.hyps) simp_all
  then show ?case using year_days_Suc [of "y - 1"] by (simp split: if_splits)
qed simp

lemma year_unique:
  assumes "year_days x \<le> n" "n < year_days (x + 1)" "year_days y \<le> n" "n < year_days (y + 1)"
  shows "x = y"
  using year_days_mono [of "x + 1" y] year_days_mono [of "y + 1" x] assms by linarith

section \<open>The tables\<close>

lemma CUMULATIVE_YEAR_DAYS_formula:
  "CUMULATIVE_YEAR_DAYS = map (\<lambda>i. 365 * i + (i + 1) div 4 - (i + 69) div 100 + (i + 369) div 400) [0..400]"
  by code_simp

lemma CUMULATIVE_YEAR_DAYS_nth: "0 \<le> i \<Longrightarrow> i \<le> 400 \<Longrightarrow> CUMULATIVE_YEAR_DAYS ! nat i = year_days (1970 + i)"
proof -
  assume i: "0 \<le> i" "i \<le> 400"
  have "(1970 + i - 1) div 4 = (i + 1) div 4 + 492" "(1970 + i - 1) div 100 = (i + 69) div 100 + 19"
    "(1970 + i - 1) div 400 = (i + 369) div 400 + 4" by (rule shift_div; simp)+
  then have "year_days (1970 + i) = 365 * i + (i + 1) div 4 - (i + 69) div 100 + (i + 369) div 400"
    unfolding year_days_def by (simp only:) simp
  moreover have "[0..400] ! nat i = i" "nat i < length [0..400]" using nth_upto [of 0 "nat i" 400] i by simp_all
  ultimately show ?thesis by (simp only: CUMULATIVE_YEAR_DAYS_formula nth_map)
qed

lemma months_of_days:
  "list_all (\<lambda>(i, m). 1 \<le> m \<and> m \<le> 12 \<and> month_start True m \<le> i \<and> i < month_start True m + days_in_month True m)
     (zip [0..365] LEAP_MONTH_PER_DAY_OF_YEAR) \<and> length LEAP_MONTH_PER_DAY_OF_YEAR = 366"
  "list_all (\<lambda>(i, m). 1 \<le> m \<and> m \<le> 12 \<and> month_start False m \<le> i \<and> i < month_start False m + days_in_month False m)
     (zip [0..364] MONTH_PER_DAY_OF_YEAR) \<and> length MONTH_PER_DAY_OF_YEAR = 365"
  by code_simp+

lemma list_all_zip_upto: "list_all P (zip [0..b] xs) \<Longrightarrow> 0 \<le> i \<Longrightarrow> i \<le> b \<Longrightarrow> int (length xs) = b + 1 \<Longrightarrow> P (i, xs ! nat i)"
  using nth_mem [of "nat i" "zip [0..b] xs"] nth_upto [of 0 "nat i" b] by (auto simp: list_all_iff)

lemma month_of_day:
  assumes "0 \<le> i" "i < (if l then 366 else 365)" "m = (if l then LEAP_MONTH_PER_DAY_OF_YEAR else MONTH_PER_DAY_OF_YEAR) ! nat i"
  shows "1 \<le> m \<and> m \<le> 12 \<and> month_start l m \<le> i \<and> i < month_start l m + days_in_month l m"
  using list_all_zip_upto [OF months_of_days(1) [THEN conjunct1], of i] list_all_zip_upto [OF months_of_days(2) [THEN conjunct1], of i]
    months_of_days [THEN conjunct2] assms by (cases l) simp_all

lemma month_cases: "1 \<le> m \<Longrightarrow> m \<le> 12 \<Longrightarrow> m \<in> {1, 2, 3, 4, 5, 6, 7, 8, 9, 10, 11, 12 :: int}"
proof -
  assume "1 \<le> m" "m \<le> 12"
  then have "m \<in> set [1..12]" by simp
  also have "[1..12] = [1, 2, 3, 4, 5, 6, 7, 8, 9, 10, 11, 12 :: int]" by code_simp
  finally show ?thesis by simp
qed

lemma month_start_next: "1 \<le> m \<Longrightarrow> m \<le> 12 \<Longrightarrow> (month_start l (m + 1) = month_start l m + days_in_month l m) \<and> 0 \<le> month_start l m
   \<and> 1 \<le> days_in_month l m"
  by (drule (1) month_cases)
    (auto simp: month_start_def days_in_month_def CUMULATIVE_LEAP_DAYS_def CUMULATIVE_DAYS_def LEAP_DAYS_def NORMAL_DAYS_def)

lemma month_start_mono: "1 \<le> a \<Longrightarrow> a \<le> b \<Longrightarrow> b \<le> 13 \<Longrightarrow> month_start l a \<le> month_start l b"
proof (induction "nat (b - a)" arbitrary: b)
  case (Suc n)
  then have "month_start l a \<le> month_start l (b - 1)" by (intro Suc.hyps) simp_all
  moreover have "1 \<le> b - 1" "b - 1 \<le> 12" using Suc by auto
  ultimately show ?case using month_start_next [of "b - 1" l] by simp
qed simp

lemma month_start_last: "month_start l 13 = (if l then 366 else 365)"
  by (simp add: month_start_def CUMULATIVE_LEAP_DAYS_def CUMULATIVE_DAYS_def)

lemma month_unique:
  assumes "1 \<le> a" "a \<le> 12" "1 \<le> b" "b \<le> 12" "month_start l a \<le> i" "i < month_start l a + days_in_month l a"
    "month_start l b \<le> i" "i < month_start l b + days_in_month l b"
  shows "a = b"
  using month_start_mono [of "a + 1" b l] month_start_mono [of "b + 1" a l] month_start_next [of a l] month_start_next [of b l] assms
  by linarith

lemma civil_in_year: "real_date y m d \<Longrightarrow> year_days y \<le> civil_days y m d \<and> civil_days y m d < year_days (y + 1)"
  using month_start_next [of m "leap y"] month_start_mono [of "m + 1" 13 "leap y"] month_start_last [of "leap y"] year_days_Suc [of y]
  unfolding real_date_def civil_days_def by (auto split: if_splits)

lemma civil_unique:
  assumes "real_date y m d" "real_date y' m' d'" "civil_days y m d = civil_days y' m' d'"
  shows "y = y' \<and> m = m' \<and> d = d'"
proof -
  have "y = y'" using civil_in_year [OF assms(1)] civil_in_year [OF assms(2)] assms(3) by (intro year_unique [of _ "civil_days y m d"]) auto
  moreover from this have "m = m'" using assms unfolding real_date_def civil_days_def
    by (intro month_unique [where l = "leap y" and i = "month_start (leap y) m + d - 1"]) auto
  ultimately show ?thesis using assms(3) by (simp add: civil_days_def)
qed

end
