(* ===== verification/DateConvert.thy ===== *)
theory DateConvert
  imports Date
begin

text \<open>
  Correctness of the date conversions: the loops of \<^verbatim>\<open>ExtractYearOffset\<close> find the year, \<^verbatim>\<open>Convert\<close> and
  \<^verbatim>\<open>TryFromDate\<close> are inverse to each other on all 32-bit day numbers, and the text of a date parses back.
\<close>

section \<open>Finding the year\<close>

lemma interval_pos: "0 < DAYS_PER_YEAR_INTERVAL" "DAYS_PER_YEAR_INTERVAL \<noteq> 0"
  by (simp_all add: DAYS_PER_YEAR_INTERVAL_def)

lemma norm_up_eq: "n < 0 \<Longrightarrow> norm_up n year = (n mod DAYS_PER_YEAR_INTERVAL, year + YEAR_INTERVAL * (n div DAYS_PER_YEAR_INTERVAL))"
proof (induction n year rule: norm_up.induct)
  case (1 n year)
  show ?case
  proof (cases "n + DAYS_PER_YEAR_INTERVAL < 0")
    case True
    have "(n + DAYS_PER_YEAR_INTERVAL) div DAYS_PER_YEAR_INTERVAL = n div DAYS_PER_YEAR_INTERVAL + 1"
      using interval_pos by (simp add: div_add_self2)
    with 1(1) [OF 1(2) True] 1(2) show ?thesis by (subst norm_up.simps) (simp add: distrib_left)
  next
    case False
    then have "n div DAYS_PER_YEAR_INTERVAL = - 1" "n mod DAYS_PER_YEAR_INTERVAL = n + DAYS_PER_YEAR_INTERVAL"
      using 1(2) int_div_pos_eq [of n "DAYS_PER_YEAR_INTERVAL" "- 1" "n + DAYS_PER_YEAR_INTERVAL"]
        int_mod_pos_eq [of n "DAYS_PER_YEAR_INTERVAL" "- 1" "n + DAYS_PER_YEAR_INTERVAL"] by auto
    then show ?thesis using 1(2) False by (subst norm_up.simps, subst norm_up.simps) simp
  qed
qed

lemma norm_down_eq:
  "0 \<le> n \<Longrightarrow> norm_down n year = (n mod DAYS_PER_YEAR_INTERVAL, year + YEAR_INTERVAL * (n div DAYS_PER_YEAR_INTERVAL))"
proof (induction n year rule: norm_down.induct)
  case (1 n year)
  show ?case
  proof (cases "n \<ge> DAYS_PER_YEAR_INTERVAL")
    case True
    have "n mod DAYS_PER_YEAR_INTERVAL = (n - DAYS_PER_YEAR_INTERVAL) mod DAYS_PER_YEAR_INTERVAL"
      "n div DAYS_PER_YEAR_INTERVAL = (n - DAYS_PER_YEAR_INTERVAL) div DAYS_PER_YEAR_INTERVAL + 1"
      by (rule mod_pos_geq [OF interval_pos(1) True], rule div_pos_geq [OF interval_pos(1) True])
    moreover have "0 \<le> n - DAYS_PER_YEAR_INTERVAL" using True by simp
    ultimately show ?thesis using 1(1) [OF True] True by (subst norm_down.simps) (simp only: if_True distrib_left, simp)
  next
    case False
    then show ?thesis using 1(2) by (subst norm_down.simps) (simp add: div_pos_pos_trivial mod_pos_pos_trivial)
  qed
qed

lemma norm_eq: "(case norm_up n year of (n1, year1) \<Rightarrow> norm_down n1 year1) =
    (n mod DAYS_PER_YEAR_INTERVAL, year + YEAR_INTERVAL * (n div DAYS_PER_YEAR_INTERVAL))"
proof (cases "n < 0")
  case True
  have "0 \<le> n mod DAYS_PER_YEAR_INTERVAL" "n mod DAYS_PER_YEAR_INTERVAL < DAYS_PER_YEAR_INTERVAL" by (simp_all add: interval_pos)
  then show ?thesis using True by (simp add: norm_up_eq norm_down_eq)
next
  case False
  then show ?thesis by (simp add: norm_up.simps [of n] norm_down_eq)
qed

lemma walk_back_correct:
  assumes "0 \<le> k" "k \<le> 400" "0 \<le> n"
  shows "\<exists>r. walk_back n k = Inr r \<and> 0 \<le> r \<and> r \<le> k \<and> year_days (1970 + r) \<le> n \<and> (r < k \<longrightarrow> n < year_days (1970 + r + 1))"
  using assms
proof (induction n k rule: walk_back.induct)
  case (1 n k)
  note nth = CUMULATIVE_YEAR_DAYS_nth [OF 1(2,3)]
  show ?case
  proof (cases "n < year_days (1970 + k)")
    case True
    have "k \<noteq> 0" using True 1(4) by (auto simp: year_days_def)
    then have "0 \<le> k - 1" "k - 1 \<le> 400" using 1(2,3) by auto
    from 1(1) [OF _ _ this 1(4)] obtain r where r: "walk_back n (k - 1) = Inr r" "0 \<le> r" "r \<le> k - 1" "year_days (1970 + r) \<le> n"
      "r < k - 1 \<longrightarrow> n < year_days (1970 + r + 1)" using True 1(2) nth by auto
    have "walk_back n k = Inr r" using r(1) True 1(2) nth by (subst walk_back.simps) simp
    moreover have "n < year_days (1970 + r + 1)" using r True by (cases "r = k - 1") (auto simp: algebra_simps)
    ultimately show ?thesis using r by (intro exI [of _ r]) simp
  next
    case False
    then show ?thesis using 1(2) nth by (subst walk_back.simps) auto
  qed
qed

lemma year_days_lower: "0 \<le> i \<Longrightarrow> 365 * i \<le> year_days (1970 + i)"
proof (induction "nat i" arbitrary: i)
  case (Suc k)
  then have "365 * (i - 1) \<le> year_days (1970 + (i - 1))" by (intro Suc.hyps) auto
  moreover have "year_days (1970 + (i - 1)) + 365 \<le> year_days (1970 + (i - 1) + 1)" by (simp only: year_days_Suc) simp
  ultimately show ?case by simp
qed (simp add: year_days_def)

lemma extract_year_offset_correct:
  obtains n y k where "extract_year_offset d = Inr (n, y, k)" "0 \<le> k" "k \<le> 399" "year_days (1970 + k) \<le> n" "n < year_days (1970 + k + 1)"
    "leap y = leap (1970 + k)" "d - year_days y = n - year_days (1970 + k)"
proof -
  let ?q = "d div DAYS_PER_YEAR_INTERVAL" and ?n = "d mod DAYS_PER_YEAR_INTERVAL"
  have n: "0 \<le> ?n" "?n < 146097" by (simp_all add: DAYS_PER_YEAR_INTERVAL_def)
  have q: "365 * (?n div 365) \<le> ?n" "?n < 365 * (?n div 365 + 1)" by (simp_all add: mult_div_mod_eq [symmetric])
  have "0 \<le> ?n div 365" "?n div 365 \<le> 400" using n q by (simp_all add: pos_imp_zdiv_nonneg_iff)
  from walk_back_correct [OF this n(1)] obtain r where r: "walk_back ?n (?n div 365) = Inr r" "0 \<le> r" "r \<le> ?n div 365"
    "year_days (1970 + r) \<le> ?n" "r < ?n div 365 \<longrightarrow> ?n < year_days (1970 + r + 1)" by blast
  have "?n < year_days (1970 + r + 1)"
    using r q year_days_lower [of "r + 1"] by (cases "r < ?n div 365") (auto simp: add.assoc)
  moreover have "r \<noteq> 400" using r(4) n year_days_period [of 1970 1] by (auto simp: year_days_def)
  moreover have "r \<le> 400" using r(3) \<open>?n div 365 \<le> 400\<close> by simp
  moreover have "extract_year_offset d = Inr (?n, 1970 + r + 400 * ?q, r)"
    using norm_eq [of d EPOCH_YEAR] r(1) n(1)
    by (simp add: extract_year_offset_def case_prod_beta c_div_mod_nonneg EPOCH_YEAR_def YEAR_INTERVAL_def)
  moreover have "d - year_days (1970 + r + 400 * ?q) = ?n - year_days (1970 + r)"
    using year_days_period [of "1970 + r" ?q] by (simp add: DAYS_PER_YEAR_INTERVAL_def minus_mult_div_eq_mod)
  ultimately show ?thesis using r that [of ?n "1970 + r + 400 * ?q" r] leap_period by simp
qed

section \<open>Days and dates\<close>

lemma convert_date_correct:
  obtains y m d where "convert_date n = Inr (y, m, d)" "real_date y m d" "civil_days y m d = n"
proof -
  obtain n' y k where e: "extract_year_offset n = Inr (n', y, k)" and k: "0 \<le> k" "k \<le> 399"
    and n': "year_days (1970 + k) \<le> n'" "n' < year_days (1970 + k + 1)" and l: "leap y = leap (1970 + k)"
    and d: "n - year_days y = n' - year_days (1970 + k)"
    by (rule extract_year_offset_correct)
  let ?doy = "n' - year_days (1970 + k)"
  define m where "m = (if leap y then LEAP_MONTH_PER_DAY_OF_YEAR else MONTH_PER_DAY_OF_YEAR) ! nat ?doy"
  have doy: "0 \<le> ?doy" "?doy < (if leap y then 366 else 365)"
    using n' year_days_Suc [of "1970 + k"] l by (auto split: if_splits)
  then have m: "1 \<le> m" "m \<le> 12" "month_start (leap y) m \<le> ?doy" "?doy < month_start (leap y) m + days_in_month (leap y) m"
    using month_of_day [OF doy m_def] by auto
  have nth: "CUMULATIVE_YEAR_DAYS ! nat k = year_days (1970 + k)" "CUMULATIVE_YEAR_DAYS ! nat (k + 1) = year_days (1970 + k + 1)"
    using k CUMULATIVE_YEAR_DAYS_nth [of k] CUMULATIVE_YEAR_DAYS_nth [of "k + 1"] by (simp_all add: add.assoc)
  have leap: "(year_days (1970 + k + 1) - year_days (1970 + k) = 366) = leap y" using year_days_Suc [of "1970 + k"] l by simp
  let ?day = "?doy - month_start (leap y) m + 1"
  have doy365: "0 \<le> ?doy \<and> ?doy \<le> 365" using doy by (simp split: if_splits)
  have "convert_date n = Inr (y, m, ?day)"
    unfolding convert_date_def e Let_def sum.case prod.case nth leap m_def [symmetric] month_start_def [symmetric] days_in_month_def [symmetric]
    using doy365 m by simp
  moreover have "real_date y m ?day" using m by (simp add: real_date_def)
  moreover have "civil_days y m ?day = n" using d by (simp add: civil_days_def)
  ultimately show ?thesis by (rule that)
qed

lemma valid_real: "is_valid_date y m d \<Longrightarrow> real_date y m d"
  by (auto simp: is_valid_date_def real_date_def is_leap_year_leap days_in_month_def split: if_splits)

text \<open>The range tests of \<^verbatim>\<open>IsValid\<close> are those of a 32-bit day number.\<close>

lemma boundary_year:
  assumes "real_date y m d"
  shows "y = DATE_MIN_YEAR \<Longrightarrow> (m < DATE_MIN_MONTH \<or> m = DATE_MIN_MONTH \<and> d < DATE_MIN_DAY) \<longleftrightarrow> civil_days y m d < - (2 ^ 31)"
    and "y = DATE_MAX_YEAR \<Longrightarrow> (m > DATE_MAX_MONTH \<or> m = DATE_MAX_MONTH \<and> d > DATE_MAX_DAY) \<longleftrightarrow> civil_days y m d > 2 ^ 31 - 1"
proof -
  have m: "m \<in> {1, 2, 3, 4, 5, 6, 7, 8, 9, 10, 11, 12}" using assms month_cases by (simp add: real_date_def)
  note defs = DATE_MIN_YEAR_def DATE_MIN_MONTH_def DATE_MIN_DAY_def DATE_MAX_YEAR_def DATE_MAX_MONTH_def DATE_MAX_DAY_def
    real_date_def civil_days_def year_days_def leap_def month_start_def days_in_month_def
    CUMULATIVE_DAYS_def CUMULATIVE_LEAP_DAYS_def NORMAL_DAYS_def LEAP_DAYS_def
  show "y = DATE_MIN_YEAR \<Longrightarrow> (m < DATE_MIN_MONTH \<or> m = DATE_MIN_MONTH \<and> d < DATE_MIN_DAY) \<longleftrightarrow> civil_days y m d < - (2 ^ 31)"
    using m assms by (elim insertE) (simp_all add: defs, linarith?)
  show "y = DATE_MAX_YEAR \<Longrightarrow> (m > DATE_MAX_MONTH \<or> m = DATE_MAX_MONTH \<and> d > DATE_MAX_DAY) \<longleftrightarrow> civil_days y m d > 2 ^ 31 - 1"
    using m assms by (elim insertE) (simp_all add: defs, linarith?)
qed

lemma is_valid_iff: "is_valid_date y m d \<longleftrightarrow> real_date y m d \<and> in_type I32 (civil_days y m d)"
proof (cases "real_date y m d")
  case True
  have valid: "is_valid_date y m d \<longleftrightarrow>
      \<not> (y < DATE_MIN_YEAR \<or> y = DATE_MIN_YEAR \<and> (m < DATE_MIN_MONTH \<or> m = DATE_MIN_MONTH \<and> d < DATE_MIN_DAY) \<or>
      y > DATE_MAX_YEAR \<or> y = DATE_MAX_YEAR \<and> (m > DATE_MAX_MONTH \<or> m = DATE_MAX_MONTH \<and> d > DATE_MAX_DAY))"
    using True by (auto simp: is_valid_date_def real_date_def is_leap_year_leap days_in_month_def split: if_splits)
  have ends: "year_days DATE_MIN_YEAR \<le> - (2 ^ 31)" "- (2 ^ 31) < year_days (DATE_MIN_YEAR + 1)"
    "year_days DATE_MAX_YEAR \<le> 2 ^ 31 - 1" "2 ^ 31 - 1 < year_days (DATE_MAX_YEAR + 1)"
    by (simp_all add: year_days_def DATE_MIN_YEAR_def DATE_MAX_YEAR_def)
  have range: "in_type I32 v \<longleftrightarrow> - (2 ^ 31) \<le> v \<and> v \<le> 2 ^ 31 - 1" for v by (simp add: in_type_def type_min_def type_max_def)
  consider "y < DATE_MIN_YEAR" | "y = DATE_MIN_YEAR" | "DATE_MIN_YEAR < y" "y < DATE_MAX_YEAR" | "y = DATE_MAX_YEAR" | "DATE_MAX_YEAR < y"
    by linarith
  then show ?thesis
  proof cases
    case 1
    then show ?thesis using valid civil_in_year [OF True] ends year_days_mono [of "y + 1" DATE_MIN_YEAR] by (simp add: range)
  next
    case 2
    then have y: "y < DATE_MAX_YEAR" by (simp add: DATE_MIN_YEAR_def DATE_MAX_YEAR_def)
    then have "year_days (y + 1) \<le> year_days DATE_MAX_YEAR" by (intro year_days_mono) simp
    with y show ?thesis using 2 valid civil_in_year [OF True] ends boundary_year(1) [OF True 2] True by (auto simp: range)
  next
    case 3
    then show ?thesis using valid civil_in_year [OF True] ends year_days_mono [of "DATE_MIN_YEAR + 1" y] year_days_mono [of "y + 1" DATE_MAX_YEAR] True
      by (simp add: range)
  next
    case 4
    then have y: "DATE_MIN_YEAR < y" by (simp add: DATE_MIN_YEAR_def DATE_MAX_YEAR_def)
    then have "year_days (DATE_MIN_YEAR + 1) \<le> year_days y" by (intro year_days_mono) simp
    with y show ?thesis using 4 valid civil_in_year [OF True] ends boundary_year(2) [OF True 4] True by (auto simp: range)
  next
    case 5
    then show ?thesis using valid civil_in_year [OF True] ends year_days_mono [of "DATE_MAX_YEAR + 1" y] by (simp add: range)
  qed
qed (auto dest: valid_real)

lemma year_index:
  "y < 1970 \<Longrightarrow> CUMULATIVE_YEAR_DAYS ! nat (400 - c_mod (1970 - y) 400) - DAYS_PER_YEAR_INTERVAL
     - c_div (1970 - y) 400 * DAYS_PER_YEAR_INTERVAL = year_days y"
  "2370 \<le> y \<Longrightarrow> CUMULATIVE_YEAR_DAYS ! nat (c_mod (y - 2370) 400) + DAYS_PER_YEAR_INTERVAL
     + c_div (y - 2370) 400 * DAYS_PER_YEAR_INTERVAL = year_days y"
proof -
  assume y: "y < 1970"
  let ?a = "1970 - y"
  have m: "0 \<le> 400 - ?a mod 400" "400 - ?a mod 400 \<le> 400" by (simp_all add: pos_mod_bound less_imp_le)
  have "y = 1970 + (400 - ?a mod 400) + 400 * (- (?a div 400) - 1)" using mult_div_mod_eq [of 400 ?a] by (simp add: algebra_simps)
  then have "year_days y = year_days (1970 + (400 - ?a mod 400)) + 146097 * (- (?a div 400) - 1)" by (metis year_days_period)
  then show "CUMULATIVE_YEAR_DAYS ! nat (400 - c_mod (1970 - y) 400) - DAYS_PER_YEAR_INTERVAL
     - c_div (1970 - y) 400 * DAYS_PER_YEAR_INTERVAL = year_days y"
    using y CUMULATIVE_YEAR_DAYS_nth [OF m] by (simp add: c_div_mod_nonneg DAYS_PER_YEAR_INTERVAL_def algebra_simps)
next
  assume y: "2370 \<le> y"
  let ?a = "y - 2370"
  have m: "0 \<le> ?a mod 400" "?a mod 400 \<le> 400" by (simp_all add: pos_mod_bound less_imp_le)
  have "y = 1970 + ?a mod 400 + 400 * (?a div 400 + 1)" using mult_div_mod_eq [of 400 ?a] by (simp add: algebra_simps)
  then have "year_days y = year_days (1970 + ?a mod 400) + 146097 * (?a div 400 + 1)" by (metis year_days_period)
  then show "CUMULATIVE_YEAR_DAYS ! nat (c_mod (y - 2370) 400) + DAYS_PER_YEAR_INTERVAL
     + c_div (y - 2370) 400 * DAYS_PER_YEAR_INTERVAL = year_days y"
    using y CUMULATIVE_YEAR_DAYS_nth [OF m] by (simp add: c_div_mod_nonneg DAYS_PER_YEAR_INTERVAL_def algebra_simps)
qed

lemma static_cast_add: "static_cast T (a + static_cast T b) = static_cast T (a + b)"
  unfolding static_cast_def by (simp add: algebra_simps mod_simps)

lemma static_cast_diff: "static_cast T (a - static_cast T b) = static_cast T (a - b)"
proof -
  let ?t = "type_min T" and ?P = "2 ^ type_bits T :: int"
  have "(a - ((b - ?t) mod ?P + ?t) - ?t) mod ?P = ((a - ?t - ?t) - (b - ?t) mod ?P) mod ?P" by (simp add: algebra_simps)
  also have "\<dots> = ((a - ?t - ?t) - (b - ?t)) mod ?P" by (rule mod_diff_right_eq)
  finally show ?thesis unfolding static_cast_def by (simp add: algebra_simps)
qed

lemma try_from_date_eq: "try_from_date y m d = (if is_valid_date y m d then Some (civil_days y m d) else None)"
proof (cases "is_valid_date y m d")
  case True
  then have v: "static_cast I32 (civil_days y m d) = civil_days y m d" by (intro static_cast_id) (simp add: is_valid_iff)
  have c: "civil_days y m d = month_start (leap y) m + (d - 1) + year_days y" by (simp add: civil_days_def)
  consider "y < 1970" | "2370 \<le> y" | "1970 \<le> y" "y < 2370" by linarith
  then show ?thesis
  proof cases
    case 1
    then have "try_from_date y m d = Some (static_cast I32 (civil_days y m d))"
      unfolding try_from_date_def is_leap_year_leap month_start_def [symmetric] Let_def c year_index(1) [OF 1, symmetric] static_cast_diff
      using True by (simp add: add_diff_eq)
    then show ?thesis using True v by simp
  next
    case 2
    then have "try_from_date y m d = Some (static_cast I32 (civil_days y m d))"
      unfolding try_from_date_def is_leap_year_leap month_start_def [symmetric] Let_def c year_index(2) [OF 2, symmetric] static_cast_add
      using True by (simp add: add.assoc)
    then show ?thesis using True v by simp
  next
    case 3
    then have "try_from_date y m d = Some (static_cast I32 (civil_days y m d))"
      using True CUMULATIVE_YEAR_DAYS_nth [of "y - 1970"]
      unfolding try_from_date_def is_leap_year_leap month_start_def [symmetric] Let_def c by simp
    then show ?thesis using True v by simp
  qed
qed (simp add: try_from_date_def)

section \<open>Text\<close>

lemma parse_year_digits:
  assumes "list_all is_digit ds" "digits_val a ds < 1000000000" "rest = [] \<or> \<not> is_digit (hd rest)"
  shows "parse_year (ds @ rest) (int a) = Some (int (digits_val a ds), rest)"
  using assms
proof (induction ds arbitrary: a)
  case Nil
  then show ?case by (cases rest) auto
next
  case (Cons c ds)
  have "a * 10 + digit_val c \<le> digits_val a (c # ds)" using digits_val_le [of "a * 10 + digit_val c" ds] by simp
  then have "int a < 100000000" using Cons.prems(2) by linarith
  then have "parse_year ((c # ds) @ rest) (int a) = parse_year (ds @ rest) (int (a * 10 + digit_val c))"
    using Cons.prems by (simp add: add.commute)
  then show ?case using Cons.IH [of "a * 10 + digit_val c"] Cons.prems by simp
qed

lemma two_digits_parse: "0 \<le> v \<Longrightarrow> v \<le> 99 \<Longrightarrow>
   \<exists>a b. two_digits v = [a, b] \<and> is_digit a \<and> is_digit b \<and> int (digit_val b) + int (digit_val a) * 10 = v"
proof -
  assume v: "0 \<le> v" "v \<le> 99"
  show ?thesis
  proof (cases "v < 10")
    case True
    then have "nat v < 10" using v by simp
    from digit_char [OF this] digit_char [of 0] True v show ?thesis
      by (simp add: two_digits_def is_digit_def digit_val_def)
  next
    case False
    have "nat v < 100" using v by simp
    from DIGITS_pairs [OF this] have "int (digit_val (DIGITS ! (nat v * 2 + 1))) + int (digit_val (DIGITS ! (nat v * 2))) * 10 = v"
      using v by (simp add: zdiv_int zmod_int)
    then show ?thesis using DIGITS_pairs [OF \<open>nat v < 100\<close>] False by (simp add: two_digits_def)
  qed
qed

lemma parse_two_digits_text: "0 \<le> v \<Longrightarrow> v \<le> 99 \<Longrightarrow> parse_double_digit (two_digits v @ rest) = Some (v, rest)"
  using two_digits_parse [of v] by auto

lemma year_width:
  assumes "0 \<le> y" "y < 100000000" "date_length year = (y, year_length, add_bc, len)"
  shows "length (format_unsigned (nat y) []) \<le> year_length"
proof -
  have l: "year_length = 4 + (if y \<ge> 10000 then 1 else 0) + (if y \<ge> 100000 then 1 else 0) +
      (if y \<ge> 1000000 then 1 else 0) + (if y \<ge> 10000000 then 1 else 0)"
    using assms(3) by (auto simp: date_length_def Let_def)
  then have "nat y < 10 ^ year_length" using assms by (auto split: if_splits)
  then show ?thesis using less_power_iff [of year_length "nat y"] l by simp
qed

lemma valid_month_day: "is_valid_date y m d \<Longrightarrow> 1 \<le> m \<and> m \<le> 12 \<and> 1 \<le> d \<and> d \<le> 31 \<and> - 5877641 \<le> y \<and> y \<le> 5881580"
proof -
  assume v: "is_valid_date y m d"
  then have r: "real_date y m d" by (rule valid_real)
  then have "m \<in> {1, 2, 3, 4, 5, 6, 7, 8, 9, 10, 11, 12}" using month_cases by (simp add: real_date_def)
  then have "days_in_month (leap y) m \<le> 31" by (elim insertE) (simp_all add: days_in_month_def LEAP_DAYS_def NORMAL_DAYS_def)
  then show ?thesis using r v by (auto simp: real_date_def is_valid_date_def DATE_MIN_YEAR_def DATE_MAX_YEAR_def split: if_splits)
qed

lemma bc_suffix_text: "bc_suffix ('' (BC)'' @ rest)"
proof -
  have "to_lower (CHR ''B'') = CHR ''b''" "to_lower (CHR ''C'') = CHR ''c''" by code_simp+
  then show ?thesis by (simp add: is_space_def)
qed

lemma date_text_parses:
  assumes v: "is_valid_date year m d" and dl: "date_length year = (y, year_length, add_bc, len)"
    and rest: "rest = [] \<or> is_space (hd rest) \<and> \<not> bc_suffix rest \<and> \<not> strict"
  shows "\<exists>s. format_date y year_length add_bc m d = Inr s \<and> length s = len \<and>
     try_convert_date strict (s @ rest) = Some (civil_days year m d, rest)"
proof -
  note md = valid_month_day [OF v]
  have y: "add_bc = (year \<le> 0)" "y = (if add_bc then - year + 1 else year)" "len = (if add_bc then 11 else 6) + year_length"
    using dl by (auto simp: date_length_def Let_def)
  then have y': "0 < y" "y < 100000000" using md by auto
  let ?ds = "format_unsigned (nat y) []" and ?suffix = "if add_bc then '' (BC)'' else []"
  let ?p = "pad_zeros year_length ?ds"
  have w: "length ?ds \<le> year_length" using year_width [OF _ y'(2) dl] y' by simp
  have p: "list_all is_digit ?p" "digits_val 0 ?p = nat y" using digit_pad digits_val_pad format_unsigned_digits by simp_all
  have "?p \<noteq> []" using format_unsigned_digits [of "nat y"] by (simp add: pad_zeros_def)
  then obtain c cs where c: "?p = c # cs" by (cases ?p) auto
  with p(1) have "is_digit c" by simp
  then have ns: "\<not> is_space c" "c \<noteq> CHR ''-''" by (auto simp: is_digit_def is_space_def)
  let ?tail = "CHR ''-'' # two_digits m @ CHR ''-'' # two_digits d @ ?suffix @ rest"
  have py: "parse_year (?p @ ?tail) 0 = Some (y, ?tail)"
    using parse_year_digits [of ?p 0 ?tail] p y' by (simp add: is_digit_def)
  have fd: "format_date y year_length add_bc m d = Inr (?p @ CHR ''-'' # two_digits m @ CHR ''-'' # two_digits d @ ?suffix)"
    using w by (simp add: format_date_def Let_def)
  obtain a b a' b' where "two_digits m = [a, b]" "two_digits d = [a', b']" using two_digits_parse [of m] two_digits_parse [of d] md by auto
  then have len: "length (?p @ CHR ''-'' # two_digits m @ CHR ''-'' # two_digits d @ ?suffix) = len" using y(3) w by (simp add: length_pad)
  let ?r = "?suffix @ rest"
  have bc: "bc_suffix ?r = add_bc" using rest bc_suffix_text by auto
  have dr: "(if add_bc then drop 5 ?r else ?r) = rest" by simp
  have st: "(if strict then dropWhile is_space rest else rest) = rest" "\<not> (strict \<and> rest \<noteq> [])"
    "\<not> (\<not> strict \<and> rest \<noteq> [] \<and> is_digit (hd rest))" using rest by (auto simp: is_space_def is_digit_def)
  have yr: "(if add_bc then - y + 1 else y) = year" "\<not> (add_bc \<and> (False \<or> y = 0))" using y y' by auto
  have dw: "dropWhile is_space (?p @ ?tail) = ?p @ ?tail" "?p @ ?tail \<noteq> []" "hd (?p @ ?tail) = c" using c ns by simp_all
  have n: "\<not> (?p @ ?tail = [] \<or> \<not> is_digit c)" "(c = CHR ''-'') = False" using dw(2) \<open>is_digit c\<close> ns by auto
  have m: "parse_double_digit (two_digits m @ CHR ''-'' # two_digits d @ ?r) = Some (m, CHR ''-'' # two_digits d @ ?r)"
    "parse_double_digit (two_digits d @ ?r) = Some (d, ?r)" using md by (intro parse_two_digits_text; simp)+
  have t: "try_from_date year m d = Some (civil_days year m d)" using v by (simp add: try_from_date_eq)
  have "try_convert_date strict (?p @ ?tail) = Some (civil_days year m d, rest)"
    unfolding try_convert_date_def Let_def dw n(2) if_False eq_False [THEN iffD2, OF n(1)] eq_False [THEN iffD2, OF dw(2)] py
      option.case prod.case list.case m bc dr st(1) eq_False [THEN iffD2, OF st(2)] eq_False [THEN iffD2, OF st(3)]
      eq_False [THEN iffD2, OF yr(2)] yr(1) t
    using \<open>is_digit c\<close> by simp
  then show ?thesis using fd len by auto
qed

text \<open>
  The smallest day number is the 23rd of June of the astronomical year -5877641, which renders as
  5877642 (BC); the largest is the 11th of July 5881580.
\<close>

lemma date_limits: "convert_date (- (2 ^ 31)) = Inr (DATE_MIN_YEAR, DATE_MIN_MONTH, DATE_MIN_DAY) \<and> fst (date_length DATE_MIN_YEAR) = 5877642 \<and>
    convert_date (2 ^ 31 - 1) = Inr (DATE_MAX_YEAR, DATE_MAX_MONTH, DATE_MAX_DAY)"
proof -
  have conv: "convert_date n = Inr (y, m, d)" if "real_date y m d" "civil_days y m d = n" for n y m d
  proof -
    obtain y' m' d' where "convert_date n = Inr (y', m', d')" "real_date y' m' d'" "civil_days y' m' d' = n" by (rule convert_date_correct)
    then show ?thesis using civil_unique [of y' m' d' y m d] that by simp
  qed
  note defs = DATE_MIN_YEAR_def DATE_MIN_MONTH_def DATE_MIN_DAY_def DATE_MAX_YEAR_def DATE_MAX_MONTH_def DATE_MAX_DAY_def
    real_date_def civil_days_def year_days_def leap_def month_start_def days_in_month_def
    CUMULATIVE_DAYS_def CUMULATIVE_LEAP_DAYS_def NORMAL_DAYS_def LEAP_DAYS_def
  have "convert_date (- (2 ^ 31)) = Inr (DATE_MIN_YEAR, DATE_MIN_MONTH, DATE_MIN_DAY)" by (rule conv) (simp_all add: defs)
  moreover have "convert_date (2 ^ 31 - 1) = Inr (DATE_MAX_YEAR, DATE_MAX_MONTH, DATE_MAX_DAY)" by (rule conv) (simp_all add: defs)
  ultimately show ?thesis by (simp add: date_length_def DATE_MIN_YEAR_def)
qed

section \<open>Properties\<close>


text \<open>
  \<^verbatim>\<open>Convert\<close> and \<^verbatim>\<open>TryFromDate\<close> are inverse to each other: every 32-bit day number converts to a
  calendar date without tripping an assertion, and to exactly the date that converts back to it.
\<close>

theorem date_conversion_inverse:
  assumes "in_type I32 n"
  shows "(\<exists>y m d. convert_date n = Inr (y, m, d)) \<and> (convert_date n = Inr (y, m, d) \<longleftrightarrow> try_from_date y m d = Some n)"
proof -
  obtain y' m' d' where c: "convert_date n = Inr (y', m', d')" "real_date y' m' d'" "civil_days y' m' d' = n"
    by (rule convert_date_correct)
  then have "try_from_date y' m' d' = Some n" using assms by (simp add: try_from_date_eq is_valid_iff)
  moreover have "(y', m', d') = (y, m, d)" if "try_from_date y m d = Some n"
    using that c civil_unique [of y' m' d' y m d] by (auto simp: try_from_date_eq is_valid_iff split: if_splits)
  ultimately show ?thesis using c by auto
qed

theorem date_conversion_inverse_witness:
  "\<exists>y m d. convert_date (- 2147483648) = Inr (y, m, d) \<and> try_from_date y m d = Some (- 2147483648)"
proof -
  have "in_type I32 (- 2147483648)" by (simp add: in_type_def type_min_def type_max_def)
  from date_conversion_inverse [OF this] show ?thesis by blast
qed

text \<open>
  (C39) The text of a date parses back to the date, for every 32-bit day number and in strict mode; the
  text has the length that \<^verbatim>\<open>Length\<close> announced for its buffer.
\<close>

theorem date_text_roundtrip:
  assumes "in_type I32 n"
  shows "\<exists>s year m d y year_length add_bc. date_to_string n = Inr s \<and> convert_date n = Inr (year, m, d) \<and>
     date_length year = (y, year_length, add_bc, length s) \<and> try_convert_date True s = Some (n, [])"
proof -
  obtain year m d where c: "convert_date n = Inr (year, m, d)" "real_date year m d" "civil_days year m d = n"
    by (rule convert_date_correct)
  obtain y year_length add_bc len where dl: "date_length year = (y, year_length, add_bc, len)" by (cases "date_length year")
  from c assms have "is_valid_date year m d" by (simp add: is_valid_iff)
  from date_text_parses [OF this dl, of "[]" True] obtain s where
    "format_date y year_length add_bc m d = Inr s" "length s = len" "try_convert_date True s = Some (n, [])" using c by auto
  then show ?thesis using c(1) dl by (auto simp: date_to_string_def)
qed

theorem date_text_roundtrip_witness:
  "\<exists>s. date_to_string 2147483647 = Inr s \<and> try_convert_date True s = Some (2147483647, [])"
proof -
  have "in_type I32 2147483647" by (simp add: in_type_def type_min_def type_max_def)
  from date_text_roundtrip [OF this] show ?thesis by blast
qed

end
