(* ===== verification/Timestamp.thy ===== *)
theory Timestamp
  imports DateConvert
begin

text \<open>
  Timestamps: \<^verbatim>\<open>type/timestamp.{h,cpp}\<close>, counts of microseconds since the epoch. The 64-bit products and
  sums of the source are \<open>static_cast I64\<close> of the exact value.
\<close>

section \<open>Units\<close>

definition MICROS_PER_SEC :: int where "MICROS_PER_SEC = 1000 * 1000"

definition MICROS_PER_MINUTE :: int where "MICROS_PER_MINUTE = MICROS_PER_SEC * 60"

definition MICROS_PER_HOUR :: int where "MICROS_PER_HOUR = MICROS_PER_MINUTE * 60"

definition MICROS_PER_DAY :: int where "MICROS_PER_DAY = MICROS_PER_HOUR * 24"

lemmas units = MICROS_PER_SEC_def MICROS_PER_MINUTE_def MICROS_PER_HOUR_def MICROS_PER_DAY_def

definition from_epoch_ms :: "int \<Rightarrow> int" where
  "from_epoch_ms ms = static_cast I64 (ms * 1000)"

definition from_epoch_nano :: "int \<Rightarrow> int" where
  "from_epoch_nano ns = c_div ns 1000"

definition get_epoch_nanoseconds :: "int \<Rightarrow> int" where
  "get_epoch_nanoseconds timestamp = static_cast I64 (timestamp * 1000)"

definition date_epoch :: "int \<Rightarrow> int" where
  "date_epoch date = static_cast I64 (date * 86400)"

definition date_epoch_nanoseconds :: "int \<Rightarrow> int" where
  "date_epoch_nanoseconds date = static_cast I64 (date * (MICROS_PER_DAY * 1000))"

section \<open>Splitting a timestamp\<close>

definition get_date :: "int \<Rightarrow> int" where
  "get_date timestamp =
     static_cast I32 (c_div (timestamp + (if timestamp < 0 then 1 else 0)) MICROS_PER_DAY - (if timestamp < 0 then 1 else 0))"

definition get_time :: "int \<Rightarrow> int" where
  "get_time timestamp = static_cast I64 (timestamp - static_cast I64 (get_date timestamp * MICROS_PER_DAY))"

definition from_datetime :: "int \<Rightarrow> int" where
  "from_datetime date = static_cast I64 (date * MICROS_PER_DAY)"

definition convert_timestamp :: "int \<Rightarrow> int \<times> int" where
  "convert_timestamp timestamp =
     (let out_date = get_date timestamp
      in (out_date, static_cast I64 (timestamp - static_cast I64 (out_date * MICROS_PER_DAY))))"

definition convert_time :: "int \<Rightarrow> int \<times> int \<times> int \<times> int" where
  "convert_time dtime =
     (let hour = c_div dtime MICROS_PER_HOUR;
          t1 = dtime - hour * MICROS_PER_HOUR;
          minute = c_div t1 MICROS_PER_MINUTE;
          t2 = t1 - minute * MICROS_PER_MINUTE;
          sec = c_div t2 MICROS_PER_SEC;
          t3 = t2 - sec * MICROS_PER_SEC
      in (hour, minute, sec, t3))"

section \<open>Rendering\<close>

text \<open>\<^verbatim>\<open>FormatMicros\<close>: the six digits of the fraction and the number of its trailing zeros, the first digit not counted.\<close>

definition format_micros :: "nat \<Rightarrow> (string \<times> nat) result" where
  "format_micros microseconds =
     (let ds = format_unsigned microseconds []
      in if length ds > 6 then Inl OutOfPageAccess
         else let micro_buffer = pad_zeros 6 ds
              in Inr (micro_buffer, length (takeWhile (\<lambda>c. c = CHR ''0'') (rev (tl micro_buffer)))))"

definition time_length :: "int \<Rightarrow> (string \<times> nat) result" where
  "time_length micros =
     (if micros = 0 then Inr ([], 8)
      else case format_micros (nat micros) of
             Inl e \<Rightarrow> Inl e
           | Inr (micro_buffer, trailing_zeros) \<Rightarrow> Inr (micro_buffer, 15 - trailing_zeros))"

definition format_two_digits :: "int \<Rightarrow> string result" where
  "format_two_digits v =
     (if \<not> (v \<ge> 0 \<and> v \<le> 99) then Inl (AssertionFailed ''Timestamp::FormatTwoDigits: the value must fit in two digits'')
      else Inr (two_digits v))"

definition format_time :: "nat \<Rightarrow> int \<Rightarrow> int \<Rightarrow> int \<Rightarrow> string \<Rightarrow> string result" where
  "format_time len hour minute sec micro_buffer =
     (case (format_two_digits hour, format_two_digits minute, format_two_digits sec) of
        (Inr h, Inr m, Inr s) \<Rightarrow>
          Inr (h @ CHR '':'' # m @ CHR '':'' # s @ (if len > 8 then CHR ''.'' # take (len - 9) micro_buffer else []))
      | (Inl e, _, _) \<Rightarrow> Inl e
      | (_, Inl e, _) \<Rightarrow> Inl e
      | (_, _, Inl e) \<Rightarrow> Inl e)"

definition timestamp_to_string :: "int \<Rightarrow> string result" where
  "timestamp_to_string input =
     (case convert_timestamp input of (date_entry, time_entry) \<Rightarrow>
      case convert_time time_entry of (hour, minute, sec, micros) \<Rightarrow>
      (case convert_date date_entry of
         Inl e \<Rightarrow> Inl e
       | Inr (year, month, day) \<Rightarrow>
           (case date_length year of (y, year_length, add_bc, _) \<Rightarrow>
            (case time_length micros of
               Inl e \<Rightarrow> Inl e
             | Inr (micro_buffer, len) \<Rightarrow>
                 (case format_date y year_length add_bc month day of
                    Inl e \<Rightarrow> Inl e
                  | Inr date_text \<Rightarrow>
                      (case format_time len hour minute sec micro_buffer of
                         Inl e \<Rightarrow> Inl e
                       | Inr time_text \<Rightarrow> Inr (date_text @ CHR '' '' # time_text)))))))"

section \<open>Parsing\<close>

fun parse_two :: "int \<Rightarrow> string \<Rightarrow> (int \<times> string) option" where
  "parse_two limit (c1 # c2 # cs) =
     (if \<not> is_digit c1 \<or> \<not> is_digit c2 then None
      else let out = int (digit_val c1) * 10 + int (digit_val c2)
           in if out \<le> limit then Some (out, cs) else None)"
| "parse_two limit _ = None"

text \<open>The fraction loop: at most six digits count, further ones are skipped.\<close>

fun parse_fraction :: "string \<Rightarrow> int \<Rightarrow> int \<Rightarrow> int \<times> string" where
  "parse_fraction [] scale micros = (micros, [])"
| "parse_fraction (c # cs) scale micros =
     (if is_digit c
      then if scale > 0 then parse_fraction cs (scale div 10) (micros + int (digit_val c) * scale)
           else parse_fraction cs scale micros
      else (micros, c # cs))"

definition parse_seconds :: "string \<Rightarrow> (int \<times> int \<times> string) option" where
  "parse_seconds buf =
     (case parse_two 59 buf of
        None \<Rightarrow> None
      | Some (second, rest) \<Rightarrow>
          if rest \<noteq> [] \<and> hd rest = CHR ''.'' then
            if tl rest = [] \<or> \<not> is_digit (hd (tl rest)) then None
            else (case parse_fraction (tl rest) 100000 0 of (micros, rest') \<Rightarrow> Some (second, micros, rest'))
          else Some (second, 0, rest))"

definition try_convert_timestamp :: "string \<Rightarrow> int option" where
  "try_convert_timestamp buf =
     (case try_convert_date False buf of
        None \<Rightarrow> None
      | Some (date, buf0) \<Rightarrow>
          let buf1 = dropWhile is_space buf0
          in if buf1 = [] then Some (from_datetime date)
             else let buf2 = (if hd buf1 = CHR ''T'' \<or> hd buf1 = CHR ''t'' then tl buf1 else buf1)
                  in (case parse_two 23 buf2 of
                        None \<Rightarrow> None
                      | Some (hour, buf3) \<Rightarrow>
                          if buf3 = [] \<or> hd buf3 \<noteq> CHR '':'' then None
                          else (case parse_two 59 (tl buf3) of
                            None \<Rightarrow> None
                          | Some (minute, buf4) \<Rightarrow>
                              (case (if buf4 \<noteq> [] \<and> hd buf4 = CHR '':'' then parse_seconds (tl buf4) else Some (0, 0, buf4)) of
                                 None \<Rightarrow> None
                               | Some (second, micros, buf5) \<Rightarrow>
                                   if dropWhile is_space buf5 \<noteq> [] then None
                                   else Some (static_cast I64 (from_datetime date + hour * MICROS_PER_HOUR +
                                          minute * MICROS_PER_MINUTE + second * MICROS_PER_SEC + micros))))))"

section \<open>Splitting is exact\<close>

lemma floor_division:
  assumes "0 < (k :: int)"
  shows "c_div (t + (if t < 0 then 1 else 0)) k - (if t < 0 then 1 else 0) = t div k"
proof (cases "t < 0")
  case True
  let ?q = "t div k" and ?r = "t mod k"
  have "- (t + 1) = k * (- ?q - 1) + (k - ?r - 1)" using mult_div_mod_eq [of k t] by (simp add: algebra_simps)
  moreover have "0 \<le> k - ?r - 1" "k - ?r - 1 < k" using pos_mod_bound [OF assms, of t] pos_mod_sign [OF assms, of t] by linarith+
  ultimately have d: "(- (t + 1)) div k = - ?q - 1" by (rule int_div_pos_eq)
  show ?thesis using True d by (cases "t + 1 = 0") (simp_all add: c_div_def)
qed (simp add: c_div_def)

lemma day_range: "in_type I64 t \<Longrightarrow> in_type I32 (t div MICROS_PER_DAY)"
proof -
  assume t: "in_type I64 t"
  have "- (2 ^ 63) div MICROS_PER_DAY \<le> t div MICROS_PER_DAY" "t div MICROS_PER_DAY \<le> (2 ^ 63 - 1) div MICROS_PER_DAY"
    using t by (auto intro!: zdiv_mono1 simp: in_type_def type_min_def type_max_def units)
  then show ?thesis by (simp add: in_type_def type_min_def type_max_def units)
qed

lemma get_date_floor: "in_type I64 t \<Longrightarrow> get_date t = t div MICROS_PER_DAY"
proof -
  assume t: "in_type I64 t"
  have k: "0 < MICROS_PER_DAY" by (simp add: units)
  show ?thesis unfolding get_date_def floor_division [OF k] by (rule static_cast_id [OF day_range [OF t]])
qed

lemma day_part: "0 \<le> t mod MICROS_PER_DAY" "t mod MICROS_PER_DAY < MICROS_PER_DAY" "in_type I64 (t mod MICROS_PER_DAY)"
proof -
  show *: "0 \<le> t mod MICROS_PER_DAY" "t mod MICROS_PER_DAY < MICROS_PER_DAY" by (simp_all add: units)
  have "MICROS_PER_DAY \<le> 2 ^ 63 - 1" by (simp add: units)
  then show "in_type I64 (t mod MICROS_PER_DAY)" using * unfolding in_type_def type_min_def type_max_def by simp
qed

lemma convert_timestamp_split: "in_type I64 t \<Longrightarrow> convert_timestamp t = (t div MICROS_PER_DAY, t mod MICROS_PER_DAY)"
  using day_part(3) [of t] by (simp add: convert_timestamp_def get_date_floor Let_def static_cast_diff minus_div_mult_eq_mod static_cast_id)

lemma div_less: "0 < k \<Longrightarrow> t < n * k \<Longrightarrow> (t :: int) div k < n"
proof (rule ccontr)
  assume k: "0 < k" "t < n * k" "\<not> t div k < n"
  then have "n * k \<le> t div k * k" by (intro mult_right_mono) simp_all
  moreover have "t div k * k \<le> t" using div_mult_mod_eq [of t k] pos_mod_sign [OF k(1), of t] by linarith
  ultimately show False using k(2) by simp
qed

lemma convert_time_fields:
  assumes "0 \<le> t" "t < MICROS_PER_DAY"
  obtains h m s u where "convert_time t = (h, m, s, u)" "0 \<le> h" "h \<le> 23" "0 \<le> m" "m \<le> 59" "0 \<le> s" "s \<le> 59" "0 \<le> u" "u \<le> 999999"
    "h * MICROS_PER_HOUR + m * MICROS_PER_MINUTE + s * MICROS_PER_SEC + u = t"
proof -
  define h where "h = t div MICROS_PER_HOUR"
  define t1 where "t1 = t mod MICROS_PER_HOUR"
  define m where "m = t1 div MICROS_PER_MINUTE"
  define t2 where "t2 = t1 mod MICROS_PER_MINUTE"
  have r: "0 \<le> t1" "t1 < MICROS_PER_HOUR" "0 \<le> t2" "t2 < MICROS_PER_MINUTE" by (simp_all add: t1_def t2_def units)
  have e: "t - h * MICROS_PER_HOUR = t1" "t1 - m * MICROS_PER_MINUTE = t2" "t2 - t2 div MICROS_PER_SEC * MICROS_PER_SEC = t2 mod MICROS_PER_SEC"
    by (simp_all add: h_def t1_def m_def t2_def minus_div_mult_eq_mod)
  have "convert_time t = (h, m, t2 div MICROS_PER_SEC, t2 mod MICROS_PER_SEC)"
    using assms r by (simp add: convert_time_def Let_def c_div_mod_nonneg e flip: h_def m_def)
  moreover have "0 \<le> h" "0 \<le> m" "0 \<le> t2 div MICROS_PER_SEC" using assms r by (simp_all add: h_def m_def units pos_imp_zdiv_nonneg_iff)
  moreover have "h < 24" "m < 60" "t2 div MICROS_PER_SEC < 60"
    using assms r unfolding h_def m_def by (intro div_less; simp add: units)+
  moreover have "0 \<le> t2 mod MICROS_PER_SEC" "t2 mod MICROS_PER_SEC < 1000000" by (simp_all add: units)
  moreover have "h * MICROS_PER_HOUR + m * MICROS_PER_MINUTE + t2 div MICROS_PER_SEC * MICROS_PER_SEC + t2 mod MICROS_PER_SEC = t"
    using e by linarith
  ultimately show ?thesis by (intro that [of h m "t2 div MICROS_PER_SEC" "t2 mod MICROS_PER_SEC"]) simp_all
qed

section \<open>Text\<close>

lemma parse_two_text: "0 \<le> v \<Longrightarrow> v \<le> limit \<Longrightarrow> limit \<le> 99 \<Longrightarrow> parse_two limit (two_digits v @ rest) = Some (v, rest)"
  using two_digits_parse [of v] by (auto simp: Let_def add.commute)

text \<open>The fraction loop at the scale of its first digit.\<close>

definition frac_scale :: "nat \<Rightarrow> int" where
  "frac_scale n = (if n = 0 then 0 else 10 ^ (n - 1))"

lemma parse_fraction_digits:
  assumes "list_all is_digit ds" "length ds \<le> n" "rest = [] \<or> \<not> is_digit (hd rest)"
  shows "parse_fraction (ds @ rest) (frac_scale n) u = (u + int (digits_val 0 ds) * 10 ^ (n - length ds), rest)"
  using assms
proof (induction ds arbitrary: n u)
  case Nil
  then show ?case by (cases rest) auto
next
  case (Cons c ds)
  then obtain k where n: "n = Suc k" by (cases n) auto
  have s: "frac_scale n div 10 = frac_scale k" "frac_scale n > 0" "frac_scale n = 10 ^ k"
    by (cases k; simp add: frac_scale_def n)+
  have "10 ^ k = (10 :: int) ^ length ds * 10 ^ (k - length ds)" using Cons.prems(2) by (simp add: n flip: power_add)
  then have "int (digit_val c) * 10 ^ k + int (digits_val 0 ds) * 10 ^ (k - length ds) =
      int (digits_val 0 (c # ds)) * 10 ^ (n - length (c # ds))"
    using digits_val_add [of "digit_val c" ds] by (simp add: n algebra_simps)
  then show ?case using Cons.IH [of k "u + int (digit_val c) * 10 ^ k"] Cons.prems s by (simp add: n add.assoc)
qed

lemma strip_zeros:
  assumes "length b = 6" "list_all is_digit b" "z = length (takeWhile (\<lambda>c. c = CHR ''0'') (rev (tl b)))"
  shows "z \<le> 5 \<and> digits_val 0 (take (6 - z) b) * 10 ^ z = digits_val 0 b"
proof -
  let ?P = "\<lambda>c. c = CHR ''0''"
  have z: "z \<le> 5" using length_takeWhile_le [of ?P "rev (tl b)"] assms by simp
  obtain c cs where b: "b = c # cs" using assms(1) by (cases b) auto
  have "rev cs = takeWhile ?P (rev cs) @ dropWhile ?P (rev cs)" by simp
  then have "cs = rev (dropWhile ?P (rev cs)) @ rev (takeWhile ?P (rev cs))" by (metis rev_append rev_rev_ident)
  moreover have "\<forall>y \<in> set (takeWhile ?P (rev cs)). y = CHR ''0''" by (auto dest: set_takeWhileD)
  then have "takeWhile ?P (rev cs) = replicate z (CHR ''0'')" using replicate_length_same assms(3) b by fastforce
  ultimately have b': "b = (c # rev (dropWhile ?P (rev cs))) @ replicate z (CHR ''0'')" using b by simp
  then have "take (6 - z) b = c # rev (dropWhile ?P (rev cs))" using assms(1) by (metis append_eq_conv_conj diff_add_inverse2 length_append length_replicate)
  moreover have "digits_val a (replicate z (CHR ''0'')) = a * 10 ^ z" for a by (induction z arbitrary: a) (simp_all add: digit_val_def)
  ultimately show ?thesis using z b' by (metis digits_val_simps(3))
qed

lemma time_text:
  assumes "0 \<le> u" "u \<le> 999999"
  obtains micro_buffer len where "time_length u = Inr (micro_buffer, len)"
    "if u = 0 then len = 8 else len > 9 \<and> take (len - 9) micro_buffer \<noteq> [] \<and> list_all is_digit (take (len - 9) micro_buffer) \<and>
       parse_fraction (take (len - 9) micro_buffer) 100000 0 = (u, [])"
proof (cases "u = 0")
  case True
  then show ?thesis by (intro that [of "[]" 8]) (simp_all add: time_length_def)
next
  case False
  let ?ds = "format_unsigned (nat u) []"
  let ?b = "pad_zeros 6 ?ds"
  define z where "z = length (takeWhile (\<lambda>c. c = CHR ''0'') (rev (tl ?b)))"
  have "nat u < 10 ^ 6" using assms by simp
  then have l: "length ?ds \<le> 6" using less_power_iff [of 6 "nat u"] by simp
  then have b: "length ?b = 6" "list_all is_digit ?b" "digits_val 0 ?b = nat u"
    using length_pad digit_pad format_unsigned_digits digits_val_pad by simp_all
  note z = strip_zeros [OF b(1,2) z_def]
  let ?f = "take (6 - z) ?b"
  have f: "list_all is_digit ?f" "length ?f = 6 - z" using b z by (auto simp: list_all_iff dest: in_set_takeD)
  have "int (digits_val 0 ?f) * 10 ^ z = u" using z b(3) assms by (metis int_nat_eq of_nat_mult of_nat_numeral of_nat_power)
  then have "parse_fraction ?f 100000 0 = (u, [])"
    using parse_fraction_digits [of ?f 6 "[]" 0] f z by (simp add: frac_scale_def)
  moreover have "time_length u = Inr (?b, 15 - z)" using False l by (simp add: time_length_def format_micros_def Let_def z_def)
  moreover have "15 - z - 9 = 6 - z" "15 - z > 9" using conjunct1 [OF z] by arith+
  moreover have "?f \<noteq> []" using f z by auto
  ultimately show ?thesis using False f(1) by (intro that [of ?b "15 - z"]) simp_all
qed

lemma seconds_text:
  assumes s: "0 \<le> s" "s \<le> 59" and u: "0 \<le> u" "u \<le> 999999" and t: "time_length u = Inr (b, len)"
    and f: "if u = 0 then len = 8 else len > 9 \<and> take (len - 9) b \<noteq> [] \<and> list_all is_digit (take (len - 9) b) \<and>
       parse_fraction (take (len - 9) b) 100000 0 = (u, [])"
  shows "parse_seconds (two_digits s @ (if len > 8 then CHR ''.'' # take (len - 9) b else [])) = Some (s, u, [])"
proof (cases "u = 0")
  case True
  then show ?thesis using s f parse_two_text [of s 59 "[]"] by (simp add: parse_seconds_def)
next
  case False
  then have "is_digit (hd (take (len - 9) b))" using f by (cases "take (len - 9) b") auto
  then show ?thesis using False f s by (simp add: parse_seconds_def parse_two_text)
qed

lemma timestamp_text:
  assumes t: "in_type I64 t" and d: "in_type I64 (t div MICROS_PER_DAY * MICROS_PER_DAY)"
  shows "\<exists>txt. timestamp_to_string t = Inr txt \<and> try_convert_timestamp txt = Some t"
proof -
  let ?d = "t div MICROS_PER_DAY"
  obtain h m s u where ct: "convert_time (t mod MICROS_PER_DAY) = (h, m, s, u)" and r: "0 \<le> h" "h \<le> 23" "0 \<le> m" "m \<le> 59" "0 \<le> s" "s \<le> 59" "0 \<le> u" "u \<le> 999999"
    and sum: "h * MICROS_PER_HOUR + m * MICROS_PER_MINUTE + s * MICROS_PER_SEC + u = t mod MICROS_PER_DAY"
    by (rule convert_time_fields [OF day_part(1,2)])
  obtain year mo da where cd: "convert_date ?d = Inr (year, mo, da)" "real_date year mo da" "civil_days year mo da = ?d" by (rule convert_date_correct)
  have v: "is_valid_date year mo da" using cd day_range [OF t] by (simp add: is_valid_iff)
  obtain y yl bc dlen where dl: "date_length year = (y, yl, bc, dlen)" by (cases "date_length year")
  obtain b len where tl: "time_length u = Inr (b, len)" and f: "if u = 0 then len = 8 else len > 9 \<and> take (len - 9) b \<noteq> [] \<and>
      list_all is_digit (take (len - 9) b) \<and> parse_fraction (take (len - 9) b) 100000 0 = (u, [])"
    by (rule time_text [OF r(7,8)])
  let ?sec = "two_digits s @ (if len > 8 then CHR ''.'' # take (len - 9) b else [])"
  let ?time = "two_digits h @ CHR '':'' # two_digits m @ CHR '':'' # ?sec"
  have ft: "format_time len h m s b = Inr ?time" using r by (simp add: format_time_def format_two_digits_def)
  obtain a1 a2 where a: "two_digits h = [a1, a2]" "is_digit a1" using two_digits_parse [of h] r by auto
  then have a1: "\<not> is_space a1" "a1 \<noteq> CHR ''T''" "a1 \<noteq> CHR ''t''" "a1 \<noteq> CHR ''(''" by (auto simp: is_digit_def is_space_def)
  have "bc_suffix (CHR '' '' # ?time) = False" using a a1 by (cases "CHR '' '' # ?time" rule: bc_suffix.cases) auto
  then obtain dt where fd: "format_date y yl bc mo da = Inr dt" and tc: "try_convert_date False (dt @ CHR '' '' # ?time) = Some (?d, CHR '' '' # ?time)"
    using date_text_parses [OF v dl, of "CHR '' '' # ?time" False] cd(3) by (auto simp: is_space_def)
  have "timestamp_to_string t = Inr (dt @ CHR '' '' # ?time)"
    unfolding timestamp_to_string_def convert_timestamp_split [OF t] prod.case ct cd(1) sum.case dl tl fd ft by simp
  moreover
  have dw: "dropWhile is_space (CHR '' '' # ?time) = ?time" using a a1 by (simp add: is_space_def)
  have p: "parse_two 23 ?time = Some (h, CHR '':'' # two_digits m @ CHR '':'' # ?sec)"
    "parse_two 59 (two_digits m @ CHR '':'' # ?sec) = Some (m, CHR '':'' # ?sec)" using r by (intro parse_two_text; simp)+
  have ne: "(?time = []) = False" "(hd ?time = CHR ''T'' \<or> hd ?time = CHR ''t'') = False" using a a1 by simp_all
  have "static_cast I64 (from_datetime ?d + h * MICROS_PER_HOUR + m * MICROS_PER_MINUTE + s * MICROS_PER_SEC + u) = t"
    using sum static_cast_id [OF d] static_cast_id [OF t] div_mult_mod_eq [of t MICROS_PER_DAY] by (simp add: from_datetime_def add.assoc)
  then have "try_convert_timestamp (dt @ CHR '' '' # ?time) = Some t"
    unfolding try_convert_timestamp_def tc option.case prod.case Let_def dw ne if_False p list.sel seconds_text [OF r(5-8) tl f]
    by simp
  ultimately show ?thesis by blast
qed

section \<open>Properties\<close>

text \<open>
  Splitting a timestamp floors: the day is the one the instant falls on, also before the epoch, the
  time is within that day, and together they give the timestamp back.
\<close>

theorem timestamp_split_floors:
  assumes "in_type I64 t" and "convert_timestamp t = (date, time)"
  shows "date = get_date t \<and> time = get_time t \<and> 0 \<le> time \<and> time < MICROS_PER_DAY \<and> date * MICROS_PER_DAY + time = t"
proof -
  have "date = t div MICROS_PER_DAY" "time = t mod MICROS_PER_DAY" using assms convert_timestamp_split [OF assms(1)] by simp_all
  moreover have "get_time t = snd (convert_timestamp t)" by (simp add: get_time_def convert_timestamp_def Let_def)
  ultimately show ?thesis using assms(2) day_part [of t] get_date_floor [OF assms(1)] by simp
qed

theorem timestamp_split_floors_witness:
  "convert_timestamp (- 1) = (- 1, 86399999999) \<and> - 1 * MICROS_PER_DAY + 86399999999 = - 1"
  using timestamp_split_floors [of "- 1" "- 1" 86399999999]
  by (simp add: in_type_def type_min_def type_max_def convert_timestamp_def get_date_def c_div_def static_cast_def units Let_def)



text \<open>
  A date beyond the range of timestamps is not refused: the first of January 300000 parses to an
  instant before the epoch, because the product of day and microseconds per day is not checked.
\<close>

theorem timestamp_parse_wraps:
  "\<exists>t. try_convert_timestamp ''300000-01-01'' = Some t \<and> t < 0"
proof -
  have "try_from_date 300000 1 1 = Some 108853222"
    by (simp add: try_from_date_eq is_valid_iff real_date_def civil_days_def year_days_def leap_def month_start_def days_in_month_def
        LEAP_DAYS_def CUMULATIVE_LEAP_DAYS_def in_type_def type_min_def type_max_def)
  then have "try_convert_date False ''300000-01-01'' = Some (108853222, [])"
    by (simp add: try_convert_date_def is_space_def is_digit_def digit_val_def)
  then show ?thesis by (simp add: try_convert_timestamp_def from_datetime_def static_cast_def type_min_def units)
qed

end
