(* ===== verification/ArcReplacer.thy ===== *)
theory ArcReplacer
  imports Prelude
begin

text \<open>
  The page replacement policy of the buffer pool: \<^verbatim>\<open>storage/buffer/arc_replacer.{h,cpp}\<close>. Four lists hold
  the frames seen once (\<open>mru\<close>) and more than once (\<open>mfu\<close>) and the pages recently evicted from each; two
  maps lead from a frame or a ghost page to its status. A \<^verbatim>\<open>list_iter_\<close> of the source is the position of
  the entry in the one list that its status names, so erasing through it removes that entry.
\<close>

section \<open>State\<close>

datatype arc_status = MRU | MFU | MRU_GHOST | MFU_GHOST

record frame_status =
  fs_page :: int
  fs_frame :: nat
  fs_evictable :: bool
  fs_arc :: arc_status

record arc =
  mru :: "nat list"
  mfu :: "nat list"
  mru_ghost :: "int list"
  mfu_ghost :: "int list"
  alive_map :: "nat \<Rightarrow> frame_status option"
  ghost_map :: "int \<Rightarrow> frame_status option"
  curr_size :: nat
  mru_target_size :: nat
  replacer_size :: nat

definition arc_replacer :: "nat \<Rightarrow> arc" where
  "arc_replacer num_frames =
     \<lparr>mru = [], mfu = [], mru_ghost = [], mfu_ghost = [], alive_map = Map.empty, ghost_map = Map.empty,
      curr_size = 0, mru_target_size = 0, replacer_size = num_frames\<rparr>"

section \<open>Eviction\<close>

text \<open>The search of \<^verbatim>\<open>EvictFromList\<close>, on the list read from its back.\<close>

fun find_victim :: "(nat \<Rightarrow> frame_status option) \<Rightarrow> nat list \<Rightarrow> frame_status option result" where
  "find_victim alive [] = Inr None"
| "find_victim alive (f # q) =
     (case alive f of
        None \<Rightarrow> Inl (AssertionFailed ''Frame ID not present in status map'')
      | Some status \<Rightarrow> if fs_evictable status then Inr (Some status) else find_victim alive q)"

definition erase_last :: "'a \<Rightarrow> 'a list \<Rightarrow> 'a list" where
  "erase_last x q = rev (remove1 x (rev q))"

text \<open>
  \<^verbatim>\<open>EvictFromList(mfu_, mfu_ghost_)\<close> for \<open>frequent\<close>, \<^verbatim>\<open>EvictFromList(mru_, mru_ghost_)\<close> otherwise.
\<close>

definition evict_from_list :: "bool \<Rightarrow> arc \<Rightarrow> (nat option \<times> arc) result" where
  "evict_from_list frequent r =
     (case find_victim (alive_map r) (rev (if frequent then mfu r else mru r)) of
        Inl e \<Rightarrow> Inl e
      | Inr None \<Rightarrow> Inr (None, r)
      | Inr (Some status) \<Rightarrow>
          let f = fs_frame status; page_id = fs_page status;
              r1 = (if frequent
                    then r\<lparr>mfu := erase_last f (mfu r), mfu_ghost := page_id # mfu_ghost r\<rparr>
                    else r\<lparr>mru := erase_last f (mru r), mru_ghost := page_id # mru_ghost r\<rparr>)
          in if fs_arc status \<noteq> MFU \<and> fs_arc status \<noteq> MRU then Inl (AssertionFailed ''Frame Status is not correct.'')
             else Inr (Some f, r1\<lparr>
               ghost_map := (ghost_map r1)(page_id \<mapsto> status\<lparr>fs_arc := if fs_arc status = MFU then MFU_GHOST else MRU_GHOST\<rparr>),
               alive_map := (alive_map r1)(f := None),
               curr_size := curr_size r1 - 1\<rparr>))"

definition evict_either :: "bool \<Rightarrow> arc \<Rightarrow> (nat option \<times> arc) result" where
  "evict_either frequent_first r =
     (case evict_from_list frequent_first r of
        Inl e \<Rightarrow> Inl e
      | Inr (Some f, r') \<Rightarrow> Inr (Some f, r')
      | Inr (None, r') \<Rightarrow> evict_from_list (\<not> frequent_first) r')"

definition arc_evict :: "arc \<Rightarrow> (nat option \<times> arc) result" where
  "arc_evict r =
     (if curr_size r = 0 then Inr (None, r)
      else evict_either (length (mru r) < mru_target_size r) r)"

section \<open>Accesses\<close>

definition update_mru_target_size :: "arc_status \<Rightarrow> nat \<Rightarrow> nat \<Rightarrow> nat \<Rightarrow> nat" where
  "update_mru_target_size status mru_ghost_size mfu_ghost_size target =
     (if status = MRU_GHOST then
        if mru_ghost_size \<ge> mfu_ghost_size then target + 1
        else target + (if mru_ghost_size > 0 then mfu_ghost_size div mru_ghost_size else 0)
      else if mfu_ghost_size \<ge> mru_ghost_size then (if target > 0 then target - 1 else 0)
      else let delta = (if mfu_ghost_size > 0 then mru_ghost_size div mfu_ghost_size else 0)
           in if target \<ge> delta then target - delta else 0)"

definition access_hits :: "nat \<Rightarrow> frame_status \<Rightarrow> arc \<Rightarrow> arc result" where
  "access_hits f status r =
     (if fs_arc status \<noteq> MFU \<and> fs_arc status \<noteq> MRU then Inl (AssertionFailed ''Frame Alive Status is not correct.'')
      else if fs_arc status = MRU
      then Inr (r\<lparr>mru := remove1 f (mru r), mfu := f # mfu r, alive_map := (alive_map r)(f \<mapsto> status\<lparr>fs_arc := MFU\<rparr>)\<rparr>)
      else Inr (r\<lparr>mfu := f # remove1 f (mfu r)\<rparr>))"

definition access_ghost_hits :: "nat \<Rightarrow> int \<Rightarrow> frame_status \<Rightarrow> arc \<Rightarrow> (frame_status \<times> arc) result" where
  "access_ghost_hits f page_id status r =
     (if fs_arc status \<noteq> MFU_GHOST \<and> fs_arc status \<noteq> MRU_GHOST
      then Inl (AssertionFailed ''Frame Ghost Status is not correct.'')
      else let target = update_mru_target_size (fs_arc status) (length (mru_ghost r)) (length (mfu_ghost r)) (mru_target_size r);
               r1 = r\<lparr>mru_target_size := max (min target (replacer_size r)) 0\<rparr>;
               r2 = (if fs_arc status = MRU_GHOST then r1\<lparr>mru_ghost := remove1 (fs_page status) (mru_ghost r1)\<rparr>
                     else r1\<lparr>mfu_ghost := remove1 (fs_page status) (mfu_ghost r1)\<rparr>)
           in Inr (\<lparr>fs_page = page_id, fs_frame = f, fs_evictable = False, fs_arc = MFU\<rparr>, r2\<lparr>mfu := f # mfu r2\<rparr>))"

definition bound_ghosts :: "arc \<Rightarrow> arc" where
  "bound_ghosts r =
     (if length (mru r) + length (mru_ghost r) > replacer_size r \<and> mru_ghost r \<noteq> []
      then r\<lparr>ghost_map := (ghost_map r)(last (mru_ghost r) := None), mru_ghost := butlast (mru_ghost r)\<rparr>
      else if length (mru r) + length (mru_ghost r) + length (mfu_ghost r) + length (mfu r) > 2 * replacer_size r \<and> mfu_ghost r \<noteq> []
      then r\<lparr>ghost_map := (ghost_map r)(last (mfu_ghost r) := None), mfu_ghost := butlast (mfu_ghost r)\<rparr>
      else r)"

definition record_access :: "nat \<Rightarrow> int \<Rightarrow> arc \<Rightarrow> arc result" where
  "record_access f page_id r =
     (case (case alive_map r f of
              Some status \<Rightarrow> access_hits f status r
            | None \<Rightarrow>
                (case ghost_map r page_id of
                   Some status \<Rightarrow>
                     (case access_ghost_hits f page_id status r of
                        Inl e \<Rightarrow> Inl e
                      | Inr (status', r') \<Rightarrow>
                          Inr (r'\<lparr>ghost_map := (ghost_map r')(page_id := None), alive_map := (alive_map r')(f \<mapsto> status')\<rparr>))
                 | None \<Rightarrow>
                     Inr (r\<lparr>mru := f # mru r,
                            alive_map := (alive_map r)(f \<mapsto> \<lparr>fs_page = page_id, fs_frame = f, fs_evictable = False, fs_arc = MRU\<rparr>)\<rparr>)))
      of Inl e \<Rightarrow> Inl e | Inr r' \<Rightarrow> Inr (bound_ghosts r'))"

section \<open>Evictability\<close>

definition set_evictable :: "nat \<Rightarrow> bool \<Rightarrow> arc \<Rightarrow> arc result" where
  "set_evictable f b r =
     (case alive_map r f of
        None \<Rightarrow> Inl (RangeError ''Frame ID not found'')
      | Some status \<Rightarrow>
          if b = fs_evictable status then Inr r
          else let r1 = r\<lparr>alive_map := (alive_map r)(f \<mapsto> status\<lparr>fs_evictable := b\<rparr>)\<rparr>
               in if b then Inr (r1\<lparr>curr_size := curr_size r1 + 1\<rparr>)
                  else if \<not> curr_size r1 > 0 then Inl (AssertionFailed ''curr_size_ underflow'')
                  else Inr (r1\<lparr>curr_size := curr_size r1 - 1\<rparr>))"

definition arc_remove :: "nat \<Rightarrow> arc \<Rightarrow> arc result" where
  "arc_remove f r =
     (case alive_map r f of
        None \<Rightarrow> Inr r
      | Some status \<Rightarrow>
          if \<not> fs_evictable status then Inl (RangeError ''Frame ID not evictable'')
          else if fs_arc status \<noteq> MFU \<and> fs_arc status \<noteq> MRU then Inl (AssertionFailed ''Frame Status is not correct.'')
          else let r1 = (if fs_arc status = MFU then r\<lparr>mfu := remove1 f (mfu r)\<rparr> else r\<lparr>mru := remove1 f (mru r)\<rparr>)
               in Inr (r1\<lparr>alive_map := (alive_map r1)(f := None), curr_size := curr_size r1 - 1\<rparr>))"

definition arc_size :: "arc \<Rightarrow> nat" where
  "arc_size r = curr_size r"

section \<open>The contract of a replacer\<close>

text \<open>
  What the buffer pool relies on: the frames the replacer tracks, each with its page and whether it may
  be evicted, change only as the calls say, and eviction finds a frame whenever one may be evicted.
\<close>

type_synonym tracking = "nat \<Rightarrow> (int \<times> bool) option"

locale replacer =
  fixes inv :: "'r \<Rightarrow> bool"
    and frames_of :: "'r \<Rightarrow> nat"
    and tracked :: "'r \<Rightarrow> tracking"
    and access :: "nat \<Rightarrow> int \<Rightarrow> 'r \<Rightarrow> 'r result"
    and set_ev :: "nat \<Rightarrow> bool \<Rightarrow> 'r \<Rightarrow> 'r result"
    and remove :: "nat \<Rightarrow> 'r \<Rightarrow> 'r result"
    and evict :: "'r \<Rightarrow> (nat option \<times> 'r) result"
    and count :: "'r \<Rightarrow> nat"
  assumes record_new: "inv r \<Longrightarrow> f < frames_of r \<Longrightarrow> tracked r f = None \<Longrightarrow> (\<forall>f' e. tracked r f' \<noteq> Some (p, e)) \<Longrightarrow>
      \<exists>r'. access f p r = Inr r' \<and> inv r' \<and> frames_of r' = frames_of r \<and> tracked r' = (tracked r)(f \<mapsto> (p, False))"
    and record_hit: "inv r \<Longrightarrow> tracked r f = Some (p, e) \<Longrightarrow>
      \<exists>r'. access f p r = Inr r' \<and> inv r' \<and> frames_of r' = frames_of r \<and> tracked r' = tracked r"
    and set_ev_tracked: "inv r \<Longrightarrow> tracked r f = Some (p, e) \<Longrightarrow>
      \<exists>r'. set_ev f b r = Inr r' \<and> inv r' \<and> frames_of r' = frames_of r \<and> tracked r' = (tracked r)(f \<mapsto> (p, b))"
    and set_ev_unknown: "tracked r f = None \<Longrightarrow> set_ev f b r = Inl (RangeError ''Frame ID not found'')"
    and remove_evictable: "inv r \<Longrightarrow> tracked r f = Some (p, True) \<Longrightarrow>
      \<exists>r'. remove f r = Inr r' \<and> inv r' \<and> frames_of r' = frames_of r \<and> tracked r' = (tracked r)(f := None)"
    and remove_pinned: "tracked r f = Some (p, False) \<Longrightarrow> remove f r = Inl (RangeError ''Frame ID not evictable'')"
    and evict_outcome: "inv r \<Longrightarrow>
      (\<exists>f p r'. evict r = Inr (Some f, r') \<and> tracked r f = Some (p, True) \<and> inv r' \<and> frames_of r' = frames_of r \<and>
         tracked r' = (tracked r)(f := None)) \<or>
      (evict r = Inr (None, r) \<and> (\<forall>f p. tracked r f \<noteq> Some (p, True)))"
    and count_evictable: "inv r \<Longrightarrow> count r = card {f. \<exists>p. tracked r f = Some (p, True)}"
begin

text \<open>An access followed by a pin, as the pool performs them.\<close>

lemma touch_new:
  assumes "inv r" "f < frames_of r" "tracked r f = None" "\<forall>f' e. tracked r f' \<noteq> Some (p, e)"
  obtains r1 r2 where "access f p r = Inr r1" "set_ev f b r1 = Inr r2" "inv r2" "frames_of r2 = frames_of r"
    "tracked r2 = (tracked r)(f \<mapsto> (p, b))"
proof -
  obtain r1 where r1: "access f p r = Inr r1" "inv r1" "frames_of r1 = frames_of r" "tracked r1 = (tracked r)(f \<mapsto> (p, False))"
    using record_new [OF assms] by blast
  then obtain r2 where "set_ev f b r1 = Inr r2" "inv r2" "frames_of r2 = frames_of r1" "tracked r2 = (tracked r1)(f \<mapsto> (p, b))"
    using set_ev_tracked [of r1 f p False b] by auto
  with r1 show ?thesis by (intro that [of r1 r2]) simp_all
qed

lemma touch_hit:
  assumes "inv r" "tracked r f = Some (p, e)"
  obtains r1 r2 where "access f p r = Inr r1" "set_ev f b r1 = Inr r2" "inv r2" "frames_of r2 = frames_of r"
    "tracked r2 = (tracked r)(f \<mapsto> (p, b))"
proof -
  obtain r1 where r1: "access f p r = Inr r1" "inv r1" "frames_of r1 = frames_of r" "tracked r1 = tracked r"
    using record_hit [OF assms] by blast
  then obtain r2 where "set_ev f b r1 = Inr r2" "inv r2" "frames_of r2 = frames_of r1" "tracked r2 = (tracked r1)(f \<mapsto> (p, b))"
    using set_ev_tracked [of r1 f p e b] assms(2) by auto
  with r1 show ?thesis by (intro that [of r1 r2]) simp_all
qed

lemma evict_none_iff: "inv r \<Longrightarrow> (\<exists>r'. evict r = Inr (None, r')) \<longleftrightarrow> (\<forall>f p. tracked r f \<noteq> Some (p, True))"
  using evict_outcome [of r] by auto

end

section \<open>Invariant\<close>

definition alive_ok :: "arc \<Rightarrow> bool" where
  "alive_ok r \<longleftrightarrow> distinct (mru r @ mfu r) \<and> set (mru r) \<union> set (mfu r) \<subseteq> {..<replacer_size r} \<and>
     (\<forall>f. alive_map r f = None \<longrightarrow> f \<notin> set (mru r) \<and> f \<notin> set (mfu r)) \<and>
     (\<forall>f s. alive_map r f = Some s \<longrightarrow> fs_frame s = f \<and>
        (fs_arc s = MRU \<and> f \<in> set (mru r) \<or> fs_arc s = MFU \<and> f \<in> set (mfu r)))"

definition ghost_ok :: "arc \<Rightarrow> bool" where
  "ghost_ok r \<longleftrightarrow> distinct (mru_ghost r @ mfu_ghost r) \<and>
     (\<forall>p. ghost_map r p = None \<longrightarrow> p \<notin> set (mru_ghost r) \<and> p \<notin> set (mfu_ghost r)) \<and>
     (\<forall>p s. ghost_map r p = Some s \<longrightarrow> fs_page s = p \<and>
        (fs_arc s = MRU_GHOST \<and> p \<in> set (mru_ghost r) \<or> fs_arc s = MFU_GHOST \<and> p \<in> set (mfu_ghost r)))"

definition pages_ok :: "arc \<Rightarrow> bool" where
  "pages_ok r \<longleftrightarrow>
     (\<forall>f s. alive_map r f = Some s \<longrightarrow> ghost_map r (fs_page s) = None \<and>
        (\<forall>f' s'. alive_map r f' = Some s' \<longrightarrow> fs_page s' = fs_page s \<longrightarrow> f' = f))"

definition evictable_frames :: "arc \<Rightarrow> nat set" where
  "evictable_frames r = {f. \<exists>s. alive_map r f = Some s \<and> fs_evictable s}"

definition size_ok :: "arc \<Rightarrow> bool" where
  "size_ok r \<longleftrightarrow> mru_target_size r \<le> replacer_size r \<and> length (mru r) + length (mru_ghost r) \<le> replacer_size r \<and>
     length (mru r) + length (mru_ghost r) + length (mfu_ghost r) + length (mfu r) \<le> 2 * replacer_size r"

definition arc_inv :: "arc \<Rightarrow> bool" where
  "arc_inv r \<longleftrightarrow> alive_ok r \<and> ghost_ok r \<and> pages_ok r \<and> curr_size r = card (evictable_frames r) \<and> size_ok r"

definition arc_tracked :: "arc \<Rightarrow> tracking" where
  "arc_tracked r = (\<lambda>f. map_option (\<lambda>s. (fs_page s, fs_evictable s)) (alive_map r f))"

lemmas arc_inv_defs = arc_inv_def alive_ok_def ghost_ok_def pages_ok_def size_ok_def

lemma alive_okD:
  assumes "alive_ok r" "alive_map r f = Some s"
  shows "fs_frame s = f \<and> f < replacer_size r \<and>
     (fs_arc s = MRU \<and> f \<in> set (mru r) \<and> f \<notin> set (mfu r) \<or> fs_arc s = MFU \<and> f \<in> set (mfu r) \<and> f \<notin> set (mru r))"
proof -
  have "fs_frame s = f \<and> (fs_arc s = MRU \<and> f \<in> set (mru r) \<or> fs_arc s = MFU \<and> f \<in> set (mfu r))"
    using assms unfolding alive_ok_def by blast
  then show ?thesis using assms(1) by (auto simp: alive_ok_def)
qed

lemma alive_count: "alive_ok r \<Longrightarrow> length (mru r) + length (mfu r) \<le> replacer_size r"
  using card_mono [of "{..<replacer_size r}" "set (mru r @ mfu r)"] distinct_card [of "mru r @ mfu r"] by (simp add: alive_ok_def)

lemma finite_evictable: "alive_ok r \<Longrightarrow> finite (evictable_frames r)"
  by (rule finite_subset [of _ "{..<replacer_size r}"]) (auto simp: evictable_frames_def dest: alive_okD)

lemma arc_tracked_simps:
  "arc_tracked r f = None \<longleftrightarrow> alive_map r f = None"
  "arc_tracked r f = Some (p, e) \<longleftrightarrow> (\<exists>s. alive_map r f = Some s \<and> fs_page s = p \<and> fs_evictable s = e)"
  by (auto simp: arc_tracked_def)

lemma evictable_tracked: "evictable_frames r = {f. \<exists>p. arc_tracked r f = Some (p, True)}"
  by (auto simp: evictable_frames_def arc_tracked_simps)

lemma erase_last_distinct: "distinct q \<Longrightarrow> erase_last x q = remove1 x q"
  by (simp add: erase_last_def distinct_remove1_removeAll removeAll_filter_not_eq rev_filter)

lemma Suc_length_remove1: "x \<in> set xs \<Longrightarrow> Suc (length (remove1 x xs)) = length xs"
  by (induction xs) auto

lemma find_victim_cases:
  "(\<And>f. f \<in> set q \<Longrightarrow> alive f \<noteq> None) \<Longrightarrow>
     find_victim alive q = Inr None \<and> (\<forall>f s. f \<in> set q \<longrightarrow> alive f = Some s \<longrightarrow> \<not> fs_evictable s) \<or>
     (\<exists>f s xs ys. find_victim alive q = Inr (Some s) \<and> q = xs @ f # ys \<and> alive f = Some s \<and> fs_evictable s \<and>
        (\<forall>x s'. x \<in> set xs \<longrightarrow> alive x = Some s' \<longrightarrow> \<not> fs_evictable s'))"
proof (induction q)
  case (Cons f q)
  obtain s where s: "alive f = Some s" using Cons.prems [of f] by auto
  show ?case
  proof (cases "fs_evictable s")
    case True
    then show ?thesis using s by (intro disjI2 exI [of _ f] exI [of _ s] exI [of _ "[]"] exI [of _ q]) simp
  next
    case False
    have "\<And>f. f \<in> set q \<Longrightarrow> alive f \<noteq> None" using Cons.prems by simp
    from Cons.IH [OF this] show ?thesis
    proof
      assume "find_victim alive q = Inr None \<and> (\<forall>f s. f \<in> set q \<longrightarrow> alive f = Some s \<longrightarrow> \<not> fs_evictable s)"
      then show ?thesis using False s by auto
    next
      assume "\<exists>f s xs ys. find_victim alive q = Inr (Some s) \<and> q = xs @ f # ys \<and> alive f = Some s \<and> fs_evictable s \<and>
        (\<forall>x s'. x \<in> set xs \<longrightarrow> alive x = Some s' \<longrightarrow> \<not> fs_evictable s')"
      then obtain f' s' xs ys where *: "find_victim alive q = Inr (Some s')" "q = xs @ f' # ys" "alive f' = Some s'" "fs_evictable s'"
        "\<forall>x s'. x \<in> set xs \<longrightarrow> alive x = Some s' \<longrightarrow> \<not> fs_evictable s'" by blast
      then show ?thesis using False s by (intro disjI2 exI [of _ f'] exI [of _ s'] exI [of _ "f # xs"] exI [of _ ys]) simp
    qed
  qed
qed simp

section \<open>Eviction is correct\<close>

text \<open>
  The victim of a list is its least recently used evictable frame; it leaves the list and its page becomes
  the most recent ghost.
\<close>

lemma evict_from_list_correct:
  assumes r: "arc_inv r" and q: "q = (if frequent then mfu r else mru r)"
  shows "evict_from_list frequent r = Inr (None, r) \<and> set q \<inter> evictable_frames r = {} \<or>
    (\<exists>f s r' xs ys. evict_from_list frequent r = Inr (Some f, r') \<and> q = xs @ f # ys \<and> set ys \<inter> evictable_frames r = {} \<and>
       alive_map r f = Some s \<and> fs_evictable s \<and> arc_inv r' \<and> replacer_size r' = replacer_size r \<and>
       alive_map r' = (alive_map r)(f := None) \<and> ghost_map r' (fs_page s) \<noteq> None)"
proof -
  have al: "alive_ok r" and gh: "ghost_ok r" and pg: "pages_ok r" and cs: "curr_size r = card (evictable_frames r)" and sz: "size_ok r"
    using r by (auto simp: arc_inv_def)
  have "\<And>f. f \<in> set (rev q) \<Longrightarrow> alive_map r f \<noteq> None" using al q by (auto simp: alive_ok_def split: if_splits)
  from find_victim_cases [of "rev q" "alive_map r", OF this]
  consider (none) "find_victim (alive_map r) (rev q) = Inr None" "\<forall>f s. f \<in> set (rev q) \<longrightarrow> alive_map r f = Some s \<longrightarrow> \<not> fs_evictable s"
    | (some) f s xs ys where "find_victim (alive_map r) (rev q) = Inr (Some s)" "rev q = xs @ f # ys" "alive_map r f = Some s" "fs_evictable s"
      "\<forall>x s'. x \<in> set xs \<longrightarrow> alive_map r x = Some s' \<longrightarrow> \<not> fs_evictable s'"
    by blast
  then show ?thesis
  proof cases
    case none
    then show ?thesis using q by (intro disjI1) (auto simp: evict_from_list_def evictable_frames_def)
  next
    case some
    note f = alive_okD [OF al some(3)]
    have qf: "q = rev ys @ f # rev xs" using some(2) by (metis append.assoc append_Cons append_Nil rev.simps(2) rev_append rev_rev_ident)
    then have fin: "f \<in> set q" by simp
    have arc: "fs_arc s = (if frequent then MFU else MRU)" using fin f q by (auto split: if_splits)
    let ?r = "if frequent then r\<lparr>mfu := remove1 f (mfu r), mfu_ghost := fs_page s # mfu_ghost r\<rparr>
       else r\<lparr>mru := remove1 f (mru r), mru_ghost := fs_page s # mru_ghost r\<rparr>"
    let ?r' = "?r\<lparr>ghost_map := (ghost_map r)(fs_page s \<mapsto> s\<lparr>fs_arc := if frequent then MFU_GHOST else MRU_GHOST\<rparr>),
        alive_map := (alive_map r)(f := None), curr_size := curr_size r - 1\<rparr>"
    have d: "distinct (mfu r)" "distinct (mru r)" using al by (auto simp: alive_ok_def)
    have res: "evict_from_list frequent r = Inr (Some f, ?r')"
      using some(1) q f arc d by (cases frequent) (simp_all add: evict_from_list_def Let_def erase_last_distinct)
    have nog: "ghost_map r (fs_page s) = None" using pg some(3) by (auto simp: pages_ok_def)
    have "alive_ok ?r'" using al f arc by (cases frequent) (auto simp: alive_ok_def set_remove1_eq)
    moreover have "ghost_ok ?r'" using gh nog by (cases frequent) (auto simp: ghost_ok_def)
    moreover have "pages_ok ?r'" using pg some(3) by (cases frequent) (auto simp: pages_ok_def)
    moreover have "evictable_frames ?r' = evictable_frames r - {f}" by (auto simp: evictable_frames_def)
    moreover have "f \<in> evictable_frames r" using some by (auto simp: evictable_frames_def)
    moreover have "size_ok ?r'" using sz Suc_length_remove1 [OF fin] q by (cases frequent) (simp_all add: size_ok_def)
    ultimately have "arc_inv ?r'" using cs finite_evictable [OF al] by (auto simp: arc_inv_def card_Diff_singleton)
    moreover have "set (rev xs) \<inter> evictable_frames r = {}" using some(5) by (auto simp: evictable_frames_def)
    ultimately show ?thesis using res qf some(3,4)
      by (intro disjI2 exI [of _ f] exI [of _ s] exI [of _ ?r'] exI [of _ "rev ys"] exI [of _ "rev xs"]) simp
  qed
qed

lemma evictable_lists: "alive_ok r \<Longrightarrow> evictable_frames r \<subseteq> set (mru r) \<union> set (mfu r)"
  by (auto simp: evictable_frames_def dest: alive_okD)

lemma arc_evict_correct:
  assumes "arc_inv r"
  shows "(\<exists>f p r'. arc_evict r = Inr (Some f, r') \<and> arc_tracked r f = Some (p, True) \<and> arc_inv r' \<and> replacer_size r' = replacer_size r \<and>
      arc_tracked r' = (arc_tracked r)(f := None)) \<or>
    (arc_evict r = Inr (None, r) \<and> (\<forall>f p. arc_tracked r f \<noteq> Some (p, True)))"
proof (cases "evictable_frames r = {}")
  case True
  then have "arc_evict r = Inr (None, r)" using assms by (simp add: arc_evict_def arc_inv_def)
  then show ?thesis using True by (auto simp: evictable_tracked)
next
  case False
  have al: "alive_ok r" using assms by (simp add: arc_inv_def)
  then have "curr_size r \<noteq> 0" using False assms finite_evictable by (simp add: arc_inv_def)
  let ?b = "length (mru r) < mru_target_size r"
  have track: "arc_tracked r' = (arc_tracked r)(f := None)" if "alive_map r' = (alive_map r)(f := None)" for f r'
    using that by (auto simp: arc_tracked_def)
  have "\<exists>f s r'. evict_either ?b r = Inr (Some f, r') \<and> alive_map r f = Some s \<and> fs_evictable s \<and> arc_inv r' \<and>
      replacer_size r' = replacer_size r \<and> alive_map r' = (alive_map r)(f := None)"
    using evict_from_list_correct [OF assms refl, of ?b] evict_from_list_correct [OF assms refl, of "\<not> ?b"] False evictable_lists [OF al]
    by (cases ?b) (auto simp: evict_either_def)
  then obtain f s r' where "evict_either ?b r = Inr (Some f, r')" "alive_map r f = Some s" "fs_evictable s" "arc_inv r'"
      "replacer_size r' = replacer_size r" "alive_map r' = (alive_map r)(f := None)" by blast
  then show ?thesis using track \<open>curr_size r \<noteq> 0\<close>
    by (intro disjI1 exI [of _ f] exI [of _ "fs_page s"] exI [of _ r']) (simp add: arc_evict_def arc_tracked_simps)
qed

section \<open>Accesses are correct\<close>

lemma bound_ghosts_correct:
  assumes "alive_ok r" "ghost_ok r" "pages_ok r" "curr_size r = card (evictable_frames r)" "mru_target_size r \<le> replacer_size r"
    and "length (mru r) + length (mru_ghost r) \<le> Suc (replacer_size r)"
    and "length (mru r) + length (mru_ghost r) + length (mfu_ghost r) + length (mfu r) \<le> Suc (2 * replacer_size r)"
  shows "arc_inv (bound_ghosts r) \<and> replacer_size (bound_ghosts r) = replacer_size r \<and> arc_tracked (bound_ghosts r) = arc_tracked r"
proof -
  let ?r = "bound_ghosts r"
  have same: "alive_map ?r = alive_map r" "mru ?r = mru r" "mfu ?r = mfu r" "replacer_size ?r = replacer_size r"
    "curr_size ?r = curr_size r" "mru_target_size ?r = mru_target_size r"
    by (auto simp: bound_ghosts_def)
  have "alive_ok ?r" using assms(1) by (simp add: alive_ok_def same)
  moreover have "ghost_ok ?r"
  proof -
    have drop: "set (butlast xs) = set xs - {last xs}" if "distinct xs" "xs \<noteq> []" for xs :: "int list"
      using that by (induction xs rule: rev_induct) auto
    have "set (mru_ghost r) \<inter> set (mfu_ghost r) = {}" using assms(2) by (simp add: ghost_ok_def)
    then have "mru_ghost r \<noteq> [] \<Longrightarrow> last (mru_ghost r) \<notin> set (mfu_ghost r)" "mfu_ghost r \<noteq> [] \<Longrightarrow> last (mfu_ghost r) \<notin> set (mru_ghost r)"
      using last_in_set [of "mru_ghost r"] last_in_set [of "mfu_ghost r"] by blast+
    then show ?thesis using assms(2) drop [of "mru_ghost r"] drop [of "mfu_ghost r"] unfolding bound_ghosts_def
      by (auto simp: ghost_ok_def distinct_butlast)
  qed
  moreover have "pages_ok ?r" using assms(3) by (auto simp: pages_ok_def same bound_ghosts_def)
  moreover have "evictable_frames ?r = evictable_frames r" by (simp add: evictable_frames_def same)
  moreover have "size_ok ?r" using assms(5-7) alive_count [OF assms(1)] unfolding size_ok_def same by (auto simp: bound_ghosts_def)
  ultimately show ?thesis using assms(4) by (simp add: arc_inv_def same arc_tracked_def)
qed

lemma record_access_hit:
  assumes r: "arc_inv r" and t: "arc_tracked r f = Some (p, e)"
  shows "\<exists>r'. record_access f p r = Inr r' \<and> arc_inv r' \<and> replacer_size r' = replacer_size r \<and> arc_tracked r' = arc_tracked r"
proof -
  have al: "alive_ok r" and gh: "ghost_ok r" and pg: "pages_ok r" and cs: "curr_size r = card (evictable_frames r)" and sz: "size_ok r"
    using r by (auto simp: arc_inv_def)
  obtain s where s: "alive_map r f = Some s" using t by (auto simp: arc_tracked_simps)
  note f = alive_okD [OF al s]
  let ?r = "if fs_arc s = MRU then r\<lparr>mru := remove1 f (mru r), mfu := f # mfu r, alive_map := (alive_map r)(f \<mapsto> s\<lparr>fs_arc := MFU\<rparr>)\<rparr>
    else r\<lparr>mfu := f # remove1 f (mfu r)\<rparr>"
  have "record_access f p r = Inr (bound_ghosts ?r)" using s f by (auto simp: record_access_def access_hits_def)
  moreover have "arc_tracked ?r = arc_tracked r" using s by (auto simp: arc_tracked_def)
  moreover have "alive_ok ?r" using al f s by (cases "fs_arc s = MRU") (auto simp: alive_ok_def set_remove1_eq)
  moreover have "ghost_ok ?r" using gh by (simp add: ghost_ok_def)
  moreover have "pages_ok ?r" using pg s by (cases "fs_arc s = MRU") (auto simp: pages_ok_def split: if_splits)
  moreover have "curr_size ?r = card (evictable_frames ?r)" using cs s unfolding evictable_tracked \<open>arc_tracked ?r = arc_tracked r\<close> by simp
  moreover have "length (mru ?r) + length (mru_ghost ?r) \<le> Suc (replacer_size r)"
      "length (mru ?r) + length (mru_ghost ?r) + length (mfu_ghost ?r) + length (mfu ?r) \<le> Suc (2 * replacer_size r)"
      "mru_target_size ?r \<le> replacer_size r" "replacer_size ?r = replacer_size r"
    using sz f Suc_length_remove1 [of f "mru r"] Suc_length_remove1 [of f "mfu r"] by (auto simp: size_ok_def)
  ultimately show ?thesis using bound_ghosts_correct [of ?r] by simp
qed

lemma record_access_new:
  assumes r: "arc_inv r" and f: "f < replacer_size r" "arc_tracked r f = None" and p: "\<forall>f' e. arc_tracked r f' \<noteq> Some (p, e)"
  shows "\<exists>r'. record_access f p r = Inr r' \<and> arc_inv r' \<and> replacer_size r' = replacer_size r \<and>
    arc_tracked r' = (arc_tracked r)(f \<mapsto> (p, False))"
proof -
  have al: "alive_ok r" and gh: "ghost_ok r" and pg: "pages_ok r" and cs: "curr_size r = card (evictable_frames r)" and sz: "size_ok r"
    using r by (auto simp: arc_inv_def)
  have nf: "alive_map r f = None" "f \<notin> set (mru r)" "f \<notin> set (mfu r)" using f(2) al by (auto simp: arc_tracked_simps alive_ok_def)
  have np: "fs_page s \<noteq> p" if "alive_map r f' = Some s" for f' s using p that by (auto simp: arc_tracked_simps)
  have fin: "curr_size r' = card (evictable_frames r')"
    if "arc_tracked r' = (arc_tracked r)(f \<mapsto> (p, False))" "curr_size r' = curr_size r" for r'
  proof -
    have "evictable_frames r' = evictable_frames r" using that f(2) unfolding evictable_tracked by auto
    then show ?thesis using that cs by simp
  qed
  show ?thesis
  proof (cases "ghost_map r p")
    case None
    let ?r = "r\<lparr>mru := f # mru r, alive_map := (alive_map r)(f \<mapsto> \<lparr>fs_page = p, fs_frame = f, fs_evictable = False, fs_arc = MRU\<rparr>)\<rparr>"
    have t: "arc_tracked ?r = (arc_tracked r)(f \<mapsto> (p, False))" by (auto simp: arc_tracked_def)
    have "record_access f p r = Inr (bound_ghosts ?r)" using nf None by (simp add: record_access_def)
    moreover have "alive_ok ?r" using al nf f(1) by (auto simp: alive_ok_def)
    moreover have "ghost_ok ?r" using gh by (simp add: ghost_ok_def)
    moreover have "pages_ok ?r" using pg np None by (auto simp: pages_ok_def)
    ultimately show ?thesis using bound_ghosts_correct [of ?r] fin [OF t] t sz by (simp add: size_ok_def)
  next
    case (Some g)
    then have g: "fs_page g = p" "fs_arc g = MRU_GHOST \<and> p \<in> set (mru_ghost r) \<or> fs_arc g = MFU_GHOST \<and> p \<in> set (mfu_ghost r)"
      using gh unfolding ghost_ok_def by blast+
    let ?t = "update_mru_target_size (fs_arc g) (length (mru_ghost r)) (length (mfu_ghost r)) (mru_target_size r)"
    let ?r = "(if fs_arc g = MRU_GHOST then r\<lparr>mru_target_size := min ?t (replacer_size r), mru_ghost := remove1 p (mru_ghost r)\<rparr>
       else r\<lparr>mru_target_size := min ?t (replacer_size r), mfu_ghost := remove1 p (mfu_ghost r)\<rparr>)
      \<lparr>mfu := f # mfu r, ghost_map := (ghost_map r)(p := None),
        alive_map := (alive_map r)(f \<mapsto> \<lparr>fs_page = p, fs_frame = f, fs_evictable = False, fs_arc = MFU\<rparr>)\<rparr>"
    have t: "arc_tracked ?r = (arc_tracked r)(f \<mapsto> (p, False))" by (auto simp: arc_tracked_def)
    have "record_access f p r = Inr (bound_ghosts ?r)" using nf Some g by (auto simp: record_access_def access_ghost_hits_def Let_def)
    moreover have "alive_ok ?r" using al nf f(1) by (auto simp: alive_ok_def)
    moreover have "ghost_ok ?r" using gh g by (auto simp: ghost_ok_def set_remove1_eq)
    moreover have "pages_ok ?r" using pg np by (auto simp: pages_ok_def)
    moreover have "length (mru ?r) + length (mru_ghost ?r) \<le> Suc (replacer_size r)"
      "length (mru ?r) + length (mru_ghost ?r) + length (mfu_ghost ?r) + length (mfu ?r) \<le> Suc (2 * replacer_size r)"
      using sz length_remove1 [of p "mru_ghost r"] length_remove1 [of p "mfu_ghost r"] by (auto simp: size_ok_def)
    ultimately show ?thesis using bound_ghosts_correct [of ?r] fin [OF t] t by (simp split del: if_split) (auto split: if_splits)
  qed
qed

section \<open>Evictability is correct\<close>

lemma set_evictable_tracked:
  assumes r: "arc_inv r" and t: "arc_tracked r f = Some (p, e)"
  shows "\<exists>r'. set_evictable f b r = Inr r' \<and> arc_inv r' \<and> replacer_size r' = replacer_size r \<and> arc_tracked r' = (arc_tracked r)(f \<mapsto> (p, b))"
proof -
  have al: "alive_ok r" and cs: "curr_size r = card (evictable_frames r)" using r by (auto simp: arc_inv_def)
  obtain s where s: "alive_map r f = Some s" "fs_page s = p" "fs_evictable s = e" using t by (auto simp: arc_tracked_simps)
  show ?thesis
  proof (cases "b = e")
    case True
    then show ?thesis using s r t by (intro exI [of _ r]) (auto simp: set_evictable_def)
  next
    case False
    let ?r = "\<lambda>n. r\<lparr>alive_map := (alive_map r)(f \<mapsto> s\<lparr>fs_evictable := b\<rparr>), curr_size := n\<rparr>"
    have t: "arc_tracked (?r n) = (arc_tracked r)(f \<mapsto> (p, b))" for n using s by (auto simp: arc_tracked_def)
    have ok: "alive_ok (?r n)" "ghost_ok (?r n)" "pages_ok (?r n)" "size_ok (?r n)" for n
      using r s by (auto simp: arc_inv_defs split: if_splits)
    note fin = finite_evictable [OF al]
    show ?thesis
    proof (cases b)
      case True
      have "evictable_frames (?r (curr_size r + 1)) = insert f (evictable_frames r)" "f \<notin> evictable_frames r"
        using s True False by (auto simp: evictable_frames_def)
      then have "arc_inv (?r (curr_size r + 1))" using ok cs fin by (simp add: arc_inv_def)
      moreover have "set_evictable f b r = Inr (?r (curr_size r + 1))" using s True False by (simp add: set_evictable_def)
      ultimately show ?thesis using t by auto
    next
      case b: False
      have "evictable_frames (?r (curr_size r - 1)) = evictable_frames r - {f}" "f \<in> evictable_frames r"
        using s b False by (auto simp: evictable_frames_def)
      then have "arc_inv (?r (curr_size r - 1))" "curr_size r > 0" using ok cs fin by (auto simp: arc_inv_def card_gt_0_iff)
      moreover from this have "set_evictable f b r = Inr (?r (curr_size r - 1))" using s b False by (simp add: set_evictable_def)
      ultimately show ?thesis using t by auto
    qed
  qed
qed

lemma arc_remove_evictable:
  assumes r: "arc_inv r" and t: "arc_tracked r f = Some (p, True)"
  shows "\<exists>r'. arc_remove f r = Inr r' \<and> arc_inv r' \<and> replacer_size r' = replacer_size r \<and> arc_tracked r' = (arc_tracked r)(f := None)"
proof -
  have al: "alive_ok r" and cs: "curr_size r = card (evictable_frames r)" using r by (auto simp: arc_inv_def)
  obtain s where s: "alive_map r f = Some s" "fs_evictable s" using t by (auto simp: arc_tracked_simps)
  note f = alive_okD [OF al s(1)]
  let ?r = "(if fs_arc s = MFU then r\<lparr>mfu := remove1 f (mfu r)\<rparr> else r\<lparr>mru := remove1 f (mru r)\<rparr>)
    \<lparr>alive_map := (alive_map r)(f := None), curr_size := curr_size r - 1\<rparr>"
  have "arc_remove f r = Inr ?r" using s f by (auto simp: arc_remove_def Let_def)
  moreover have "alive_ok ?r" using al f by (auto simp: alive_ok_def set_remove1_eq)
  moreover have "ghost_ok ?r" "pages_ok ?r" using r by (auto simp: arc_inv_defs)
  moreover have "size_ok ?r" using r length_remove1 [of f "mru r"] length_remove1 [of f "mfu r"] by (auto simp: arc_inv_def size_ok_def)
  moreover have "evictable_frames ?r = evictable_frames r - {f}" "f \<in> evictable_frames r" using s by (auto simp: evictable_frames_def)
  moreover have "arc_tracked ?r = (arc_tracked r)(f := None)" by (auto simp: arc_tracked_def)
  ultimately show ?thesis using cs finite_evictable [OF al] by (auto simp: arc_inv_def card_Diff_singleton)
qed

lemma arc_inv_init: "arc_inv (arc_replacer n)" "arc_tracked (arc_replacer n) = Map.empty" "replacer_size (arc_replacer n) = n"
  by (auto simp: arc_inv_defs arc_replacer_def evictable_frames_def arc_tracked_def)

interpretation arc_policy: replacer arc_inv replacer_size arc_tracked record_access set_evictable arc_remove arc_evict arc_size
proof unfold_locales
  show "arc_inv r \<Longrightarrow> arc_size r = card {f. \<exists>p. arc_tracked r f = Some (p, True)}" for r
    by (simp add: arc_size_def arc_inv_def evictable_tracked)
  show "arc_tracked r f = Some (p, False) \<Longrightarrow> arc_remove f r = Inl (RangeError ''Frame ID not evictable'')" for r f p
    by (auto simp: arc_remove_def arc_tracked_simps)
qed (use record_access_new record_access_hit set_evictable_tracked arc_remove_evictable arc_evict_correct
    in \<open>auto simp: set_evictable_def arc_tracked_simps\<close>)

section \<open>Runs of the policy\<close>

text \<open>
  The states a replacer for \<open>n\<close> frames reaches when every frame holds one page at a time, as in the pool.
\<close>

inductive arc_reachable :: "nat \<Rightarrow> arc \<Rightarrow> bool" for n where
  arc_start: "arc_reachable n (arc_replacer n)"
| arc_access: "arc_reachable n r \<Longrightarrow> f < n \<Longrightarrow>
    (\<forall>f' e. arc_tracked r f' = Some (p, e) \<longrightarrow> f' = f) \<Longrightarrow> (\<forall>p' e. arc_tracked r f = Some (p', e) \<longrightarrow> p' = p) \<Longrightarrow>
    record_access f p r = Inr r' \<Longrightarrow> arc_reachable n r'"
| arc_set: "arc_reachable n r \<Longrightarrow> set_evictable f b r = Inr r' \<Longrightarrow> arc_reachable n r'"
| arc_drop: "arc_reachable n r \<Longrightarrow> arc_remove f r = Inr r' \<Longrightarrow> arc_reachable n r'"
| arc_victim: "arc_reachable n r \<Longrightarrow> arc_evict r = Inr (v, r') \<Longrightarrow> arc_reachable n r'"

lemma arc_reachable_inv: "arc_reachable n r \<Longrightarrow> arc_inv r \<and> replacer_size r = n"
proof (induction rule: arc_reachable.induct)
  case (arc_access r f p r')
  show ?case
  proof (cases "arc_tracked r f")
    case None
    then have "\<forall>f' e. arc_tracked r f' \<noteq> Some (p, e)" using arc_access.hyps(3) by (metis option.distinct(1))
    then show ?thesis using arc_policy.record_new [of r f p] None arc_access by auto
  next
    case (Some pe)
    then obtain e where "arc_tracked r f = Some (p, e)" using arc_access.hyps(4) by (cases pe) auto
    with arc_policy.record_hit [of r f p e] arc_access.IH obtain r'' where "record_access f p r = Inr r''" "arc_inv r''"
      "replacer_size r'' = n" by auto
    then show ?thesis using arc_access.hyps(5) by simp
  qed
next
  case (arc_set r f b r')
  then obtain p e where "arc_tracked r f = Some (p, e)" using arc_policy.set_ev_unknown [of r f b] by (cases "arc_tracked r f") auto
  with arc_policy.set_ev_tracked [of r f p e b] arc_set show ?case by auto
next
  case (arc_drop r f r')
  show ?case
  proof (cases "\<exists>p. arc_tracked r f = Some (p, True)")
    case True
    then obtain p where "arc_tracked r f = Some (p, True)" by blast
    with arc_policy.remove_evictable [of r f p] arc_drop show ?thesis by auto
  next
    case False
    then show ?thesis using arc_drop by (auto simp: arc_remove_def arc_tracked_simps split: option.splits if_splits)
  qed
next
  case (arc_victim r v r')
  then show ?case using arc_policy.evict_outcome [of r] by auto
qed (simp add: arc_inv_init)

section \<open>Properties\<close>

text \<open>
  (C25) In every state the policy reaches, the four lists partition the tracked frames and the remembered
  pages, a page is never both resident and a ghost, the reported size counts the evictable frames, and the
  history is bounded: the recent lists hold at most \<open>n\<close> entries and all lists together at most \<open>2 n\<close>.
\<close>

theorem arc_lists_bounded:
  assumes "arc_reachable n r"
  shows "distinct (mru r @ mfu r) \<and> (\<forall>f. f \<in> set (mru r @ mfu r) \<longleftrightarrow> alive_map r f \<noteq> None) \<and>
    distinct (mru_ghost r @ mfu_ghost r) \<and> (\<forall>f s. alive_map r f = Some s \<longrightarrow> fs_page s \<notin> set (mru_ghost r @ mfu_ghost r)) \<and>
    arc_size r = card {f. \<exists>s. alive_map r f = Some s \<and> fs_evictable s} \<and>
    length (mru r) + length (mru_ghost r) \<le> n \<and> length (mru r @ mfu r) + length (mru_ghost r @ mfu_ghost r) \<le> 2 * n"
proof -
  have i: "alive_ok r" "ghost_ok r" "pages_ok r" "curr_size r = card (evictable_frames r)" "size_ok r" "replacer_size r = n"
    using arc_reachable_inv [OF assms] by (auto simp: arc_inv_def)
  have "f \<in> set (mru r @ mfu r) \<longleftrightarrow> alive_map r f \<noteq> None" for f
    using i(1) alive_okD [OF i(1), of f] by (cases "alive_map r f") (auto simp: alive_ok_def)
  moreover have "fs_page s \<notin> set (mru_ghost r @ mfu_ghost r)" if "alive_map r f = Some s" for f s
    using i(2,3) that by (auto simp: ghost_ok_def pages_ok_def)
  ultimately show ?thesis using i by (simp add: alive_ok_def ghost_ok_def size_ok_def arc_size_def evictable_frames_def)
qed

theorem arc_lists_bounded_witness:
  "\<exists>r. record_access 0 7 (arc_replacer 1) = Inr r \<and> length (mru r) + length (mru_ghost r) \<le> 1 \<and> mru r = [0]"
proof -
  obtain r where r: "record_access 0 7 (arc_replacer 1) = Inr r" "mru r = [0]"
    by (simp add: record_access_def arc_replacer_def bound_ghosts_def)
  have "arc_reachable 1 r" by (rule arc_access [OF arc_start _ _ _ r(1)]) (simp_all add: arc_inv_init)
  from arc_lists_bounded [OF this] show ?thesis using r by auto
qed



end
