(* ===== verification/DiskManager.thy ===== *)
theory DiskManager
  imports TablePage
begin

text \<open>
  Block devices below the buffer pool: the abstract class \<^verbatim>\<open>storage/disk/disk_manager.h\<close> as a record of
  operations, its in-memory implementation (\<^verbatim>\<open>memory_disk_manager.h\<close>) and the single-file one
  (\<^verbatim>\<open>single_file_disk_manager.{h,cpp}\<close>), and the contract both meet.

  A read takes the bytes that are in the destination buffer and returns those that are there afterwards.
  The outcome of a stream operation that the operating system fails is part of the state of the single-file
  manager: each entry of \<open>io_faults\<close> stands for one stream operation, \<open>None\<close> for success and \<open>Some bytes\<close> for a
  stream that went bad and left these bytes at the destination; the empty list means no further failures.
\<close>

type_synonym page_bytes = "byte list"

definition zero_page :: page_bytes where
  "zero_page = replicate PAGE_SIZE 0"

record 'd disk_manager =
  dm_write :: "int \<Rightarrow> page_bytes \<Rightarrow> 'd \<Rightarrow> bool \<times> 'd"
  dm_read :: "int \<Rightarrow> page_bytes \<Rightarrow> 'd \<Rightarrow> (bool \<times> page_bytes) \<times> 'd"
  dm_delete :: "int \<Rightarrow> 'd \<Rightarrow> 'd"

section \<open>In memory\<close>

record memory_disk =
  md_capacity :: nat
  md_memory :: "byte list"

definition memory_disk_new :: "nat \<Rightarrow> memory_disk" where
  "memory_disk_new capacity = \<lparr>md_capacity = capacity, md_memory = replicate (capacity * PAGE_SIZE) 0\<rparr>"

definition memory_write :: "int \<Rightarrow> page_bytes \<Rightarrow> memory_disk \<Rightarrow> bool \<times> memory_disk" where
  "memory_write page_id page_data d =
     (if page_id < 0 \<or> nat page_id \<ge> md_capacity d then (False, d)
      else (True, d\<lparr>md_memory := buf_write (nat page_id * PAGE_SIZE) page_data (md_memory d)\<rparr>))"

definition memory_read :: "int \<Rightarrow> page_bytes \<Rightarrow> memory_disk \<Rightarrow> (bool \<times> page_bytes) \<times> memory_disk" where
  "memory_read page_id page_data d =
     (if page_id < 0 \<or> nat page_id \<ge> md_capacity d then ((False, zero_page), d)
      else ((True, buf_read (nat page_id * PAGE_SIZE) PAGE_SIZE (md_memory d)), d))"

definition memory_delete :: "int \<Rightarrow> memory_disk \<Rightarrow> memory_disk" where
  "memory_delete page_id d = d"

definition memory_manager :: "memory_disk disk_manager" where
  "memory_manager = \<lparr>dm_write = memory_write, dm_read = memory_read, dm_delete = memory_delete\<rparr>"

section \<open>In one file\<close>

record single_file =
  db_file :: "byte list"
  page_capacity :: nat
  num_writes :: nat
  num_deletes :: nat
  io_faults :: "page_bytes option list"

definition DEFAULT_DB_IO_SIZE :: nat where "DEFAULT_DB_IO_SIZE = 16"

definition resize_file :: "nat \<Rightarrow> byte list \<Rightarrow> byte list" where
  "resize_file n bs = take n bs @ replicate (n - length bs) 0"

definition single_file_open :: "byte list \<Rightarrow> page_bytes option list \<Rightarrow> single_file" where
  "single_file_open bs faults =
     (let existing_pages = length bs div PAGE_SIZE;
          capacity = max DEFAULT_DB_IO_SIZE existing_pages
      in \<lparr>db_file = (if length bs < capacity * PAGE_SIZE then resize_file (capacity * PAGE_SIZE) bs else bs),
          page_capacity = capacity, num_writes = 0, num_deletes = 0, io_faults = faults\<rparr>)"

text \<open>The doubling loop of \<^verbatim>\<open>EnsureCapacity\<close>; the capacity is at least \<open>DEFAULT_DB_IO_SIZE\<close>.\<close>

function grow_capacity :: "nat \<Rightarrow> nat \<Rightarrow> nat" where
  "grow_capacity capacity needed = (if 0 < capacity \<and> capacity < needed then grow_capacity (capacity * 2) needed else capacity)"
  by auto
termination
  by (relation "measure (\<lambda>(c, n). n - c)") auto

declare grow_capacity.simps [simp del]

definition ensure_capacity :: "int \<Rightarrow> single_file \<Rightarrow> single_file" where
  "ensure_capacity page_id d =
     (let needed = nat page_id + 1
      in if needed \<le> page_capacity d then d
         else let capacity = grow_capacity (page_capacity d) needed
              in d\<lparr>page_capacity := capacity, db_file := resize_file (capacity * PAGE_SIZE) (db_file d)\<rparr>)"

definition next_fault :: "single_file \<Rightarrow> page_bytes option \<times> single_file" where
  "next_fault d = (case io_faults d of [] \<Rightarrow> (None, d) | x # xs \<Rightarrow> (x, d\<lparr>io_faults := xs\<rparr>))"

definition file_write :: "int \<Rightarrow> page_bytes \<Rightarrow> single_file \<Rightarrow> bool \<times> single_file" where
  "file_write page_id page_data d =
     (if page_id < 0 then (False, d)
      else let d1 = ensure_capacity page_id d; offset = nat page_id * PAGE_SIZE
           in case next_fault d1 of
                (None, d2) \<Rightarrow> (True, d2\<lparr>db_file := buf_write offset page_data (db_file d2), num_writes := num_writes d2 + 1\<rparr>)
              | (Some bytes, d2) \<Rightarrow> (False, d2\<lparr>db_file := buf_write offset bytes (db_file d2)\<rparr>))"

definition file_read :: "int \<Rightarrow> page_bytes \<Rightarrow> single_file \<Rightarrow> (bool \<times> page_bytes) \<times> single_file" where
  "file_read page_id page_data d =
     (if page_id < 0 then ((False, zero_page), d)
      else let offset = nat page_id * PAGE_SIZE
           in if offset + PAGE_SIZE > length (db_file d) then ((True, zero_page), d)
              else case next_fault d of
                     (None, d1) \<Rightarrow> ((True, buf_read offset PAGE_SIZE (db_file d)), d1)
                   | (Some bytes, d1) \<Rightarrow> ((False, bytes), d1))"

definition file_delete :: "int \<Rightarrow> single_file \<Rightarrow> single_file" where
  "file_delete page_id d =
     (let d0 = d\<lparr>num_deletes := num_deletes d + 1\<rparr>; offset = nat page_id * PAGE_SIZE
      in if page_id < 0 then d0
         else if offset + PAGE_SIZE > length (db_file d0) then d0
         else case next_fault d0 of
                (None, d1) \<Rightarrow> d1\<lparr>db_file := buf_write offset zero_page (db_file d1)\<rparr>
              | (Some bytes, d1) \<Rightarrow> d1\<lparr>db_file := buf_write offset bytes (db_file d1)\<rparr>)"

definition file_manager :: "single_file disk_manager" where
  "file_manager = \<lparr>dm_write = file_write, dm_read = file_read, dm_delete = file_delete\<rparr>"

section \<open>The contract of a block device\<close>

text \<open>
  A successful write stores the page, a failed one damages at most the page it was writing; a read changes
  nothing and, when it succeeds, yields the stored page; deleting a page leaves the others alone.
\<close>

locale block_device =
  fixes dm :: "'d disk_manager" and dinv :: "'d \<Rightarrow> bool" and stored :: "'d \<Rightarrow> int \<Rightarrow> page_bytes"
  assumes write_ok: "dinv d \<Longrightarrow> length bs = PAGE_SIZE \<Longrightarrow> dm_write dm p bs d = (True, d') \<Longrightarrow> dinv d' \<and> stored d' = (stored d)(p := bs)"
    and write_failed: "dinv d \<Longrightarrow> length bs = PAGE_SIZE \<Longrightarrow> dm_write dm p bs d = (False, d') \<Longrightarrow> dinv d' \<and> (\<forall>q. q \<noteq> p \<longrightarrow> stored d' q = stored d q)"
    and read_keeps: "dinv d \<Longrightarrow> length bs = PAGE_SIZE \<Longrightarrow> dm_read dm p bs d = ((ok, bs'), d') \<Longrightarrow>
      dinv d' \<and> stored d' = stored d \<and> length bs' = PAGE_SIZE"
    and read_ok: "dinv d \<Longrightarrow> length bs = PAGE_SIZE \<Longrightarrow> dm_read dm p bs d = ((True, bs'), d') \<Longrightarrow> bs' = stored d p"
    and delete_others: "dinv d \<Longrightarrow> dinv (dm_delete dm p d) \<and> (\<forall>q. q \<noteq> p \<longrightarrow> stored (dm_delete dm p d) q = stored d q)"
begin

lemma write_others:
  "dinv d \<Longrightarrow> length bs = PAGE_SIZE \<Longrightarrow> dm_write dm p bs d = (ok, d') \<Longrightarrow> dinv d' \<and> (\<forall>q. q \<noteq> p \<longrightarrow> stored d' q = stored d q)"
  using write_ok [of d bs p d'] write_failed [of d bs p d'] by (cases ok) auto

lemma write_read:
  assumes "dinv d" "length bs = PAGE_SIZE" "dm_write dm p bs d = (True, d1)" "length buf = PAGE_SIZE" "dm_read dm q buf d1 = ((True, bs'), d2)"
  shows "bs' = (if q = p then bs else stored d q)"
  using write_ok [OF assms(1,2,3)] read_ok [OF _ assms(4,5)] by simp

end

section \<open>Positional storage\<close>

text \<open>Both managers keep page \<open>n\<close> at byte \<open>n * PAGE_SIZE\<close>; a page the storage does not reach reads as zeros.\<close>

definition page_at :: "byte list \<Rightarrow> int \<Rightarrow> page_bytes" where
  "page_at bs p = (if 0 \<le> p \<and> nat p * PAGE_SIZE + PAGE_SIZE \<le> length bs then buf_read (nat p * PAGE_SIZE) PAGE_SIZE bs else zero_page)"

lemma page_at_write:
  assumes "0 \<le> p" "nat p * PAGE_SIZE + PAGE_SIZE \<le> length bs" "length page = PAGE_SIZE"
  shows "page_at (buf_write (nat p * PAGE_SIZE) page bs) q = (if q = p then page else page_at bs q)"
proof (cases "0 \<le> q \<and> nat q * PAGE_SIZE + PAGE_SIZE \<le> length bs")
  case True
  consider "q = p" | "nat q < nat p" | "nat p < nat q" using True assms(1) by linarith
  then show ?thesis
  proof cases
    case 1
    then show ?thesis using True assms buf_read_write_same [of "nat p * PAGE_SIZE" bs page] by (simp add: page_at_def)
  next
    case 2
    then have "nat q * PAGE_SIZE + PAGE_SIZE \<le> nat p * PAGE_SIZE" by (metis Suc_leI add.commute mult_Suc mult_le_mono1)
    then show ?thesis using 2 True assms by (auto simp: page_at_def buf_read_write_below)
  next
    case 3
    then have "nat p * PAGE_SIZE + PAGE_SIZE \<le> nat q * PAGE_SIZE" by (metis Suc_leI add.commute mult_Suc mult_le_mono1)
    then show ?thesis using 3 True assms by (auto simp: page_at_def buf_read_write_above)
  qed
next
  case False
  then show ?thesis using assms by (auto simp: page_at_def)
qed

lemma page_in_range: "nat p < c \<Longrightarrow> nat p * PAGE_SIZE + PAGE_SIZE \<le> c * PAGE_SIZE"
  by (metis Suc_le_eq add.commute mult_Suc mult_le_mono1)

lemma page_at_resize:
  assumes "length bs = c * PAGE_SIZE" "c \<le> c'"
  shows "page_at (resize_file (c' * PAGE_SIZE) bs) q = page_at bs q"
proof -
  have len: "length (resize_file (c' * PAGE_SIZE) bs) = c' * PAGE_SIZE" using assms by (simp add: resize_file_def)
  have pages: "nat q * PAGE_SIZE + PAGE_SIZE \<le> k * PAGE_SIZE \<longleftrightarrow> nat q < k" for k
    by (metis Suc_le_eq add.commute mult_Suc mult_le_cancel2 page_consts(1) zero_less_numeral)
  have grow: "resize_file (c' * PAGE_SIZE) bs = bs @ replicate ((c' - c) * PAGE_SIZE) 0"
    using assms by (simp add: resize_file_def diff_mult_distrib)
  consider "nat q < c" | "c \<le> nat q" "nat q < c'" | "c' \<le> nat q" by linarith
  then show ?thesis
  proof cases
    case 1
    then have "PAGE_SIZE + nat q * PAGE_SIZE - c * PAGE_SIZE = 0" using page_in_range [of q c] by simp
    then show ?thesis using 1 assms len by (simp add: page_at_def grow buf_read_def pages)
  next
    case 2
    have "length bs \<le> nat q * PAGE_SIZE" using 2 assms by simp
    moreover have "PAGE_SIZE \<le> (c' - c) * PAGE_SIZE - (nat q * PAGE_SIZE - c * PAGE_SIZE)"
    proof -
      have "(c' - c) * PAGE_SIZE - (nat q * PAGE_SIZE - c * PAGE_SIZE) = (c' - nat q) * PAGE_SIZE"
        using 2 by (simp flip: diff_mult_distrib)
      moreover have "1 * PAGE_SIZE \<le> (c' - nat q) * PAGE_SIZE" using 2 by (intro mult_le_mono1) simp
      ultimately show ?thesis by simp
    qed
    ultimately have "buf_read (nat q * PAGE_SIZE) PAGE_SIZE (bs @ replicate ((c' - c) * PAGE_SIZE) 0) = zero_page"
      using assms by (simp add: buf_read_def zero_page_def min_def)
    then show ?thesis using 2 assms by (simp add: page_at_def grow pages)
  next
    case 3
    then show ?thesis using assms len by (simp add: page_at_def pages)
  qed
qed

lemma length_page_at: "length (page_at bs q) = PAGE_SIZE"
  by (simp add: page_at_def zero_page_def)

section \<open>Both managers meet the contract\<close>

definition memory_inv :: "memory_disk \<Rightarrow> bool" where
  "memory_inv d \<longleftrightarrow> length (md_memory d) = md_capacity d * PAGE_SIZE"

interpretation memory_device: block_device memory_manager memory_inv "\<lambda>d. page_at (md_memory d)"
proof unfold_locales
  fix d d' :: memory_disk and bs bs' :: page_bytes and p :: int and ok :: bool
  assume i: "memory_inv d" and l: "length bs = PAGE_SIZE"
  show "memory_inv d' \<and> page_at (md_memory d') = (page_at (md_memory d))(p := bs)" if "dm_write memory_manager p bs d = (True, d')"
    using that i l page_in_range [of p "md_capacity d"] page_at_write [of p "md_memory d" bs]
    by (auto simp: memory_manager_def memory_write_def memory_inv_def fun_eq_iff split: if_splits)
  show "memory_inv d' \<and> (\<forall>q. q \<noteq> p \<longrightarrow> page_at (md_memory d') q = page_at (md_memory d) q)" if "dm_write memory_manager p bs d = (False, d')"
    using that i by (auto simp: memory_manager_def memory_write_def split: if_splits)
  show "memory_inv d' \<and> page_at (md_memory d') = page_at (md_memory d) \<and> length bs' = PAGE_SIZE"
    if "dm_read memory_manager p bs d = ((ok, bs'), d')"
    using that i page_in_range [of p "md_capacity d"] by (auto simp: memory_manager_def memory_read_def memory_inv_def zero_page_def split: if_splits)
  show "bs' = page_at (md_memory d) p" if "dm_read memory_manager p bs d = ((True, bs'), d')"
    using that i page_in_range [of p "md_capacity d"] by (auto simp: memory_manager_def memory_read_def memory_inv_def page_at_def split: if_splits)
next
  fix d :: memory_disk and p :: int
  assume i: "memory_inv d"
  show "memory_inv (dm_delete memory_manager p d) \<and> (\<forall>q. q \<noteq> p \<longrightarrow> page_at (md_memory (dm_delete memory_manager p d)) q = page_at (md_memory d) q)"
    using i by (simp add: memory_manager_def memory_delete_def)
qed

definition file_inv :: "single_file \<Rightarrow> bool" where
  "file_inv d \<longleftrightarrow> length (db_file d) = page_capacity d * PAGE_SIZE \<and> 0 < page_capacity d \<and>
     (\<forall>bytes. Some bytes \<in> set (io_faults d) \<longrightarrow> length bytes = PAGE_SIZE)"

lemma grow_capacity_ge: "0 < c \<Longrightarrow> c \<le> grow_capacity c n \<and> n \<le> grow_capacity c n"
proof (induction c n rule: grow_capacity.induct)
  case (1 c n)
  then show ?case by (subst (1 2) grow_capacity.simps) auto
qed

lemma ensure_capacity_correct:
  assumes "file_inv d" "0 \<le> p"
  shows "file_inv (ensure_capacity p d) \<and> nat p < page_capacity (ensure_capacity p d) \<and>
    page_at (db_file (ensure_capacity p d)) = page_at (db_file d)"
proof (cases "nat p + 1 \<le> page_capacity d")
  case False
  let ?c = "grow_capacity (page_capacity d) (nat p + 1)"
  have "page_capacity d \<le> ?c" "nat p + 1 \<le> ?c" using assms grow_capacity_ge by (simp_all add: file_inv_def)
  moreover from this have "page_at (resize_file (?c * PAGE_SIZE) (db_file d)) = page_at (db_file d)"
    using assms page_at_resize [of "db_file d" "page_capacity d" ?c] by (simp add: file_inv_def fun_eq_iff)
  ultimately show ?thesis using False assms by (simp add: ensure_capacity_def Let_def file_inv_def resize_file_def)
qed (use assms in \<open>simp add: ensure_capacity_def\<close>)

lemma next_fault_correct:
  "file_inv d \<Longrightarrow> next_fault d = (x, d') \<Longrightarrow> file_inv d' \<and> db_file d' = db_file d \<and> page_capacity d' = page_capacity d \<and>
     (\<forall>bytes. x = Some bytes \<longrightarrow> length bytes = PAGE_SIZE)"
  by (cases "io_faults d") (auto simp: next_fault_def file_inv_def)

lemma file_write_page:
  assumes "file_inv d" "0 \<le> p" "nat p < page_capacity d" "length bs = PAGE_SIZE"
  shows "file_inv (d\<lparr>db_file := buf_write (nat p * PAGE_SIZE) bs (db_file d)\<rparr>) \<and>
    page_at (buf_write (nat p * PAGE_SIZE) bs (db_file d)) = (page_at (db_file d))(p := bs)"
  using assms page_in_range [OF assms(3)] page_at_write [of p "db_file d" bs] by (auto simp: file_inv_def fun_eq_iff)

interpretation file_device: block_device file_manager file_inv "\<lambda>d. page_at (db_file d)"
proof unfold_locales
  fix d d' :: single_file and bs bs' :: page_bytes and p :: int and ok :: bool
  assume i: "file_inv d" and l: "length bs = PAGE_SIZE"
  have w: "file_inv d' \<and> page_at (db_file d') = (page_at (db_file d))(p := if ok then bs else page_at (db_file d') p)"
    if "dm_write file_manager p bs d = (ok, d')" for ok
  proof (cases "p < 0")
    case True
    then show ?thesis using that i by (auto simp: file_manager_def file_write_def)
  next
    case False
    then have e: "file_inv (ensure_capacity p d)" "nat p < page_capacity (ensure_capacity p d)"
      "page_at (db_file (ensure_capacity p d)) = page_at (db_file d)" using ensure_capacity_correct [OF i, of p] by auto
    obtain x d2 where nf: "next_fault (ensure_capacity p d) = (x, d2)" by (cases "next_fault (ensure_capacity p d)")
    note n = next_fault_correct [OF e(1) nf]
    let ?page = "case x of None \<Rightarrow> bs | Some bytes \<Rightarrow> bytes"
    have "length ?page = PAGE_SIZE" using l n by (auto split: option.splits)
    from file_write_page [OF n [THEN conjunct1] _ _ this, of p] False e n
    have "file_inv (d2\<lparr>db_file := buf_write (nat p * PAGE_SIZE) ?page (db_file d2)\<rparr>)"
      "page_at (buf_write (nat p * PAGE_SIZE) ?page (db_file d2)) = (page_at (db_file d))(p := ?page)" by auto
    then show ?thesis using that nf False
      by (auto simp: file_manager_def file_write_def Let_def file_inv_def split: option.splits)
  qed
  show "file_inv d' \<and> page_at (db_file d') = (page_at (db_file d))(p := bs)" if "dm_write file_manager p bs d = (True, d')"
    using w [OF that] by simp
  show "file_inv d' \<and> (\<forall>q. q \<noteq> p \<longrightarrow> page_at (db_file d') q = page_at (db_file d) q)" if "dm_write file_manager p bs d = (False, d')"
    using w [OF that] by (auto simp: fun_eq_iff)
  have r: "file_inv d' \<and> db_file d' = db_file d \<and> length bs' = PAGE_SIZE \<and> (ok \<longrightarrow> bs' = page_at (db_file d) p)"
    if "dm_read file_manager p bs d = ((ok, bs'), d')" for ok
  proof -
    obtain x d2 where nf: "next_fault d = (x, d2)" by (cases "next_fault d")
    show ?thesis using that nf next_fault_correct [OF i nf] i
      by (auto simp: file_manager_def file_read_def Let_def page_at_def zero_page_def split: if_splits option.splits)
  qed
  show "file_inv d' \<and> page_at (db_file d') = page_at (db_file d) \<and> length bs' = PAGE_SIZE"
    if "dm_read file_manager p bs d = ((ok, bs'), d')" using r [OF that] by simp
  show "bs' = page_at (db_file d) p" if "dm_read file_manager p bs d = ((True, bs'), d')" using r [OF that] by simp
next
  fix d :: single_file and p :: int
  assume i: "file_inv d"
  show "file_inv (dm_delete file_manager p d) \<and> (\<forall>q. q \<noteq> p \<longrightarrow> page_at (db_file (dm_delete file_manager p d)) q = page_at (db_file d) q)"
  proof (cases "0 \<le> p \<and> nat p * PAGE_SIZE + PAGE_SIZE \<le> length (db_file d)")
    case True
    let ?d = "d\<lparr>num_deletes := num_deletes d + 1\<rparr>"
    have i': "file_inv ?d" using i by (simp add: file_inv_def)
    obtain x d2 where nf: "next_fault ?d = (x, d2)" by (cases "next_fault ?d")
    note n = next_fault_correct [OF i' nf]
    let ?page = "case x of None \<Rightarrow> zero_page | Some bytes \<Rightarrow> bytes"
    have "length ?page = PAGE_SIZE" using n by (auto simp: zero_page_def split: option.splits)
    moreover have "nat p < page_capacity d2"
    proof (rule ccontr)
      assume "\<not> nat p < page_capacity d2"
      then have "page_capacity d * PAGE_SIZE \<le> nat p * PAGE_SIZE" using n by simp
      then show False using True i by (simp add: file_inv_def page_consts)
    qed
    ultimately have "file_inv (d2\<lparr>db_file := buf_write (nat p * PAGE_SIZE) ?page (db_file d2)\<rparr>)"
      "page_at (buf_write (nat p * PAGE_SIZE) ?page (db_file d2)) = (page_at (db_file d))(p := ?page)"
      using file_write_page [OF n [THEN conjunct1], of p ?page] True n by auto
    then show ?thesis using True nf by (auto simp: file_manager_def file_delete_def Let_def split: option.splits)
  next
    case False
    then show ?thesis using i by (auto simp: file_manager_def file_delete_def Let_def file_inv_def)
  qed
qed

end
