(* ===== verification/BufferPool.thy ===== *)
theory BufferPool
  imports ArcReplacer DiskManager Numeric
begin

text \<open>
  The buffer pool: \<^verbatim>\<open>storage/buffer/buffer_pool_manager.{h,cpp}\<close> and the page guards
  \<^verbatim>\<open>storage/page/page_guard.cpp\<close>.

  A thread that fetches a page or evicts a victim gives up the pool latch around its disk access, so each of
  these operations is a sequence of critical sections that other threads may interleave with. There is one
  definition per critical section; an operation returns its outcome together with the pool it leaves, also
  when it raises. \<open>checked_page\<close> is the whole of \<^verbatim>\<open>CheckedPage\<close> as one thread executes it alone.
\<close>

section \<open>State\<close>

record frame_header =
  pin_count :: nat
  is_dirty :: bool
  frame_data :: "page_bytes option"
  frame_page :: "int option"

record 'd pool =
  num_frames :: nat
  next_page_id :: int
  free_pages :: "int list"
  frames :: "frame_header list"
  page_table :: "int \<Rightarrow> nat option"
  free_frames :: "nat list"
  policy :: arc
  loading :: "int set"
  flushing :: "int set"
  disk :: 'd

definition frame_new :: frame_header where
  "frame_new = \<lparr>pin_count = 0, is_dirty = False, frame_data = None, frame_page = None\<rparr>"

definition frame_reset :: "frame_header \<Rightarrow> frame_header" where
  "frame_reset fr = fr\<lparr>pin_count := 0, is_dirty := False, frame_page := None\<rparr>"

definition ensure_data :: "frame_header \<Rightarrow> frame_header" where
  "ensure_data fr = (if frame_data fr = None then fr\<lparr>frame_data := Some zero_page\<rparr> else fr)"

definition update_frame :: "nat \<Rightarrow> (frame_header \<Rightarrow> frame_header) \<Rightarrow> 'd pool \<Rightarrow> 'd pool" where
  "update_frame f g st = st\<lparr>frames := (frames st)[f := g (frames st ! f)]\<rparr>"

definition pool_new :: "nat \<Rightarrow> 'd \<Rightarrow> int \<Rightarrow> 'd pool" where
  "pool_new n d next_id =
     \<lparr>num_frames = n, next_page_id = next_id, free_pages = [], frames = replicate n frame_new, page_table = Map.empty,
      free_frames = [0..<n], policy = arc_replacer n, loading = {}, flushing = {}, disk = d\<rparr>"

section \<open>Page identifiers\<close>

definition new_page :: "'d pool \<Rightarrow> int \<times> 'd pool" where
  "new_page st =
     (if free_pages st \<noteq> [] then (last (free_pages st), st\<lparr>free_pages := butlast (free_pages st)\<rparr>)
      else (next_page_id st, st\<lparr>next_page_id := static_cast I32 (next_page_id st + 1)\<rparr>))"

definition allocate_raw_page_id :: "'d pool \<Rightarrow> int \<times> 'd pool" where
  "allocate_raw_page_id st = (next_page_id st, st\<lparr>next_page_id := static_cast I32 (next_page_id st + 1)\<rparr>)"

definition set_free_pages :: "int list \<Rightarrow> 'd pool \<Rightarrow> 'd pool" where
  "set_free_pages ps st = st\<lparr>free_pages := ps\<rparr>"

section \<open>Replacer calls\<close>

text \<open>A call into the replacer; when it raises, the pool keeps what it had already changed.\<close>

definition with_policy :: "(arc \<Rightarrow> arc result) \<Rightarrow> 'a \<Rightarrow> 'd pool \<Rightarrow> 'a result \<times> 'd pool" where
  "with_policy g x st =
     (case g (policy st) of
        Inl e \<Rightarrow> (Inl e, st)
      | Inr r \<Rightarrow> (Inr x, st\<lparr>policy := r\<rparr>))"

text \<open>The end of the critical section of \<^verbatim>\<open>CheckedPage\<close>: pin, record the access, forbid eviction.\<close>

definition pin_frame :: "nat \<Rightarrow> int \<Rightarrow> 'a \<Rightarrow> 'd pool \<Rightarrow> 'a result \<times> 'd pool" where
  "pin_frame f page_id x st =
     (let st1 = update_frame f (\<lambda>fr. fr\<lparr>pin_count := pin_count fr + 1\<rparr>) st
      in case with_policy (record_access f page_id) x st1 of
           (Inl e, st2) \<Rightarrow> (Inl e, st2)
         | (Inr _, st2) \<Rightarrow> with_policy (set_evictable f False) x st2)"

text \<open>
  \<^verbatim>\<open>Drop\<close> of a guard, and the undo of \<^verbatim>\<open>TryWritePage\<close>: the last unpin makes the frame evictable.
\<close>

definition unpin_frame :: "nat \<Rightarrow> 'd pool \<Rightarrow> unit result \<times> 'd pool" where
  "unpin_frame f st =
     (let pin = pin_count (frames st ! f);
          st1 = update_frame f (\<lambda>fr. fr\<lparr>pin_count := pin_count fr - 1\<rparr>) st
      in if \<not> pin > 0 then (Inl (AssertionFailed ''Pin underflow''), st1)
         else if pin = 1 then with_policy (set_evictable f True) () st1
         else (Inr (), st1))"

section \<open>Eviction\<close>

datatype victim = NoVictim | Recycled | WriteBack nat int

text \<open>\<^verbatim>\<open>EvictOneLocked\<close> up to the release of the latch.\<close>

definition evict_one_begin :: "'d pool \<Rightarrow> victim result \<times> 'd pool" where
  "evict_one_begin st =
     (case arc_evict (policy st) of
        Inl e \<Rightarrow> (Inl e, st)
      | Inr (None, r) \<Rightarrow> (Inr NoVictim, st\<lparr>policy := r\<rparr>)
      | Inr (Some f, r) \<Rightarrow>
          let st1 = st\<lparr>policy := r\<rparr>
          in if \<not> f < length (frames st1) then (Inl (AssertionFailed ''Frame out of index''), st1)
             else case frame_page (frames st1 ! f) of
                    None \<Rightarrow> (Inl (AssertionFailed ''page id is null of evicted frame''), st1)
                  | Some page_id \<Rightarrow>
                      if \<not> is_dirty (frames st1 ! f)
                      then (Inr Recycled,
                            (update_frame f frame_reset st1)\<lparr>page_table := (page_table st1)(page_id := None),
                               free_frames := free_frames st1 @ [f]\<rparr>)
                      else (Inr (WriteBack f page_id),
                            st1\<lparr>page_table := (page_table st1)(page_id := None), flushing := insert page_id (flushing st1)\<rparr>))"

text \<open>The write of the victim, outside the latch.\<close>

definition evict_one_write :: "'d disk_manager \<Rightarrow> nat \<Rightarrow> int \<Rightarrow> 'd pool \<Rightarrow> bool \<times> 'd pool" where
  "evict_one_write dm f page_id st =
     (case dm_write dm page_id (the (frame_data (frames st ! f))) (disk st) of (ok, d) \<Rightarrow> (ok, st\<lparr>disk := d\<rparr>))"

text \<open>The rest of \<^verbatim>\<open>EvictOneLocked\<close>, under the latch again.\<close>

definition evict_one_end :: "bool \<Rightarrow> nat \<Rightarrow> int \<Rightarrow> 'd pool \<Rightarrow> bool result \<times> 'd pool" where
  "evict_one_end ok f page_id st =
     (let st1 = st\<lparr>flushing := flushing st - {page_id}\<rparr>
      in if \<not> ok
         then let st2 = st1\<lparr>page_table := (page_table st1)(page_id \<mapsto> f)\<rparr>
              in case with_policy (record_access f page_id) False st2 of
                   (Inl e, st3) \<Rightarrow> (Inl e, st3)
                 | (Inr _, st3) \<Rightarrow> with_policy (set_evictable f True) False st3
         else (Inr True, (update_frame f frame_reset st1)\<lparr>free_frames := free_frames st1 @ [f]\<rparr>))"

section \<open>Fetching\<close>

datatype fetch = Wait | Hit nat | Reserved nat | NeedsEviction

text \<open>The critical section of \<^verbatim>\<open>CheckedPage\<close>.\<close>

definition checked_page_section :: "int \<Rightarrow> 'd pool \<Rightarrow> fetch result \<times> 'd pool" where
  "checked_page_section page_id st =
     (if page_id \<in> loading st \<or> page_id \<in> flushing st then (Inr Wait, st)
      else case page_table st page_id of
             Some f \<Rightarrow> pin_frame f page_id (Hit f) st
           | None \<Rightarrow>
               if free_frames st = [] then (Inr NeedsEviction, st)
               else let f = last (free_frames st);
                        st1 = (update_frame f (\<lambda>fr. (ensure_data fr)\<lparr>frame_page := Some page_id\<rparr>) st)
                          \<lparr>free_frames := butlast (free_frames st), page_table := (page_table st)(page_id \<mapsto> f),
                           loading := insert page_id (loading st)\<rparr>
                    in pin_frame f page_id (Reserved f) st1)"

text \<open>The read outside the latch; its success flag is not looked at by the caller.\<close>

definition load_read :: "'d disk_manager \<Rightarrow> nat \<Rightarrow> int \<Rightarrow> 'd pool \<Rightarrow> bool \<times> 'd pool" where
  "load_read dm f page_id st =
     (case dm_read dm page_id (the (frame_data (frames st ! f))) (disk st) of
        ((ok, bytes), d) \<Rightarrow> (ok, (update_frame f (\<lambda>fr. fr\<lparr>frame_data := Some bytes\<rparr>) st)\<lparr>disk := d\<rparr>))"

definition load_end :: "int \<Rightarrow> 'd pool \<Rightarrow> 'd pool" where
  "load_end page_id st = st\<lparr>loading := loading st - {page_id}\<rparr>"

text \<open>
  \<^verbatim>\<open>CheckedPage\<close> executed by one thread alone, its loop unrolled on demand: \<open>None\<close> is a thread that waits for
  ever, \<open>Inr None\<close> the null frame of an exhausted pool.
\<close>

partial_function (option) checked_page ::
  "'d disk_manager \<times> int \<times> 'd pool \<Rightarrow> (nat option result \<times> 'd pool) option" where
  "checked_page args =
     (case args of (dm, page_id, st) \<Rightarrow>
      (case checked_page_section page_id st of
         (Inl e, st1) \<Rightarrow> Some (Inl e, st1)
       | (Inr Wait, st1) \<Rightarrow> None
       | (Inr (Hit f), st1) \<Rightarrow> Some (Inr (Some f), st1)
       | (Inr (Reserved f), st1) \<Rightarrow> Some (Inr (Some f), load_end page_id (snd (load_read dm f page_id st1)))
       | (Inr NeedsEviction, st1) \<Rightarrow>
           (case evict_one_begin st1 of
              (Inl e, st2) \<Rightarrow> Some (Inl e, st2)
            | (Inr NoVictim, st2) \<Rightarrow> Some (Inr None, st2)
            | (Inr Recycled, st2) \<Rightarrow> checked_page (dm, page_id, st2)
            | (Inr (WriteBack f q), st2) \<Rightarrow>
                (case evict_one_write dm f q st2 of (ok, st3) \<Rightarrow>
                 (case evict_one_end ok f q st3 of
                    (Inl e, st4) \<Rightarrow> Some (Inl e, st4)
                  | (Inr freed, st4) \<Rightarrow> if freed then checked_page (dm, page_id, st4) else Some (Inr None, st4))))))"

section \<open>Guards\<close>

text \<open>\<^verbatim>\<open>GetDataMut\<close> followed by the caller's stores; \<open>GetData\<close> and \<open>IsDirty\<close> only read.\<close>

definition guard_write :: "nat \<Rightarrow> page_bytes \<Rightarrow> 'd pool \<Rightarrow> 'd pool" where
  "guard_write f bytes st = update_frame f (\<lambda>fr. fr\<lparr>is_dirty := True, frame_data := Some bytes\<rparr>) st"

definition guard_read :: "nat \<Rightarrow> 'd pool \<Rightarrow> page_bytes" where
  "guard_read f st = the (frame_data (frames st ! f))"

text \<open>
  Writing a frame back under its exclusive latch, as in \<^verbatim>\<open>FlushPage\<close> and in \<^verbatim>\<open>WritePageGuard::Flush\<close>: the
  dirty flag is cleared whatever the disk manager reported.
\<close>

definition flush_frame :: "'d disk_manager \<Rightarrow> nat \<Rightarrow> 'd pool \<Rightarrow> bool \<times> 'd pool" where
  "flush_frame dm f st =
     (if is_dirty (frames st ! f)
      then case dm_write dm (the (frame_page (frames st ! f))) (the (frame_data (frames st ! f))) (disk st) of
             (ok, d) \<Rightarrow> (ok, (update_frame f (\<lambda>fr. fr\<lparr>is_dirty := False\<rparr>) st)\<lparr>disk := d\<rparr>)
      else (True, st))"

section \<open>Flushing and deleting\<close>

datatype flush = FlushWait | NotResident | FlushPinned nat

definition flush_page_begin :: "int \<Rightarrow> 'd pool \<Rightarrow> flush result \<times> 'd pool" where
  "flush_page_begin page_id st =
     (if page_id \<in> loading st then (Inr FlushWait, st)
      else case page_table st page_id of
             None \<Rightarrow> (Inr NotResident, st)
           | Some f \<Rightarrow>
               if \<not> f < length (frames st) then (Inl (AssertionFailed ''Frame out of index''), st)
               else with_policy (set_evictable f False) (FlushPinned f)
                      (update_frame f (\<lambda>fr. fr\<lparr>pin_count := pin_count fr + 1\<rparr>) st))"

text \<open>The unpin at the end of \<^verbatim>\<open>FlushPage\<close>: the counter goes down outside the pool latch.\<close>

definition flush_page_unpin :: "nat \<Rightarrow> 'd pool \<Rightarrow> bool result \<times> 'd pool" where
  "flush_page_unpin f st =
     (let pin = pin_count (frames st ! f);
          st1 = update_frame f (\<lambda>fr. fr\<lparr>pin_count := pin_count fr - 1\<rparr>) st
      in if \<not> pin > 0 then (Inl (AssertionFailed ''Pin underflow''), st1) else (Inr (pin = 1), st1))"

definition flush_page_end :: "nat \<Rightarrow> 'd pool \<Rightarrow> unit result \<times> 'd pool" where
  "flush_page_end f st =
     (if pin_count (frames st ! f) = 0 then with_policy (set_evictable f True) () st else (Inr (), st))"

text \<open>\<^verbatim>\<open>DeletePage\<close>: detaching the frame under the latch, then the disk and the free list.\<close>

definition delete_page_begin :: "int \<Rightarrow> 'd pool \<Rightarrow> bool result \<times> 'd pool" where
  "delete_page_begin page_id st =
     (case page_table st page_id of
        None \<Rightarrow> (Inr True, st)
      | Some f \<Rightarrow>
          if \<not> f < length (frames st) then (Inl (AssertionFailed ''Frame out of index''), st)
          else if pin_count (frames st ! f) > 0 then (Inr False, st)
          else with_policy (arc_remove f) True
                 ((update_frame f frame_reset st)\<lparr>page_table := (page_table st)(page_id := None),
                    free_frames := free_frames st @ [f]\<rparr>))"

definition delete_page_end :: "'d disk_manager \<Rightarrow> int \<Rightarrow> 'd pool \<Rightarrow> 'd pool" where
  "delete_page_end dm page_id st = st\<lparr>disk := dm_delete dm page_id (disk st), free_pages := free_pages st @ [page_id]\<rparr>"

definition get_pin_count :: "int \<Rightarrow> 'd pool \<Rightarrow> nat option result" where
  "get_pin_count page_id st =
     (case page_table st page_id of
        None \<Rightarrow> Inr None
      | Some f \<Rightarrow> if f < length (frames st) then Inr (Some (pin_count (frames st ! f))) else Inl (AssertionFailed ''Frame out of index''))"

text \<open>\<^verbatim>\<open>FlushPage\<close> executed by one thread alone, and \<^verbatim>\<open>FlushAllPages\<close> over the resident pages.\<close>

definition flush_page :: "'d disk_manager \<Rightarrow> int \<Rightarrow> 'd pool \<Rightarrow> bool result \<times> 'd pool" where
  "flush_page dm page_id st =
     (case flush_page_begin page_id st of
        (Inl e, st1) \<Rightarrow> (Inl e, st1)
      | (Inr (FlushPinned f), st1) \<Rightarrow>
          (case flush_frame dm f st1 of (_, st2) \<Rightarrow>
           (case flush_page_unpin f st2 of
              (Inl e, st3) \<Rightarrow> (Inl e, st3)
            | (Inr True, st3) \<Rightarrow> (case flush_page_end f st3 of (Inl e, st4) \<Rightarrow> (Inl e, st4) | (Inr _, st4) \<Rightarrow> (Inr True, st4))
            | (Inr False, st3) \<Rightarrow> (Inr True, st3)))
      | (Inr _, st1) \<Rightarrow> (Inr False, st1))"

fun flush_pages :: "'d disk_manager \<Rightarrow> int list \<Rightarrow> 'd pool \<Rightarrow> unit result \<times> 'd pool" where
  "flush_pages dm [] st = (Inr (), st)"
| "flush_pages dm (p # ps) st =
     (case flush_page dm p st of (Inl e, st1) \<Rightarrow> (Inl e, st1) | (Inr _, st1) \<Rightarrow> flush_pages dm ps st1)"

definition delete_page :: "'d disk_manager \<Rightarrow> int \<Rightarrow> 'd pool \<Rightarrow> bool result \<times> 'd pool" where
  "delete_page dm page_id st =
     (case delete_page_begin page_id st of
        (Inr True, st1) \<Rightarrow> (Inr True, delete_page_end dm page_id st1)
      | (x, st1) \<Rightarrow> (x, st1))"

end
