(* ===== verification/PoolSteps.thy ===== *)
theory PoolSteps
  imports BufferPool
begin

text \<open>
  The buffer pool under concurrency. The state of the system is the pool together with what the threads have
  in flight: victims being written back, pages being read in, pins (each with the frame, the page and how far
  its owner has got), flushes that still have to report their frame evictable, and deletions that have not
  reached the disk. A step is one critical section, one disk access or one latch operation of some thread.

  A step exists only where the code does not raise; reads and the writes of explicit flushes are taken to
  succeed (their result is ignored by the code), write-backs of victims may fail. A page whose deletion is
  under way is not fetched again before the deletion has finished.
\<close>

section \<open>The system\<close>

text \<open>A pin waits for the latch of its frame, holds it (\<open>True\<close>: exclusively), or belongs to \<^verbatim>\<open>FlushPage\<close>.\<close>

datatype pin = Want bool | Have bool | FlushWant | FlushDone

type_synonym pin_entry = "pin \<times> nat \<times> int"

record 'd sys =
  pool :: "'d pool"
  evicting :: "int \<Rightarrow> (nat \<times> bool option) option"
  loads :: "int \<Rightarrow> (bool \<times> nat \<times> bool) option"
  pins :: "pin_entry multiset"
  tails :: "nat multiset"
  deleting :: "int multiset"

definition sys_start :: "nat \<Rightarrow> 'd \<Rightarrow> int \<Rightarrow> 'd sys" where
  "sys_start n d next_id =
     \<lparr>pool = pool_new n d next_id, evicting = Map.empty, loads = Map.empty, pins = {#}, tails = {#}, deleting = {#}\<rparr>"

definition holders :: "nat \<Rightarrow> 'd sys \<Rightarrow> pin_entry multiset" where
  "holders f s = {#x \<in># pins s. \<exists>m p. x = (Have m, f, p)#}"

definition pins_on :: "nat \<Rightarrow> 'd sys \<Rightarrow> pin_entry multiset" where
  "pins_on f s = {#x \<in># pins s. fst (snd x) = f#}"

datatype event = Silent | Load int page_bytes | Store int page_bytes | Discard int

inductive pool_step :: "'d disk_manager \<Rightarrow> 'd sys \<Rightarrow> event \<Rightarrow> 'd sys \<Rightarrow> bool" for dm where
  step_hit: "checked_page_section p (pool s) = (Inr (Hit f), st) \<Longrightarrow>
    pool_step dm s Silent (s\<lparr>pool := st, pins := add_mset (Want m, f, p) (pins s)\<rparr>)"
| step_reserve: "checked_page_section p (pool s) = (Inr (Reserved f), st) \<Longrightarrow>
    pool_step dm s Silent (s\<lparr>pool := st, loads := (loads s)(p \<mapsto> (m, f, False))\<rparr>)"
| step_recycle: "checked_page_section p (pool s) = (Inr NeedsEviction, st1) \<Longrightarrow> evict_one_begin st1 = (Inr Recycled, st) \<Longrightarrow>
    pool_step dm s Silent (s\<lparr>pool := st\<rparr>)"
| step_detach: "checked_page_section p (pool s) = (Inr NeedsEviction, st1) \<Longrightarrow> evict_one_begin st1 = (Inr (WriteBack f q), st) \<Longrightarrow>
    pool_step dm s Silent (s\<lparr>pool := st, evicting := (evicting s)(q \<mapsto> (f, None))\<rparr>)"
| step_write_back: "evicting s q = Some (f, None) \<Longrightarrow> evict_one_write dm f q (pool s) = (ok, st) \<Longrightarrow>
    pool_step dm s Silent (s\<lparr>pool := st, evicting := (evicting s)(q \<mapsto> (f, Some ok))\<rparr>)"
| step_evict_end: "evicting s q = Some (f, Some ok) \<Longrightarrow> evict_one_end ok f q (pool s) = (Inr b, st) \<Longrightarrow>
    pool_step dm s Silent (s\<lparr>pool := st, evicting := (evicting s)(q := None)\<rparr>)"
| step_read: "loads s p = Some (m, f, False) \<Longrightarrow> load_read dm f p (pool s) = (True, st) \<Longrightarrow>
    pool_step dm s Silent (s\<lparr>pool := st, loads := (loads s)(p \<mapsto> (m, f, True))\<rparr>)"
| step_loaded: "loads s p = Some (m, f, True) \<Longrightarrow>
    pool_step dm s Silent (s\<lparr>pool := load_end p (pool s), loads := (loads s)(p := None), pins := add_mset (Want m, f, p) (pins s)\<rparr>)"
| step_latch: "(Want m, f, p) \<in># pins s \<Longrightarrow> (if m then holders f s = {#} else \<forall>q. (Have True, f, q) \<notin># pins s) \<Longrightarrow>
    pool_step dm s Silent (s\<lparr>pins := add_mset (Have m, f, p) (pins s - {#(Want m, f, p)#})\<rparr>)"
| step_store: "(Have True, f, p) \<in># pins s \<Longrightarrow> length bytes = PAGE_SIZE \<Longrightarrow>
    pool_step dm s (Store p bytes) (s\<lparr>pool := guard_write f bytes (pool s)\<rparr>)"
| step_load: "(Have m, f, p) \<in># pins s \<Longrightarrow> pool_step dm s (Load p (guard_read f (pool s))) s"
| step_guard_flush: "(Have True, f, p) \<in># pins s \<Longrightarrow> flush_frame dm f (pool s) = (True, st) \<Longrightarrow>
    pool_step dm s Silent (s\<lparr>pool := st\<rparr>)"
| step_release: "(k, f, p) \<in># pins s \<Longrightarrow> k = Have m \<or> k = Want True \<Longrightarrow> unpin_frame f (pool s) = (Inr u, st) \<Longrightarrow>
    pool_step dm s Silent (s\<lparr>pool := st, pins := pins s - {#(k, f, p)#}\<rparr>)"
| step_flush_begin: "flush_page_begin p (pool s) = (Inr (FlushPinned f), st) \<Longrightarrow>
    pool_step dm s Silent (s\<lparr>pool := st, pins := add_mset (FlushWant, f, p) (pins s)\<rparr>)"
| step_flush_write: "(FlushWant, f, p) \<in># pins s \<Longrightarrow> holders f s = {#} \<Longrightarrow> flush_frame dm f (pool s) = (True, st) \<Longrightarrow>
    pool_step dm s Silent (s\<lparr>pool := st, pins := add_mset (FlushDone, f, p) (pins s - {#(FlushWant, f, p)#})\<rparr>)"
| step_flush_unpin: "(FlushDone, f, p) \<in># pins s \<Longrightarrow> flush_page_unpin f (pool s) = (Inr l, st) \<Longrightarrow>
    pool_step dm s Silent (s\<lparr>pool := st, pins := pins s - {#(FlushDone, f, p)#}, tails := (if l then add_mset f (tails s) else tails s)\<rparr>)"
| step_flush_end: "f \<in># tails s \<Longrightarrow> flush_page_end f (pool s) = (Inr u, st) \<Longrightarrow>
    pool_step dm s Silent (s\<lparr>pool := st, tails := tails s - {#f#}\<rparr>)"
| step_delete: "delete_page_begin p (pool s) = (Inr True, st) \<Longrightarrow>
    pool_step dm s (Discard p) (s\<lparr>pool := st, deleting := add_mset p (deleting s)\<rparr>)"
| step_deleted: "p \<in># deleting s \<Longrightarrow> page_table (pool s) p = None \<Longrightarrow>
    pool_step dm s (Discard p) (s\<lparr>pool := delete_page_end dm p (pool s), deleting := deleting s - {#p#}\<rparr>)"
| step_new_page: "new_page (pool s) = (p, st) \<Longrightarrow> pool_step dm s Silent (s\<lparr>pool := st\<rparr>)"

inductive pool_run :: "'d disk_manager \<Rightarrow> 'd sys \<Rightarrow> event list \<Rightarrow> 'd sys \<Rightarrow> bool" for dm s0 where
  pool_start: "pool_run dm s0 [] s0"
| pool_more: "pool_run dm s0 es s \<Longrightarrow> pool_step dm s e s' \<Longrightarrow> pool_run dm s0 (es @ [e]) s'"

section \<open>Invariant\<close>

abbreviation frame_at :: "'d pool \<Rightarrow> nat \<Rightarrow> frame_header" where
  "frame_at st f \<equiv> frames st ! f"

definition shape_ok :: "'d sys \<Rightarrow> bool" where
  "shape_ok s \<longleftrightarrow> length (frames (pool s)) = num_frames (pool s) \<and> arc_inv (policy (pool s)) \<and>
     replacer_size (policy (pool s)) = num_frames (pool s) \<and> flushing (pool s) = dom (evicting s) \<and> loading (pool s) = dom (loads s)"

definition map_ok :: "'d sys \<Rightarrow> bool" where
  "map_ok s \<longleftrightarrow> (\<forall>p f. page_table (pool s) p = Some f \<longrightarrow> f < num_frames (pool s) \<and> frame_page (frame_at (pool s) f) = Some p)"

definition owner_ok :: "'d sys \<Rightarrow> bool" where
  "owner_ok s \<longleftrightarrow> (\<forall>f p. f < num_frames (pool s) \<longrightarrow> frame_page (frame_at (pool s) f) = Some p \<longrightarrow>
     page_table (pool s) p = Some f \<or> (\<exists>w. evicting s p = Some (f, w)))"

definition evict_ok :: "'d sys \<Rightarrow> bool" where
  "evict_ok s \<longleftrightarrow> (\<forall>p f w. evicting s p = Some (f, w) \<longrightarrow> f < num_frames (pool s) \<and> page_table (pool s) p = None \<and>
     frame_page (frame_at (pool s) f) = Some p \<and> is_dirty (frame_at (pool s) f) \<and> pin_count (frame_at (pool s) f) = 0)"

definition free_ok :: "'d sys \<Rightarrow> bool" where
  "free_ok s \<longleftrightarrow> distinct (free_frames (pool s)) \<and> (\<forall>f \<in> set (free_frames (pool s)). f < num_frames (pool s) \<and>
     frame_page (frame_at (pool s) f) = None \<and> pin_count (frame_at (pool s) f) = 0 \<and> \<not> is_dirty (frame_at (pool s) f))"

definition tracked_page :: "arc \<Rightarrow> nat \<Rightarrow> int option" where
  "tracked_page r f = map_option fst (arc_tracked r f)"

definition track_ok :: "'d sys \<Rightarrow> bool" where
  "track_ok s \<longleftrightarrow> (\<forall>f p. tracked_page (policy (pool s)) f = Some p \<longleftrightarrow> page_table (pool s) p = Some f) \<and>
     (\<forall>f p. arc_tracked (policy (pool s)) f = Some (p, True) \<longrightarrow> pin_count (frame_at (pool s) f) = 0)"

definition load_ok :: "'d sys \<Rightarrow> bool" where
  "load_ok s \<longleftrightarrow> (\<forall>p m f b. loads s p = Some (m, f, b) \<longrightarrow> page_table (pool s) p = Some f \<and> \<not> is_dirty (frame_at (pool s) f) \<and>
     pins_on f s = {#})"

definition load_frames :: "(int \<Rightarrow> (bool \<times> nat \<times> bool) option) \<Rightarrow> nat set" where
  "load_frames l = (\<lambda>x. fst (snd x)) ` ran l"

definition pin_ok :: "'d sys \<Rightarrow> bool" where
  "pin_ok s \<longleftrightarrow> (\<forall>f < num_frames (pool s). pin_count (frame_at (pool s) f) =
       size (pins_on f s) + (if f \<in> load_frames (loads s) then 1 else 0)) \<and>
     (\<forall>k f p. (k, f, p) \<in># pins s \<longrightarrow> page_table (pool s) p = Some f)"

definition latch_ok :: "'d sys \<Rightarrow> bool" where
  "latch_ok s \<longleftrightarrow> (\<forall>f p. (Have True, f, p) \<in># pins s \<longrightarrow> size (holders f s) = 1)"

definition data_ok :: "'d sys \<Rightarrow> bool" where
  "data_ok s \<longleftrightarrow> (\<forall>f < num_frames (pool s). (\<forall>bs. frame_data (frame_at (pool s) f) = Some bs \<longrightarrow> length bs = PAGE_SIZE) \<and>
     (frame_page (frame_at (pool s) f) \<noteq> None \<longrightarrow> frame_data (frame_at (pool s) f) \<noteq> None))"

text \<open>A clean frame whose page has been read in holds what is on the disk.\<close>

definition clean_ok :: "('d \<Rightarrow> int \<Rightarrow> page_bytes) \<Rightarrow> 'd sys \<Rightarrow> bool" where
  "clean_ok stored s \<longleftrightarrow> (\<forall>p f. page_table (pool s) p = Some f \<longrightarrow> \<not> is_dirty (frame_at (pool s) f) \<longrightarrow>
     (\<forall>m. loads s p \<noteq> Some (m, f, False)) \<longrightarrow> frame_data (frame_at (pool s) f) = Some (stored (disk (pool s)) p))"

definition pool_inv :: "('d \<Rightarrow> bool) \<Rightarrow> ('d \<Rightarrow> int \<Rightarrow> page_bytes) \<Rightarrow> 'd sys \<Rightarrow> bool" where
  "pool_inv dinv stored s \<longleftrightarrow> shape_ok s \<and> map_ok s \<and> owner_ok s \<and> evict_ok s \<and> free_ok s \<and> track_ok s \<and> load_ok s \<and> pin_ok s \<and>
     latch_ok s \<and> data_ok s \<and> dinv (disk (pool s)) \<and> clean_ok stored s"

text \<open>
  The page a user of the pool would see: the frame that holds it, unless it is still being read in, and
  otherwise the disk.
\<close>

definition frame_of :: "'d pool \<Rightarrow> int \<Rightarrow> nat option" where
  "frame_of st p = find (\<lambda>f. frame_page (frame_at st f) = Some p) [0..<length (frames st)]"

definition page_content :: "('d \<Rightarrow> int \<Rightarrow> page_bytes) \<Rightarrow> 'd pool \<Rightarrow> int \<Rightarrow> page_bytes" where
  "page_content stored st p =
     (if p \<in> loading st then stored (disk st) p
      else case frame_of st p of Some f \<Rightarrow> the (frame_data (frame_at st f)) | None \<Rightarrow> stored (disk st) p)"

lemmas pool_inv_defs = shape_ok_def map_ok_def owner_ok_def evict_ok_def free_ok_def track_ok_def load_ok_def pin_ok_def latch_ok_def data_ok_def

lemma pool_invD:
  assumes "pool_inv dinv stored s"
  shows "shape_ok s" "map_ok s" "owner_ok s" "evict_ok s" "free_ok s" "track_ok s" "load_ok s" "pin_ok s" "latch_ok s" "data_ok s"
    "dinv (disk (pool s))" "clean_ok stored s"
  using assms by (auto simp: pool_inv_def)

lemma pins_on_simps [simp]:
  "pins_on g (s\<lparr>pins := add_mset (k, f, p) M\<rparr>) = (if g = f then add_mset (k, f, p) (pins_on g (s\<lparr>pins := M\<rparr>)) else pins_on g (s\<lparr>pins := M\<rparr>))"
  "pins_on g (s\<lparr>pool := st\<rparr>) = pins_on g s" "pins_on g (s\<lparr>evicting := e\<rparr>) = pins_on g s" "pins_on g (s\<lparr>loads := l\<rparr>) = pins_on g s"
  "pins_on g (s\<lparr>tails := t\<rparr>) = pins_on g s" "pins_on g (s\<lparr>deleting := d\<rparr>) = pins_on g s" "pins_on g (s\<lparr>pins := pins s\<rparr>) = pins_on g s"
  "pins_on g (s\<lparr>pins := pins s - {#(k, f, p)#}\<rparr>) = (if g = f then pins_on g s - {#(k, f, p)#} else pins_on g s)"
  by (auto simp: pins_on_def)

lemma holders_simps [simp]:
  "holders g (s\<lparr>pins := add_mset (k, f, p) M\<rparr>) = (if g = f \<and> (\<exists>m. k = Have m) then add_mset (k, f, p) (holders g (s\<lparr>pins := M\<rparr>)) else holders g (s\<lparr>pins := M\<rparr>))"
  "holders g (s\<lparr>pool := st\<rparr>) = holders g s" "holders g (s\<lparr>evicting := e\<rparr>) = holders g s" "holders g (s\<lparr>loads := l\<rparr>) = holders g s"
  "holders g (s\<lparr>tails := t\<rparr>) = holders g s" "holders g (s\<lparr>deleting := d\<rparr>) = holders g s" "holders g (s\<lparr>pins := pins s\<rparr>) = holders g s"
  "holders g (s\<lparr>pins := pins s - {#(k, f, p)#}\<rparr>) = (if g = f \<and> (\<exists>m. k = Have m) then holders g s - {#(k, f, p)#} else holders g s)"
  by (auto simp: holders_def)

lemma load_frames_iff: "f \<in> load_frames l \<longleftrightarrow> (\<exists>p m b. l p = Some (m, f, b))"
  by (force simp: load_frames_def ran_def image_iff)

lemma load_frames_new: "l p = None \<Longrightarrow> load_frames (l(p \<mapsto> (m, f, b))) = insert f (load_frames l)"
  by (simp add: load_frames_def)

lemma load_frames_present: "l p = Some (m, f, b) \<Longrightarrow> load_frames l = insert f (load_frames (l(p := None)))"
  using load_frames_new [of "l(p := None)" p m f b] by (simp add: map_upd_triv)

lemma load_frames_same: "l p = Some (m, f, b) \<Longrightarrow> load_frames (l(p \<mapsto> (m', f, b'))) = load_frames l"
  using load_frames_new [of "l(p := None)" p m' f b'] load_frames_present [of l p m f b] by simp

lemma load_frames_done:
  "(\<And>q n c. l q = Some (n, f, c) \<Longrightarrow> q = p) \<Longrightarrow> l p = Some (m, f, b) \<Longrightarrow> load_frames (l(p := None)) = load_frames l - {f}"
proof -
  assume u: "\<And>q n c. l q = Some (n, f, c) \<Longrightarrow> q = p" and p: "l p = Some (m, f, b)"
  have "f \<notin> load_frames (l(p := None))" using u by (auto simp: load_frames_iff split: if_splits)
  then show ?thesis using load_frames_present [of l p m f b] p by simp
qed

lemma tracked_page_upd: "arc_tracked r' = (arc_tracked r)(f := x) \<Longrightarrow> tracked_page r' = (tracked_page r)(f := map_option fst x)"
  by (auto simp: tracked_page_def)

lemma page_frames:
  assumes "pool_inv dinv stored s" "page_table (pool s) p = Some f"
  shows "f < num_frames (pool s)" "f < length (frames (pool s))" "frame_page (frame_at (pool s) f) = Some p" "f \<notin> set (free_frames (pool s))"
    "evicting s p = None" "\<And>q w. evicting s q \<noteq> Some (f, w)" "\<And>q. page_table (pool s) q = Some f \<Longrightarrow> q = p"
    "\<And>q m b. loads s q = Some (m, f, b) \<Longrightarrow> q = p"
proof -
  note i = pool_invD [OF assms(1)]
  show f: "f < num_frames (pool s)" "frame_page (frame_at (pool s) f) = Some p" using i(2) assms(2) by (auto simp: map_ok_def)
  show "f < length (frames (pool s))" using f i(1) by (simp add: shape_ok_def)
  show "f \<notin> set (free_frames (pool s))" using i(5) f by (auto simp: free_ok_def)
  show "evicting s p = None" using i(4) assms(2) by (cases "evicting s p") (auto simp: evict_ok_def)
  show "evicting s q \<noteq> Some (f, w)" for q w using i(4) assms(2) f unfolding evict_ok_def by (metis option.distinct(1) option.inject)
  show q: "q = p" if "page_table (pool s) q = Some f" for q using i(2) that f unfolding map_ok_def by (metis option.inject)
  show "q = p" if "loads s q = Some (m, f, b)" for q m b using i(7) that q unfolding load_ok_def by blast
qed

end
