(* ===== verification/PoolEffects.thy ===== *)
theory PoolEffects
  imports PoolSteps
begin

text \<open>
  What each kind of change that a critical section of the buffer pool makes does to the pool's invariant: pinning
  and unpinning a frame, reserving a free one, reading a page in, writing through a guard, writing a frame back,
  and the three ways in which an eviction goes on.
\<close>

section \<open>Effects\<close>

lemma set_butlast_distinct: "distinct xs \<Longrightarrow> xs \<noteq> [] \<Longrightarrow> set (butlast xs) = set xs - {last xs}"
  by (induction xs rule: rev_induct) auto

text \<open>The page table and the pages the replacement policy knows are inverse to each other.\<close>

lemma inverse_remove:
  assumes "\<forall>f p. t f = Some p \<longleftrightarrow> m p = Some f" "m p = Some f"
  shows "(t(f := None)) g = Some q \<longleftrightarrow> (m(p := None)) q = Some g"
proof -
  have "t f = Some p" using assms by blast
  then show ?thesis using assms by (cases "g = f"; cases "q = p") (auto, metis option.inject)
qed

lemma inverse_add:
  assumes "\<forall>f p. t f = Some p \<longleftrightarrow> m p = Some f" "m p = None" "t f = None"
  shows "(t(f \<mapsto> p)) g = Some q \<longleftrightarrow> (m(p \<mapsto> f)) q = Some g"
proof -
  have "t g \<noteq> Some p" "m q \<noteq> Some f" using assms by (metis option.distinct(1))+
  then show ?thesis using assms(1) by (cases "g = f"; cases "q = p") auto
qed

lemma track_remove:
  assumes "track_ok s" "page_table (pool s) p = Some f" "arc_tracked r' = (arc_tracked (policy (pool s)))(f := None)"
    "policy (pool s') = r'" "page_table (pool s') = (page_table (pool s))(p := None)"
    "\<And>g. g \<noteq> f \<Longrightarrow> pin_count (frame_at (pool s') g) = pin_count (frame_at (pool s) g)"
  shows "track_ok s'"
  unfolding track_ok_def assms(4,5) tracked_page_upd [OF assms(3)] using inverse_remove [of "tracked_page (policy (pool s))" "page_table (pool s)" p f] assms(1,2,6)
  by (auto simp: track_ok_def assms(3) simp del: fun_upd_apply) (auto split: if_splits)

lemma track_add:
  assumes "track_ok s" "page_table (pool s) p = None" "\<And>q. page_table (pool s) q \<noteq> Some f"
    "arc_tracked r' = (arc_tracked (policy (pool s)))(f \<mapsto> (p, b))" "policy (pool s') = r'" "page_table (pool s') = (page_table (pool s))(p \<mapsto> f)"
    "\<And>g. g \<noteq> f \<Longrightarrow> pin_count (frame_at (pool s') g) = pin_count (frame_at (pool s) g)" "b \<Longrightarrow> pin_count (frame_at (pool s') f) = 0"
  shows "track_ok s'"
proof -
  have "tracked_page (policy (pool s)) f = None" using assms(1,3) unfolding track_ok_def by (metis not_Some_eq)
  then show ?thesis
  unfolding track_ok_def assms(5,6) tracked_page_upd [OF assms(4)] using inverse_add [of "tracked_page (policy (pool s))" "page_table (pool s)" p f] assms(1,2,7,8)
  by (auto simp: track_ok_def assms(4) simp del: fun_upd_apply) (auto split: if_splits)
qed

lemma pin_effect:
  assumes inv: "pool_inv dinv stored s" and pt: "page_table (pool s) p = Some f" and nl: "loads s p = None"
    and r': "arc_inv r'" "replacer_size r' = num_frames (pool s)" "arc_tracked r' = (arc_tracked (policy (pool s)))(f \<mapsto> (p, False))"
    and k: "\<forall>m. k \<noteq> Have m"
    and st': "st' = (pool s)\<lparr>frames := (frames (pool s))[f := (frame_at (pool s) f)\<lparr>pin_count := pin_count (frame_at (pool s) f) + 1\<rparr>], policy := r'\<rparr>"
  shows "pool_inv dinv stored (s\<lparr>pool := st', pins := add_mset (k, f, p) (pins s)\<rparr>)"
proof -
  note i = pool_invD [OF inv] and pf = page_frames [OF inv pt]
  let ?s = "s\<lparr>pool := st', pins := add_mset (k, f, p) (pins s)\<rparr>"
  have fr: "frame_at st' g = (if g = f then (frame_at (pool s) f)\<lparr>pin_count := pin_count (frame_at (pool s) f) + 1\<rparr> else frame_at (pool s) g)" for g
    using st' pf(2) by (simp add: nth_list_update)
  have fl: "num_frames st' = num_frames (pool s)" "page_table st' = page_table (pool s)" "free_frames st' = free_frames (pool s)"
    "policy st' = r'" "loading st' = loading (pool s)" "flushing st' = flushing (pool s)" "disk st' = disk (pool s)"
    "length (frames st') = length (frames (pool s))"
    by (simp_all add: st')
  have nl': "\<nexists>q m b. loads s q = Some (m, f, b)" using pf(8) nl by fastforce
  have "shape_ok ?s" using i(1) r' by (simp add: shape_ok_def fl)
  moreover have "map_ok ?s" using i(2) by (auto simp: map_ok_def fr fl)
  moreover have "owner_ok ?s" using i(3) by (auto simp: owner_ok_def fr fl)
  moreover have "evict_ok ?s" using i(4) pf(6) by (auto simp: evict_ok_def fr fl)
  moreover have "free_ok ?s" using i(5) pf(4) by (auto simp: free_ok_def fr fl)
  moreover have "tracked_page (policy (pool s)) f = Some p" using i(6) pt by (simp add: track_ok_def)
  then have "tracked_page r' = tracked_page (policy (pool s))" using tracked_page_upd [OF r'(3)] by auto
  then have "track_ok ?s" using i(6) r' by (simp add: track_ok_def fr fl)
  moreover have "load_ok ?s" using i(7) nl' by (auto simp: load_ok_def fr fl)
  moreover have "pin_ok ?s" using i(8) pt by (auto simp: pin_ok_def fr fl)
  moreover have "latch_ok ?s" using i(9) k by (auto simp: latch_ok_def)
  moreover have "data_ok ?s" using i(10) by (auto simp: data_ok_def fr fl)
  moreover have "dinv (disk st')" "clean_ok stored ?s" using i(11,12) by (auto simp: clean_ok_def fr fl)
  ultimately show ?thesis by (simp add: pool_inv_def)
qed

lemma pins_on_empty: "(\<And>k p. (k, f, p) \<notin># pins s) \<Longrightarrow> pins_on f s = {#}"
  by (auto simp: pins_on_def simp flip: set_mset_eq_empty_iff)

lemma pin_entry: "pool_inv dinv stored s \<Longrightarrow> (k, f, p) \<in># pins s \<Longrightarrow> page_table (pool s) p = Some f"
  by (auto simp: pool_inv_def pin_ok_def)

lemma load_entry: "pool_inv dinv stored s \<Longrightarrow> loads s p = Some (m, f, b) \<Longrightarrow> page_table (pool s) p = Some f"
  by (auto simp: pool_inv_def load_ok_def)

lemma evict_entry:
  assumes "pool_inv dinv stored s" "evicting s p = Some (f, w)"
  shows "f < num_frames (pool s)" "f < length (frames (pool s))" "page_table (pool s) p = None" "frame_page (frame_at (pool s) f) = Some p"
    "is_dirty (frame_at (pool s) f)" "pin_count (frame_at (pool s) f) = 0" "f \<notin> set (free_frames (pool s))" "loads s p = None"
proof -
  have e: "f < num_frames (pool s) \<and> page_table (pool s) p = None \<and> frame_page (frame_at (pool s) f) = Some p \<and>
      is_dirty (frame_at (pool s) f) \<and> pin_count (frame_at (pool s) f) = 0"
    using pool_invD(4) [OF assms(1)] assms(2) unfolding evict_ok_def by blast
  then show "f < num_frames (pool s)" "page_table (pool s) p = None" "frame_page (frame_at (pool s) f) = Some p"
    "is_dirty (frame_at (pool s) f)" "pin_count (frame_at (pool s) f) = 0" by auto
  show "f < length (frames (pool s))" using e pool_invD(1) [OF assms(1)] by (simp add: shape_ok_def)
  show "f \<notin> set (free_frames (pool s))" using e pool_invD(5) [OF assms(1)] by (auto simp: free_ok_def)
  show "loads s p = None" using e load_entry [OF assms(1), of p] by (cases "loads s p") auto
qed

text \<open>A frame that no page is mapped to has no pins and no load.\<close>

lemma unmapped_frame:
  assumes "pool_inv dinv stored s" "\<And>p. page_table (pool s) p \<noteq> Some f"
  shows "pins_on f s = {#}" "\<And>p m b. loads s p \<noteq> Some (m, f, b)" "\<And>e. arc_tracked (policy (pool s)) f \<noteq> Some e" "arc_tracked (policy (pool s)) f = None"
proof -
  show "pins_on f s = {#}" using pin_entry [OF assms(1)] assms(2) by (intro pins_on_empty) blast
  show "loads s p \<noteq> Some (m, f, b)" for p m b using load_entry [OF assms(1)] assms(2) by blast
  have "tracked_page (policy (pool s)) f = None" using pool_invD(6) [OF assms(1)] assms(2) unfolding track_ok_def by (metis not_Some_eq)
  then show "arc_tracked (policy (pool s)) f = None" by (simp add: tracked_page_def)
  then show "arc_tracked (policy (pool s)) f \<noteq> Some e" for e by simp
qed

lemma free_unmapped:
  assumes "pool_inv dinv stored s" "f \<in> set (free_frames (pool s))"
  shows "page_table (pool s) p \<noteq> Some f" "f < num_frames (pool s)" "f < length (frames (pool s))" "evicting s p \<noteq> Some (f, w)"
    "frame_page (frame_at (pool s) f) = None" "pin_count (frame_at (pool s) f) = 0" "\<not> is_dirty (frame_at (pool s) f)"
  using assms(2) page_frames(4) [OF assms(1)] evict_entry(7) [OF assms(1)] pool_invD(1,5) [OF assms(1)] by (auto simp: shape_ok_def free_ok_def)

lemma unpinned_frame:
  assumes "pool_inv dinv stored s" "page_table (pool s) p = Some f" "pin_count (frame_at (pool s) f) = 0"
  shows "pins_on f s = {#}" "\<And>q m b. loads s q \<noteq> Some (m, f, b)" "loads s p = None"
proof -
  have c: "pin_count (frame_at (pool s) f) = size (pins_on f s) + (if f \<in> load_frames (loads s) then 1 else 0)"
    using pool_invD(8) [OF assms(1)] page_frames(1) [OF assms(1,2)] by (auto simp: pin_ok_def)
  then show "pins_on f s = {#}" using assms(3) by simp
  show *: "loads s q \<noteq> Some (m, f, b)" for q m b using c assms(3) by (auto simp: load_frames_iff split: if_splits)
  show "loads s p = None"
  proof (cases "loads s p")
    case (Some x)
    then show ?thesis using load_entry [OF assms(1), of p] assms(2) * by (cases x) auto
  qed simp
qed

lemma reserve_effect:
  assumes inv: "pool_inv dinv stored s" and f: "free_frames (pool s) \<noteq> []" "f = last (free_frames (pool s))"
    and p: "page_table (pool s) p = None" "loads s p = None" "evicting s p = None"
    and r': "arc_inv r'" "replacer_size r' = num_frames (pool s)" "arc_tracked r' = (arc_tracked (policy (pool s)))(f \<mapsto> (p, False))"
    and st': "st' = (pool s)\<lparr>frames := (frames (pool s))[f := (ensure_data (frame_at (pool s) f))\<lparr>frame_page := Some p, pin_count := 1\<rparr>],
       free_frames := butlast (free_frames (pool s)), page_table := (page_table (pool s))(p \<mapsto> f), loading := insert p (loading (pool s)), policy := r'\<rparr>"
  shows "pool_inv dinv stored (s\<lparr>pool := st', loads := (loads s)(p \<mapsto> (m, f, False))\<rparr>)"
proof -
  note i = pool_invD [OF inv]
  have fin: "f \<in> set (free_frames (pool s))" using f by simp
  note ff = free_unmapped [OF inv fin]
  note un = unmapped_frame [OF inv ff(1)]
  let ?s = "s\<lparr>pool := st', loads := (loads s)(p \<mapsto> (m, f, False))\<rparr>"
  have fr: "frame_at st' g = (if g = f then (ensure_data (frame_at (pool s) f))\<lparr>frame_page := Some p, pin_count := 1\<rparr> else frame_at (pool s) g)" for g
    using st' ff(3) by (simp add: nth_list_update)
  have fl: "num_frames st' = num_frames (pool s)" "page_table st' = (page_table (pool s))(p \<mapsto> f)" "free_frames st' = butlast (free_frames (pool s))"
    "policy st' = r'" "loading st' = insert p (loading (pool s))" "flushing st' = flushing (pool s)" "disk st' = disk (pool s)"
    "length (frames st') = length (frames (pool s))"
    by (simp_all add: st')
  have d: "distinct (free_frames (pool s))" using i(5) by (simp add: free_ok_def)
  then have bl: "set (butlast (free_frames (pool s))) = set (free_frames (pool s)) - {f}"
    using f set_butlast_distinct by blast
  have "shape_ok ?s" using i(1) r' by (auto simp: shape_ok_def fl)
  moreover have "map_ok ?s" using i(2) ff by (auto simp: map_ok_def fr fl)
  moreover have "owner_ok ?s" using i(3) p ff by (auto simp: owner_ok_def fr fl)
  moreover have "evict_ok ?s" using i(4) ff p by (auto simp: evict_ok_def fr fl)
  moreover have "free_ok ?s" using i(5) d by (auto simp: free_ok_def fr fl bl distinct_butlast)
  moreover have "tracked_page r' = (tracked_page (policy (pool s)))(f \<mapsto> p)" using tracked_page_upd [OF r'(3)] by simp
  then have "track_ok ?s" using i(6) r' p ff(1) by (auto simp: track_ok_def fr fl)
  moreover have "load_ok ?s" using i(7) un ff p by (auto simp: load_ok_def fr fl ensure_data_def)
  moreover have lf: "load_frames (loads ?s) = insert f (load_frames (loads s))" "f \<notin> load_frames (loads s)"
    using p(2) un(2) by (simp_all add: load_frames_new) (simp add: load_frames_iff)
  then have "pin_ok ?s" using i(8) un(1) ff p(1) unfolding pin_ok_def lf(1) by (auto simp: fr fl)
  moreover have "latch_ok ?s" using i(9) by (auto simp: latch_ok_def)
  moreover have "data_ok ?s" using i(10) by (auto simp: data_ok_def fr fl ensure_data_def zero_page_def)
  moreover have "dinv (disk st')" "clean_ok stored ?s" using i(11,12) ff(1) by (auto simp: clean_ok_def fr fl)
  ultimately show ?thesis by (simp add: pool_inv_def)
qed

lemma recycle_effect:
  assumes inv: "pool_inv dinv stored s" and pt: "page_table (pool s) p = Some f" and pc: "pin_count (frame_at (pool s) f) = 0"
    and r': "arc_inv r'" "replacer_size r' = num_frames (pool s)" "arc_tracked r' = (arc_tracked (policy (pool s)))(f := None)"
    and st': "st' = (pool s)\<lparr>frames := (frames (pool s))[f := frame_reset (frame_at (pool s) f)], page_table := (page_table (pool s))(p := None),
       free_frames := free_frames (pool s) @ [f], policy := r'\<rparr>"
  shows "pool_inv dinv stored (s\<lparr>pool := st'\<rparr>)"
proof -
  note i = pool_invD [OF inv] and pf = page_frames [OF inv pt] and un = unpinned_frame [OF inv pt pc]
  let ?s = "s\<lparr>pool := st'\<rparr>"
  have fr: "frame_at st' g = (if g = f then frame_reset (frame_at (pool s) f) else frame_at (pool s) g)" for g
    using st' pf(2) by (simp add: nth_list_update)
  have fl: "num_frames st' = num_frames (pool s)" "page_table st' = (page_table (pool s))(p := None)" "free_frames st' = free_frames (pool s) @ [f]"
    "policy st' = r'" "loading st' = loading (pool s)" "flushing st' = flushing (pool s)" "disk st' = disk (pool s)"
    "length (frames st') = length (frames (pool s))"
    by (simp_all add: st')
  have np: "(k, f, q) \<notin># pins s" for k q using un(1) by (auto simp: pins_on_def simp flip: set_mset_eq_empty_iff)
  have "shape_ok ?s" using i(1) r' by (simp add: shape_ok_def fl)
  moreover have "map_ok ?s" using i(2) pf(7) by (auto simp: map_ok_def fr fl)
  moreover have "owner_ok ?s" using i(3) pt pf(3,5) by (fastforce simp: owner_ok_def fr fl frame_reset_def)
  moreover have "evict_ok ?s" using i(4) pf(6) by (auto simp: evict_ok_def fr fl)
  moreover have "free_ok ?s" using i(5) pf(1,4) by (auto simp: free_ok_def fr fl frame_reset_def)
  moreover have "track_ok ?s" by (rule track_remove [OF i(6) pt r'(3)]) (simp_all add: fr fl)
  moreover have "load_ok ?s" using i(7) un(2,3) by (auto simp: load_ok_def fr fl)
  moreover have "pin_ok ?s" using i(8) pt un(1,2) np by (auto simp: pin_ok_def fr fl frame_reset_def load_frames_iff)
  moreover have "latch_ok ?s" using i(9) by (auto simp: latch_ok_def)
  moreover have "data_ok ?s" using i(10) by (auto simp: data_ok_def fr fl frame_reset_def)
  moreover have "dinv (disk st')" "clean_ok stored ?s" using i(11,12) pf(7) by (auto simp: clean_ok_def fr fl)
  ultimately show ?thesis by (simp add: pool_inv_def)
qed

lemma detach_effect:
  assumes inv: "pool_inv dinv stored s" and pt: "page_table (pool s) p = Some f" and pc: "pin_count (frame_at (pool s) f) = 0"
    and dirty: "is_dirty (frame_at (pool s) f)"
    and r': "arc_inv r'" "replacer_size r' = num_frames (pool s)" "arc_tracked r' = (arc_tracked (policy (pool s)))(f := None)"
    and st': "st' = (pool s)\<lparr>page_table := (page_table (pool s))(p := None), flushing := insert p (flushing (pool s)), policy := r'\<rparr>"
  shows "pool_inv dinv stored (s\<lparr>pool := st', evicting := (evicting s)(p \<mapsto> (f, w))\<rparr>)"
proof -
  note i = pool_invD [OF inv] and pf = page_frames [OF inv pt] and un = unpinned_frame [OF inv pt pc]
  let ?s = "s\<lparr>pool := st', evicting := (evicting s)(p \<mapsto> (f, w))\<rparr>"
  have fl: "num_frames st' = num_frames (pool s)" "page_table st' = (page_table (pool s))(p := None)" "free_frames st' = free_frames (pool s)"
    "policy st' = r'" "loading st' = loading (pool s)" "flushing st' = insert p (flushing (pool s))" "disk st' = disk (pool s)"
    "frames st' = frames (pool s)"
    by (simp_all add: st')
  have np: "(k, f, q) \<notin># pins s" for k q using un(1) by (auto simp: pins_on_def simp flip: set_mset_eq_empty_iff)
  have "shape_ok ?s" using i(1) r' by (auto simp: shape_ok_def fl)
  moreover have "map_ok ?s" using i(2) by (auto simp: map_ok_def fl)
  moreover have "owner_ok ?s" using i(3) pt pf(5) by (auto simp: owner_ok_def fl) 
  moreover have "evict_ok ?s" using i(4) pf dirty pc by (auto simp: evict_ok_def fl)
  moreover have "free_ok ?s" using i(5) by (auto simp: free_ok_def fl)
  moreover have "track_ok ?s" by (rule track_remove [OF i(6) pt r'(3)]) (simp_all add: fl)
  moreover have "load_ok ?s" using i(7) un(2,3) by (auto simp: load_ok_def fl)
  moreover have "pin_ok ?s" using i(8) pt np by (auto simp: pin_ok_def fl)
  moreover have "latch_ok ?s" using i(9) by (auto simp: latch_ok_def)
  moreover have "data_ok ?s" using i(10) by (auto simp: data_ok_def fl)
  moreover have "dinv (disk st')" "clean_ok stored ?s" using i(11,12) by (auto simp: clean_ok_def fl)
  ultimately show ?thesis by (simp add: pool_inv_def)
qed

lemma evict_done_effect:
  assumes inv: "pool_inv dinv stored s" and ev: "evicting s p = Some (f, w)"
    and st': "st' = (pool s)\<lparr>flushing := flushing (pool s) - {p}, frames := (frames (pool s))[f := frame_reset (frame_at (pool s) f)],
       free_frames := free_frames (pool s) @ [f]\<rparr>"
  shows "pool_inv dinv stored (s\<lparr>pool := st', evicting := (evicting s)(p := None)\<rparr>)"
proof -
  note i = pool_invD [OF inv] and ee = evict_entry [OF inv ev]
  have nm: "page_table (pool s) q \<noteq> Some f" for q using page_frames(6) [OF inv] ev by blast
  note un = unmapped_frame [OF inv nm]
  let ?s = "s\<lparr>pool := st', evicting := (evicting s)(p := None)\<rparr>"
  have fr: "frame_at st' g = (if g = f then frame_reset (frame_at (pool s) f) else frame_at (pool s) g)" for g
    using st' ee(2) by (simp add: nth_list_update)
  have fl: "num_frames st' = num_frames (pool s)" "page_table st' = page_table (pool s)" "free_frames st' = free_frames (pool s) @ [f]"
    "policy st' = policy (pool s)" "loading st' = loading (pool s)" "flushing st' = flushing (pool s) - {p}" "disk st' = disk (pool s)"
    "length (frames st') = length (frames (pool s))"
    by (simp_all add: st')
  have uq: "evicting s q = Some (f, w') \<Longrightarrow> q = p" for q w' using evict_entry(4) [OF inv, of q f w'] ee(4) by simp
  have "shape_ok ?s" using i(1) by (auto simp: shape_ok_def fl)
  moreover have "map_ok ?s" using i(2) nm by (auto simp: map_ok_def fr fl)
  moreover have "owner_ok ?s" using i(3) ev by (auto simp: owner_ok_def fr fl frame_reset_def)
  moreover have "evict_ok ?s" using i(4) uq by (auto simp: evict_ok_def fr fl)
  moreover have "free_ok ?s" using i(5) ee(1,7) by (auto simp: free_ok_def fr fl frame_reset_def)
  moreover have "track_ok ?s" using i(6) un(4) by (auto simp: track_ok_def fr fl)
  moreover have "load_ok ?s" using i(7) un(2) by (auto simp: load_ok_def fr fl)
  moreover have "pin_ok ?s" using i(8) un(1,2) by (auto simp: pin_ok_def fr fl frame_reset_def load_frames_iff)
  moreover have "latch_ok ?s" using i(9) by (auto simp: latch_ok_def)
  moreover have "data_ok ?s" using i(10) by (auto simp: data_ok_def fr fl frame_reset_def)
  moreover have "dinv (disk st')" "clean_ok stored ?s" using i(11,12) nm by (auto simp: clean_ok_def fr fl)
  ultimately show ?thesis by (simp add: pool_inv_def)
qed

lemma evict_failed_effect:
  assumes inv: "pool_inv dinv stored s" and ev: "evicting s p = Some (f, w)"
    and r': "arc_inv r'" "replacer_size r' = num_frames (pool s)" "arc_tracked r' = (arc_tracked (policy (pool s)))(f \<mapsto> (p, True))"
    and st': "st' = (pool s)\<lparr>flushing := flushing (pool s) - {p}, page_table := (page_table (pool s))(p \<mapsto> f), policy := r'\<rparr>"
  shows "pool_inv dinv stored (s\<lparr>pool := st', evicting := (evicting s)(p := None)\<rparr>)"
proof -
  note i = pool_invD [OF inv] and ee = evict_entry [OF inv ev]
  have nm: "page_table (pool s) q \<noteq> Some f" for q using page_frames(6) [OF inv] ev by blast
  note un = unmapped_frame [OF inv nm]
  let ?s = "s\<lparr>pool := st', evicting := (evicting s)(p := None)\<rparr>"
  have fl: "num_frames st' = num_frames (pool s)" "page_table st' = (page_table (pool s))(p \<mapsto> f)" "free_frames st' = free_frames (pool s)"
    "policy st' = r'" "loading st' = loading (pool s)" "flushing st' = flushing (pool s) - {p}" "disk st' = disk (pool s)"
    "frames st' = frames (pool s)"
    by (simp_all add: st')
  have np: "(k, g, p) \<notin># pins s" for k g using pin_entry [OF inv] ee(3) by fastforce
  have "shape_ok ?s" using i(1) r' by (auto simp: shape_ok_def fl)
  moreover have "map_ok ?s" using i(2) ee by (auto simp: map_ok_def fl)
  moreover have "owner_ok ?s" using i(3) ev ee(3) by (fastforce simp: owner_ok_def fl)
  moreover have "evict_ok ?s" using i(4) by (auto simp: evict_ok_def fl)
  moreover have "free_ok ?s" using i(5) by (auto simp: free_ok_def fl)
  moreover have "track_ok ?s" by (rule track_add [OF i(6) ee(3) nm r'(3)]) (simp_all add: fl ee(6))
  moreover have "load_ok ?s" using i(7) ee(8) by (auto simp: load_ok_def fl)
  moreover have "pin_ok ?s" using i(8) np by (auto simp: pin_ok_def fl)
  moreover have "latch_ok ?s" using i(9) by (auto simp: latch_ok_def)
  moreover have "data_ok ?s" using i(10) by (auto simp: data_ok_def fl)
  moreover have "dinv (disk st')" "clean_ok stored ?s" using i(11,12) ee(5) by (auto simp: clean_ok_def fl)
  ultimately show ?thesis by (simp add: pool_inv_def)
qed

lemma track_same:
  assumes "track_ok s" "tracked_page (policy (pool s)) f = Some p" "arc_tracked r' = (arc_tracked (policy (pool s)))(f \<mapsto> (p, b))"
    "policy (pool s') = r'" "page_table (pool s') = page_table (pool s)"
    "\<And>g. g \<noteq> f \<Longrightarrow> pin_count (frame_at (pool s') g) = pin_count (frame_at (pool s) g)" "b \<Longrightarrow> pin_count (frame_at (pool s') f) = 0"
  shows "track_ok s'"
proof -
  have "tracked_page r' = tracked_page (policy (pool s))" using tracked_page_upd [OF assms(3)] assms(2) by auto
  then show ?thesis unfolding track_ok_def assms(4,5) assms(3) using assms(1,6,7) by (auto simp: track_ok_def split: if_splits)
qed

lemma track_unchanged:
  assumes "track_ok s" "policy (pool s') = policy (pool s)" "page_table (pool s') = page_table (pool s)"
    "\<And>g. pin_count (frame_at (pool s') g) = pin_count (frame_at (pool s) g)"
  shows "track_ok s'"
  using assms by (simp add: track_ok_def)

lemma page_tracked: "pool_inv dinv stored s \<Longrightarrow> page_table (pool s) p = Some f \<Longrightarrow> tracked_page (policy (pool s)) f = Some p"
  by (simp add: pool_inv_def track_ok_def)

text \<open>A change of one frame after which the frame agrees with the disk.\<close>

lemma clean_frame:
  assumes inv: "pool_inv dinv stored s" and pt: "page_table (pool s) p = Some f"
    and s': "page_table (pool s') = page_table (pool s)" "\<And>q. q \<noteq> p \<Longrightarrow> loads s' q = loads s q"
      "\<And>q. q \<noteq> p \<Longrightarrow> stored (disk (pool s')) q = stored (disk (pool s)) q" "\<And>g. g \<noteq> f \<Longrightarrow> frame_at (pool s') g = frame_at (pool s) g"
    and f: "frame_data (frame_at (pool s') f) = Some (stored (disk (pool s')) p)"
  shows "clean_ok stored s'"
  unfolding clean_ok_def
proof (intro allI impI)
  fix q g assume a: "page_table (pool s') q = Some g" "\<not> is_dirty (frame_at (pool s') g)" "\<forall>m. loads s' q \<noteq> Some (m, g, False)"
  show "frame_data (frame_at (pool s') g) = Some (stored (disk (pool s')) q)"
  proof (cases "g = f")
    case True
    then have "q = p" using a(1) s'(1) page_frames(7) [OF inv pt] by simp
    then show ?thesis using True f by simp
  next
    case False
    then have "q \<noteq> p" using a(1) s'(1) pt by auto
    then show ?thesis using pool_invD(12) [OF inv] a s' False unfolding clean_ok_def by simp
  qed
qed

text \<open>A pinned frame holds its page, is not being read in, and is not evictable.\<close>

lemma pinned_frame:
  assumes "pool_inv dinv stored s" "(k, f, p) \<in># pins s"
  shows "page_table (pool s) p = Some f" "(k, f, p) \<in># pins_on f s" "pin_count (frame_at (pool s) f) = size (pins_on f s)"
    "pin_count (frame_at (pool s) f) > 0" "\<And>q m b. loads s q \<noteq> Some (m, f, b)" "loads s p = None"
    "arc_tracked (policy (pool s)) f = Some (p, False)"
proof -
  show pt: "page_table (pool s) p = Some f" using pin_entry [OF assms] .
  show on: "(k, f, p) \<in># pins_on f s" using assms(2) by (simp add: pins_on_def)
  show nl: "loads s q \<noteq> Some (m, f, b)" for q m b using pool_invD(7) [OF assms(1)] on unfolding load_ok_def by (metis empty_iff set_mset_empty)
  show "loads s p = None" using load_entry [OF assms(1), of p] nl [of p] pt by (metis not_Some_eq option.inject prod_cases3)
  have "f \<notin> load_frames (loads s)" using nl by (simp add: load_frames_iff)
  then show c: "pin_count (frame_at (pool s) f) = size (pins_on f s)"
    using pool_invD(8) [OF assms(1)] page_frames(1) [OF assms(1) pt] by (auto simp: pin_ok_def)
  then show pos: "pin_count (frame_at (pool s) f) > 0" using on by (metis empty_iff nonempty_has_size set_mset_empty)
  obtain e where e: "arc_tracked (policy (pool s)) f = Some (p, e)"
    using page_tracked [OF assms(1) pt] by (auto simp: tracked_page_def)
  then have "\<not> e" using pool_invD(6) [OF assms(1)] pos by (cases e) (auto simp: track_ok_def)
  then show "arc_tracked (policy (pool s)) f = Some (p, False)" using e by simp
qed

lemma read_effect:
  assumes inv: "pool_inv dinv stored s" and ld: "loads s p = Some (m, f, False)"
    and d: "dinv d'" "stored d' = stored (disk (pool s))" and bs: "bs = stored (disk (pool s)) p" "length bs = PAGE_SIZE"
    and st': "st' = (pool s)\<lparr>frames := (frames (pool s))[f := (frame_at (pool s) f)\<lparr>frame_data := Some bs\<rparr>], disk := d'\<rparr>"
  shows "pool_inv dinv stored (s\<lparr>pool := st', loads := (loads s)(p \<mapsto> (m, f, True))\<rparr>)"
proof -
  note i = pool_invD [OF inv] and pt = load_entry [OF inv ld] and pf = page_frames [OF inv load_entry [OF inv ld]]
  let ?s = "s\<lparr>pool := st', loads := (loads s)(p \<mapsto> (m, f, True))\<rparr>"
  have fr: "frame_at st' g = (if g = f then (frame_at (pool s) f)\<lparr>frame_data := Some bs\<rparr> else frame_at (pool s) g)" for g
    using st' pf(2) by (simp add: nth_list_update)
  have fl: "num_frames st' = num_frames (pool s)" "page_table st' = page_table (pool s)" "free_frames st' = free_frames (pool s)"
    "policy st' = policy (pool s)" "loading st' = loading (pool s)" "flushing st' = flushing (pool s)" "disk st' = d'"
    "length (frames st') = length (frames (pool s))"
    by (simp_all add: st')
  have "shape_ok ?s" using i(1) ld by (auto simp: shape_ok_def fl)
  moreover have "map_ok ?s" using i(2) by (auto simp: map_ok_def fr fl)
  moreover have "owner_ok ?s" using i(3) by (auto simp: owner_ok_def fr fl)
  moreover have "evict_ok ?s" using i(4) pf(6) by (auto simp: evict_ok_def fr fl)
  moreover have "free_ok ?s" using i(5) pf(4) by (auto simp: free_ok_def fr fl)
  moreover have "track_ok ?s" by (rule track_unchanged [OF i(6)]) (simp_all add: fr fl)
  moreover have "load_ok ?s" using i(7) ld by (auto simp: load_ok_def fr fl)
  moreover have "load_frames (loads ?s) = load_frames (loads s)" using load_frames_same [of "loads s" p m f False m True] ld by simp
  then have "pin_ok ?s" using i(8) unfolding pin_ok_def by (simp add: fr fl)
  moreover have "latch_ok ?s" using i(9) by (auto simp: latch_ok_def)
  moreover have "data_ok ?s" using i(10) bs(2) by (auto simp: data_ok_def fr fl)
  moreover have "dinv (disk st')" using d(1) by (simp add: fl)
  moreover have "clean_ok stored ?s" by (rule clean_frame [OF inv pt]) (simp_all add: fr fl d(2) bs(1))
  ultimately show ?thesis by (simp add: pool_inv_def)
qed

lemma loaded_effect:
  assumes inv: "pool_inv dinv stored s" and ld: "loads s p = Some (m, f, True)"
  shows "pool_inv dinv stored (s\<lparr>pool := (pool s)\<lparr>loading := loading (pool s) - {p}\<rparr>, loads := (loads s)(p := None), pins := add_mset (Want n, f, p) (pins s)\<rparr>)"
proof -
  note i = pool_invD [OF inv] and pt = load_entry [OF inv ld] and pf = page_frames [OF inv load_entry [OF inv ld]]
  let ?s = "s\<lparr>pool := (pool s)\<lparr>loading := loading (pool s) - {p}\<rparr>, loads := (loads s)(p := None), pins := add_mset (Want n, f, p) (pins s)\<rparr>"
  have lf: "load_frames (loads ?s) = load_frames (loads s) - {f}" using load_frames_done [of "loads s" f p m True, OF _ ld] pf(8) by fastforce
  have fl: "f \<in> load_frames (loads s)" using ld by (auto simp: load_frames_iff)
  have "shape_ok ?s" using i(1) by (auto simp: shape_ok_def)
  moreover have "map_ok ?s" using i(2) by (auto simp: map_ok_def)
  moreover have "owner_ok ?s" using i(3) by (auto simp: owner_ok_def)
  moreover have "evict_ok ?s" using i(4) by (auto simp: evict_ok_def)
  moreover have "free_ok ?s" using i(5) by (auto simp: free_ok_def)
  moreover have "track_ok ?s" by (rule track_unchanged [OF i(6)]) simp_all
  moreover have po: "pins_on g ?s = (if g = f then add_mset (Want n, f, p) (pins_on g s) else pins_on g s)" for g by (simp add: pins_on_def)
  have nf: "q \<noteq> p \<Longrightarrow> loads s q \<noteq> Some (m', f, b')" for q m' b' using pf(8) by blast
  have "load_ok ?s" using i(7) nf unfolding load_ok_def po by (auto split: if_splits)
  moreover have "pin_ok ?s" using i(8) fl pt unfolding pin_ok_def lf po by auto
  moreover have "latch_ok ?s" using i(9) by (auto simp: latch_ok_def)
  moreover have "data_ok ?s" using i(10) by (auto simp: data_ok_def)
  moreover have "dinv (disk (pool ?s))" "clean_ok stored ?s" using i(11,12) ld pt by (auto simp: clean_ok_def)
  ultimately show ?thesis by (simp add: pool_inv_def)
qed

lemma repin_effect:
  assumes inv: "pool_inv dinv stored s" and x: "(k, f, p) \<in># pins s" and k: "\<forall>m. k \<noteq> Have m"
    and k': "k' = Have True \<Longrightarrow> holders f s = {#}" "k' = Have False \<Longrightarrow> \<forall>q. (Have True, f, q) \<notin># pins s"
  shows "pool_inv dinv stored (s\<lparr>pins := add_mset (k', f, p) (pins s - {#(k, f, p)#})\<rparr>)"
proof -
  note i = pool_invD [OF inv] and pn = pinned_frame [OF inv x]
  let ?s = "s\<lparr>pins := add_mset (k', f, p) (pins s - {#(k, f, p)#})\<rparr>"
  have sz: "size (pins_on g ?s) = size (pins_on g s)" for g using pn(2,3,4) by (cases "g = f") (simp_all add: size_Diff_singleton)
  have "load_ok ?s" using i(7) pn(5) by (auto simp: load_ok_def)
  moreover have "pin_ok ?s" using i(8) pn(1) unfolding pin_ok_def sz by (auto dest: in_diffD)
  moreover have "latch_ok ?s"
    unfolding latch_ok_def
  proof (intro allI impI)
    fix g q assume "(Have True, g, q) \<in># pins ?s"
    then consider "k' = Have True" "g = f" | "(Have True, g, q) \<in># pins s" by (auto dest: in_diffD)
    then show "size (holders g ?s) = 1"
    proof cases
      case 1
      then show ?thesis using k'(1) k by auto
    next
      case 2
      then have "size (holders g s) = 1" "(Have True, g, q) \<in># holders g s" using i(9) by (auto simp: latch_ok_def holders_def)
      moreover have "\<nexists>m. k' = Have m" if "g = f" using that 2 k' calculation(2) by (metis (full_types) empty_not_add_mset multi_member_split)
      ultimately show ?thesis using k by auto
    qed
  qed
  moreover have "shape_ok ?s" using i(1) by (simp add: shape_ok_def)
  moreover have "map_ok ?s" using i(2) by (simp add: map_ok_def)
  moreover have "owner_ok ?s" using i(3) by (simp add: owner_ok_def)
  moreover have "evict_ok ?s" using i(4) by (simp add: evict_ok_def)
  moreover have "free_ok ?s" using i(5) by (simp add: free_ok_def)
  moreover have "track_ok ?s" using i(6) by (simp add: track_ok_def)
  moreover have "data_ok ?s" using i(10) by (simp add: data_ok_def)
  moreover have "clean_ok stored ?s" "dinv (disk (pool ?s))" using i(11,12) by (simp_all add: clean_ok_def)
  ultimately show ?thesis by (simp add: pool_inv_def)
qed

lemma store_effect:
  assumes inv: "pool_inv dinv stored s" and x: "(k, f, p) \<in># pins s" and bs: "length bs = PAGE_SIZE"
    and st': "st' = (pool s)\<lparr>frames := (frames (pool s))[f := (frame_at (pool s) f)\<lparr>is_dirty := True, frame_data := Some bs\<rparr>]\<rparr>"
  shows "pool_inv dinv stored (s\<lparr>pool := st'\<rparr>)"
proof -
  note i = pool_invD [OF inv] and pn = pinned_frame [OF inv x] and pf = page_frames [OF inv pin_entry [OF inv x]]
  let ?s = "s\<lparr>pool := st'\<rparr>"
  have fr: "frame_at st' g = (if g = f then (frame_at (pool s) f)\<lparr>is_dirty := True, frame_data := Some bs\<rparr> else frame_at (pool s) g)" for g
    using st' pf(2) by (simp add: nth_list_update)
  have fl: "num_frames st' = num_frames (pool s)" "page_table st' = page_table (pool s)" "free_frames st' = free_frames (pool s)"
    "policy st' = policy (pool s)" "loading st' = loading (pool s)" "flushing st' = flushing (pool s)" "disk st' = disk (pool s)"
    "length (frames st') = length (frames (pool s))"
    by (simp_all add: st')
  have "shape_ok ?s" using i(1) by (auto simp: shape_ok_def fl)
  moreover have "map_ok ?s" using i(2) by (auto simp: map_ok_def fr fl)
  moreover have "owner_ok ?s" using i(3) by (auto simp: owner_ok_def fr fl)
  moreover have "evict_ok ?s" using i(4) pf(6) by (auto simp: evict_ok_def fr fl)
  moreover have "free_ok ?s" using i(5) pf(4) by (auto simp: free_ok_def fr fl)
  moreover have "track_ok ?s" by (rule track_unchanged [OF i(6)]) (simp_all add: fr fl)
  moreover have "load_ok ?s" using i(7) pn(5) by (auto simp: load_ok_def fr fl)
  moreover have "pin_ok ?s" using i(8) by (auto simp: pin_ok_def fr fl)
  moreover have "latch_ok ?s" using i(9) by (auto simp: latch_ok_def)
  moreover have "data_ok ?s" using i(10) bs by (auto simp: data_ok_def fr fl)
  moreover have "dinv (disk st')" "clean_ok stored ?s" using i(11,12) by (auto simp: clean_ok_def fr fl)
  ultimately show ?thesis by (simp add: pool_inv_def)
qed

lemma flush_effect:
  assumes inv: "pool_inv dinv stored s" and pt: "page_table (pool s) p = Some f" and dirty: "is_dirty (frame_at (pool s) f)"
    and d: "dinv d'" "stored d' = (stored (disk (pool s)))(p := the (frame_data (frame_at (pool s) f)))"
    and st': "st' = (pool s)\<lparr>frames := (frames (pool s))[f := (frame_at (pool s) f)\<lparr>is_dirty := False\<rparr>], disk := d'\<rparr>"
  shows "pool_inv dinv stored (s\<lparr>pool := st'\<rparr>)"
proof -
  note i = pool_invD [OF inv] and pf = page_frames [OF inv pt]
  let ?s = "s\<lparr>pool := st'\<rparr>"
  have fr: "frame_at st' g = (if g = f then (frame_at (pool s) f)\<lparr>is_dirty := False\<rparr> else frame_at (pool s) g)" for g
    using st' pf(2) by (simp add: nth_list_update)
  have fl: "num_frames st' = num_frames (pool s)" "page_table st' = page_table (pool s)" "free_frames st' = free_frames (pool s)"
    "policy st' = policy (pool s)" "loading st' = loading (pool s)" "flushing st' = flushing (pool s)" "disk st' = d'"
    "length (frames st') = length (frames (pool s))"
    by (simp_all add: st')
  have dt: "frame_data (frame_at (pool s) f) \<noteq> None" using i(10) pf(1,3) by (auto simp: data_ok_def)
  have "shape_ok ?s" using i(1) by (auto simp: shape_ok_def fl)
  moreover have "map_ok ?s" using i(2) by (auto simp: map_ok_def fr fl)
  moreover have "owner_ok ?s" using i(3) by (auto simp: owner_ok_def fr fl)
  moreover have "evict_ok ?s" using i(4) pf(6) by (auto simp: evict_ok_def fr fl)
  moreover have "free_ok ?s" using i(5) pf(4) by (auto simp: free_ok_def fr fl)
  moreover have "track_ok ?s" by (rule track_unchanged [OF i(6)]) (simp_all add: fr fl)
  moreover have "load_ok ?s" using i(7) by (auto simp: load_ok_def fr fl)
  moreover have "pin_ok ?s" using i(8) by (auto simp: pin_ok_def fr fl)
  moreover have "latch_ok ?s" using i(9) by (auto simp: latch_ok_def)
  moreover have "data_ok ?s" using i(10) by (auto simp: data_ok_def fr fl)
  moreover have "dinv (disk st')" using d(1) by (simp add: fl)
  moreover have "clean_ok stored ?s" by (rule clean_frame [OF inv pt]) (use dt in \<open>simp_all add: fr fl d(2)\<close>)
  ultimately show ?thesis by (simp add: pool_inv_def)
qed

lemma unpin_effect:
  assumes inv: "pool_inv dinv stored s" and x: "(k, f, p) \<in># pins s" and b: "b \<Longrightarrow> pin_count (frame_at (pool s) f) = 1"
    and r': "arc_inv r'" "replacer_size r' = num_frames (pool s)" "arc_tracked r' = (arc_tracked (policy (pool s)))(f \<mapsto> (p, b))"
    and st': "st' = (pool s)\<lparr>frames := (frames (pool s))[f := (frame_at (pool s) f)\<lparr>pin_count := pin_count (frame_at (pool s) f) - 1\<rparr>], policy := r'\<rparr>"
  shows "pool_inv dinv stored (s\<lparr>pool := st', pins := pins s - {#(k, f, p)#}\<rparr>)"
proof -
  note i = pool_invD [OF inv] and pn = pinned_frame [OF inv x] and pf = page_frames [OF inv pin_entry [OF inv x]]
  let ?s = "s\<lparr>pool := st', pins := pins s - {#(k, f, p)#}\<rparr>"
  have fr: "frame_at st' g = (if g = f then (frame_at (pool s) f)\<lparr>pin_count := pin_count (frame_at (pool s) f) - 1\<rparr> else frame_at (pool s) g)" for g
    using st' pf(2) by (simp add: nth_list_update)
  have fl: "num_frames st' = num_frames (pool s)" "page_table st' = page_table (pool s)" "free_frames st' = free_frames (pool s)"
    "policy st' = r'" "loading st' = loading (pool s)" "flushing st' = flushing (pool s)" "disk st' = disk (pool s)"
    "length (frames st') = length (frames (pool s))"
    by (simp_all add: st')
  have sz: "size (pins_on g ?s) = (if g = f then size (pins_on g s) - 1 else size (pins_on g s))" for g
    using pn(2) pins_on_simps(8) [of g "s\<lparr>pool := st'\<rparr>" k f p] by (simp add: size_Diff_singleton)
  have "shape_ok ?s" using i(1) r' by (auto simp: shape_ok_def fl)
  moreover have "map_ok ?s" using i(2) by (auto simp: map_ok_def fr fl)
  moreover have "owner_ok ?s" using i(3) by (auto simp: owner_ok_def fr fl)
  moreover have "evict_ok ?s" using i(4) pf(6) by (auto simp: evict_ok_def fr fl)
  moreover have "free_ok ?s" using i(5) pf(4) by (auto simp: free_ok_def fr fl)
  moreover have "track_ok ?s" by (rule track_same [OF i(6) page_tracked [OF inv pn(1)] r'(3)]) (use b in \<open>simp_all add: fr fl\<close>)
  moreover have "load_ok ?s" using i(7) pn(5) pins_on_simps(8) [of _ "s\<lparr>pool := st'\<rparr>" k f p] by (auto simp: load_ok_def fr fl)
  moreover have "pin_ok ?s" using i(8) pn(3,5) unfolding pin_ok_def sz by (auto simp: fr fl load_frames_iff dest: in_diffD)
  moreover have "latch_ok ?s"
    unfolding latch_ok_def
  proof (intro allI impI)
    fix g q assume a: "(Have True, g, q) \<in># pins ?s"
    then have "size (holders g s) = 1" using i(9) by (auto simp: latch_ok_def dest: in_diffD)
    moreover have "holders g ?s \<subseteq># holders g s" by (auto simp: holders_def intro: multiset_filter_mono)
    moreover have "(Have True, g, q) \<in># holders g ?s" unfolding holders_def set_mset_filter using a by blast
    ultimately show "size (holders g ?s) = 1" by (metis One_nat_def Suc_leI le_antisym nonempty_has_size size_mset_mono empty_iff set_mset_empty)
  qed
  moreover have "data_ok ?s" using i(10) by (auto simp: data_ok_def fr fl)
  moreover have "dinv (disk st')" "clean_ok stored ?s" using i(11,12) by (auto simp: clean_ok_def fr fl)
  ultimately show ?thesis by (simp add: pool_inv_def)
qed

lemma evictable_effect:
  assumes inv: "pool_inv dinv stored s" and pt: "page_table (pool s) p = Some f" and pc: "pin_count (frame_at (pool s) f) = 0"
    and r': "arc_inv r'" "replacer_size r' = num_frames (pool s)" "arc_tracked r' = (arc_tracked (policy (pool s)))(f \<mapsto> (p, b))"
  shows "pool_inv dinv stored (s\<lparr>pool := (pool s)\<lparr>policy := r'\<rparr>\<rparr>)"
proof -
  note i = pool_invD [OF inv]
  let ?s = "s\<lparr>pool := (pool s)\<lparr>policy := r'\<rparr>\<rparr>"
  have "track_ok ?s" by (rule track_same [OF i(6) page_tracked [OF inv pt] r'(3)]) (simp_all add: pc)
  moreover have "shape_ok ?s" using i(1) r' by (simp add: shape_ok_def)
  moreover have "map_ok ?s" using i(2) by (simp add: map_ok_def)
  moreover have "owner_ok ?s" using i(3) by (simp add: owner_ok_def)
  moreover have "evict_ok ?s" using i(4) by (simp add: evict_ok_def)
  moreover have "free_ok ?s" using i(5) by (simp add: free_ok_def)
  moreover have "load_ok ?s" using i(7) by (simp add: load_ok_def)
  moreover have "pin_ok ?s" using i(8) by (simp add: pin_ok_def)
  moreover have "latch_ok ?s" using i(9) by (simp add: latch_ok_def)
  moreover have "data_ok ?s" using i(10) by (simp add: data_ok_def)
  moreover have "clean_ok stored ?s" "dinv (disk (pool ?s))" using i(11,12) by (simp_all add: clean_ok_def)
  ultimately show ?thesis by (simp add: pool_inv_def)
qed

lemma disk_effect:
  assumes inv: "pool_inv dinv stored s" and pt: "page_table (pool s) q = None" and d: "dinv d'" "\<forall>p. p \<noteq> q \<longrightarrow> stored d' p = stored (disk (pool s)) p"
    and s': "pool s' = (pool s)\<lparr>disk := d', free_pages := fp, next_page_id := np\<rparr>" "loads s' = loads s" "pins s' = pins s" 
      "evicting s' = evicting s \<or> (\<exists>f w w'. evicting s q = Some (f, w) \<and> evicting s' = (evicting s)(q \<mapsto> (f, w')))"
  shows "pool_inv dinv stored s'"
proof -
  note i = pool_invD [OF inv]
  have "pins_on f s' = pins_on f s" "holders f s' = holders f s" for f using s'(3) by (simp_all add: pins_on_def holders_def)
  note eq = this s'(1-3)
  have "p \<noteq> q" if "page_table (pool s) p = Some f" for p f using that pt by auto
  then have "clean_ok stored s'" using i(12) d(2) unfolding clean_ok_def eq by simp
  moreover have "dom (evicting s') = dom (evicting s)" using s'(4) by (elim disjE exE conjE) (simp_all add: insert_absorb domI)
  then have "shape_ok s'" using i(1) by (simp add: shape_ok_def eq)
  moreover have "owner_ok s'" using i(3) s'(4) unfolding owner_ok_def eq by (elim disjE exE conjE) (simp_all, metis option.inject prod.inject)
  moreover have "evict_ok s'" using i(4) s'(4) unfolding evict_ok_def eq by (elim disjE exE conjE) (simp_all, blast)
  moreover have "map_ok s'" using i(2) by (simp add: map_ok_def eq)
  moreover have "free_ok s'" using i(5) by (simp add: free_ok_def eq)
  moreover have "track_ok s'" using i(6) by (simp add: track_ok_def eq)
  moreover have "load_ok s'" using i(7) by (simp add: load_ok_def eq)
  moreover have "pin_ok s'" using i(8) by (simp add: pin_ok_def eq)
  moreover have "latch_ok s'" using i(9) by (simp add: latch_ok_def eq)
  moreover have "data_ok s'" using i(10) by (simp add: data_ok_def eq)
  ultimately show ?thesis using d(1) by (simp add: pool_inv_def eq)
qed

lemma other_effect:
  assumes inv: "pool_inv dinv stored s" and s': "pool s' = (pool s)\<lparr>free_pages := fp, next_page_id := np\<rparr>" "loads s' = loads s" "pins s' = pins s" "evicting s' = evicting s"
  shows "pool_inv dinv stored s'"
proof -
  note i = pool_invD [OF inv]
  have "pins_on f s' = pins_on f s" "holders f s' = holders f s" for f using s'(3) by (simp_all add: pins_on_def holders_def)
  note eq = this s'
  have "shape_ok s'" using i(1) by (simp add: shape_ok_def eq)
  moreover have "map_ok s'" using i(2) by (simp add: map_ok_def eq)
  moreover have "owner_ok s'" using i(3) by (simp add: owner_ok_def eq)
  moreover have "evict_ok s'" using i(4) by (simp add: evict_ok_def eq)
  moreover have "free_ok s'" using i(5) by (simp add: free_ok_def eq)
  moreover have "track_ok s'" using i(6) by (simp add: track_ok_def eq)
  moreover have "load_ok s'" using i(7) by (simp add: load_ok_def eq)
  moreover have "pin_ok s'" using i(8) by (simp add: pin_ok_def eq)
  moreover have "latch_ok s'" using i(9) by (simp add: latch_ok_def eq)
  moreover have "data_ok s'" using i(10) by (simp add: data_ok_def eq)
  moreover have "clean_ok stored s'" "dinv (disk (pool s'))" using i(11,12) by (simp_all add: clean_ok_def eq)
  ultimately show ?thesis by (simp add: pool_inv_def)
qed

end
