(* ===== verification/PoolOutcomes.thy ===== *)
theory PoolOutcomes
  imports PoolEffects
begin

text \<open>
  What the critical sections of the buffer pool do in a state that satisfies the invariant: which outcome they
  have, the state they leave, and that none of their assertions fails.
\<close>

section \<open>Calls into the replacement policy\<close>

lemma pin_frame_outcome:
  "record_access f p (policy st) = Inr r1 \<Longrightarrow> set_evictable f False r1 = Inr r2 \<Longrightarrow>
   pin_frame f p x st = (Inr x, st\<lparr>frames := (frames st)[f := (frame_at st f)\<lparr>pin_count := pin_count (frame_at st f) + 1\<rparr>], policy := r2\<rparr>)"
  by (simp add: pin_frame_def with_policy_def update_frame_def)

lemma pool_policy:
  "pool_inv dinv stored s \<Longrightarrow> arc_inv (policy (pool s))" "pool_inv dinv stored s \<Longrightarrow> replacer_size (policy (pool s)) = num_frames (pool s)"
  by (simp_all add: pool_inv_def shape_ok_def)

lemma page_tracking:
  assumes "pool_inv dinv stored s" "page_table (pool s) p = Some f"
  obtains e where "arc_tracked (policy (pool s)) f = Some (p, e)"
  using page_tracked [OF assms] by (auto simp: tracked_page_def)

lemma page_untracked:
  assumes "pool_inv dinv stored s" "page_table (pool s) p = None"
  shows "\<forall>f e. arc_tracked (policy (pool s)) f \<noteq> Some (p, e)"
proof (intro allI notI)
  fix f e assume "arc_tracked (policy (pool s)) f = Some (p, e)"
  then have "tracked_page (policy (pool s)) f = Some p" by (simp add: tracked_page_def)
  then show False using pool_invD(6) [OF assms(1)] assms(2) by (simp add: track_ok_def)
qed

lemma evictable_page:
  assumes "pool_inv dinv stored s" "arc_tracked (policy (pool s)) f = Some (p, True)"
  shows "page_table (pool s) p = Some f" "pin_count (frame_at (pool s) f) = 0"
proof -
  have "tracked_page (policy (pool s)) f = Some p" using assms(2) by (simp add: tracked_page_def)
  then show "page_table (pool s) p = Some f" "pin_count (frame_at (pool s) f) = 0"
    using pool_invD(6) [OF assms(1)] assms(2) unfolding track_ok_def by blast+
qed

lemma busy_pages:
  assumes "pool_inv dinv stored s"
  shows "p \<in> loading (pool s) \<longleftrightarrow> loads s p \<noteq> None" "p \<in> flushing (pool s) \<longleftrightarrow> evicting s p \<noteq> None"
  using pool_invD(1) [OF assms] by (auto simp: shape_ok_def)

section \<open>Fetching\<close>

lemma section_wait: "p \<in> loading st \<or> p \<in> flushing st \<Longrightarrow> checked_page_section p st = (Inr Wait, st)"
  by (simp add: checked_page_section_def)

lemma section_full:
  "p \<notin> loading st \<Longrightarrow> p \<notin> flushing st \<Longrightarrow> page_table st p = None \<Longrightarrow> free_frames st = [] \<Longrightarrow> checked_page_section p st = (Inr NeedsEviction, st)"
  by (simp add: checked_page_section_def)

lemma section_hit:
  assumes inv: "pool_inv dinv stored s" and p: "p \<notin> loading (pool s)" "p \<notin> flushing (pool s)" and pt: "page_table (pool s) p = Some f"
  obtains r' where "arc_inv r'" "replacer_size r' = num_frames (pool s)" "arc_tracked r' = (arc_tracked (policy (pool s)))(f \<mapsto> (p, False))"
    "checked_page_section p (pool s) = (Inr (Hit f),
       (pool s)\<lparr>frames := (frames (pool s))[f := (frame_at (pool s) f)\<lparr>pin_count := pin_count (frame_at (pool s) f) + 1\<rparr>], policy := r'\<rparr>)"
proof -
  obtain e where "arc_tracked (policy (pool s)) f = Some (p, e)" using page_tracking [OF inv pt] .
  then obtain r1 r2 where r: "record_access f p (policy (pool s)) = Inr r1" "set_evictable f False r1 = Inr r2" "arc_inv r2"
    "replacer_size r2 = replacer_size (policy (pool s))" "arc_tracked r2 = (arc_tracked (policy (pool s)))(f \<mapsto> (p, False))"
    using arc_policy.touch_hit [OF pool_policy(1) [OF inv]] by metis
  show ?thesis
    using p pt pin_frame_outcome [OF r(1,2), of "Hit f"] pool_policy(2) [OF inv] r by (intro that [of r2]) (simp_all add: checked_page_section_def)
qed

lemma section_reserve:
  assumes inv: "pool_inv dinv stored s" and p: "p \<notin> loading (pool s)" "p \<notin> flushing (pool s)" and pt: "page_table (pool s) p = None"
    and f: "free_frames (pool s) \<noteq> []" "f = last (free_frames (pool s))"
  obtains r' where "arc_inv r'" "replacer_size r' = num_frames (pool s)" "arc_tracked r' = (arc_tracked (policy (pool s)))(f \<mapsto> (p, False))"
    "checked_page_section p (pool s) = (Inr (Reserved f),
       (pool s)\<lparr>frames := (frames (pool s))[f := (ensure_data (frame_at (pool s) f))\<lparr>frame_page := Some p, pin_count := 1\<rparr>],
         free_frames := butlast (free_frames (pool s)), page_table := (page_table (pool s))(p \<mapsto> f), loading := insert p (loading (pool s)), policy := r'\<rparr>)"
proof -
  have ff: "f \<in> set (free_frames (pool s))" using f by simp
  note fu = free_unmapped [OF inv ff]
  obtain r1 r2 where r: "record_access f p (policy (pool s)) = Inr r1" "set_evictable f False r1 = Inr r2" "arc_inv r2"
    "replacer_size r2 = replacer_size (policy (pool s))" "arc_tracked r2 = (arc_tracked (policy (pool s)))(f \<mapsto> (p, False))"
    using arc_policy.touch_new [OF pool_policy(1) [OF inv] _ unmapped_frame(4) [OF inv fu(1)] page_untracked [OF inv pt]]
      fu(2) pool_policy(2) [OF inv] by metis
  let ?st = "(update_frame f (\<lambda>fr. (ensure_data fr)\<lparr>frame_page := Some p\<rparr>) (pool s))
    \<lparr>free_frames := butlast (free_frames (pool s)), page_table := (page_table (pool s))(p \<mapsto> f), loading := insert p (loading (pool s))\<rparr>"
  have "pin_count (ensure_data (frame_at (pool s) f)) = 0" using fu(6) by (simp add: ensure_data_def)
  then show ?thesis
    using p pt f fu(3) pin_frame_outcome [of f p ?st r1 r2 "Reserved f"] pool_policy(2) [OF inv] r
    by (intro that [of r2]) (simp_all add: checked_page_section_def update_frame_def Let_def)
qed

section \<open>Evicting\<close>

lemma evict_begin_outcome:
  assumes inv: "pool_inv dinv stored s"
  shows "(evict_one_begin (pool s) = (Inr NoVictim, pool s) \<and> (\<forall>f p. arc_tracked (policy (pool s)) f \<noteq> Some (p, True))) \<or>
    (\<exists>f p r'. page_table (pool s) p = Some f \<and> pin_count (frame_at (pool s) f) = 0 \<and> arc_tracked (policy (pool s)) f = Some (p, True) \<and> arc_inv r' \<and> replacer_size r' = num_frames (pool s) \<and>
       arc_tracked r' = (arc_tracked (policy (pool s)))(f := None) \<and>
       evict_one_begin (pool s) =
         (if is_dirty (frame_at (pool s) f)
          then (Inr (WriteBack f p), (pool s)\<lparr>page_table := (page_table (pool s))(p := None), flushing := insert p (flushing (pool s)), policy := r'\<rparr>)
          else (Inr Recycled, (pool s)\<lparr>frames := (frames (pool s))[f := frame_reset (frame_at (pool s) f)], page_table := (page_table (pool s))(p := None),
            free_frames := free_frames (pool s) @ [f], policy := r'\<rparr>)))"
proof -
  note pp = pool_policy [OF inv]
  from arc_policy.evict_outcome [OF pp(1)] show ?thesis
  proof (elim disjE exE conjE)
    fix f p r' assume r: "arc_evict (policy (pool s)) = Inr (Some f, r')" "arc_tracked (policy (pool s)) f = Some (p, True)" "arc_inv r'"
      "replacer_size r' = replacer_size (policy (pool s))" "arc_tracked r' = (arc_tracked (policy (pool s)))(f := None)"
    note ep = evictable_page [OF inv r(2)]
    note pf = page_frames [OF inv ep(1)]
    show ?thesis
      by (rule disjI2, rule exI [of _ f], rule exI [of _ p], rule exI [of _ r'])
        (use r ep pf(2,3) pp in \<open>simp add: evict_one_begin_def update_frame_def\<close>)
  next
    assume "arc_evict (policy (pool s)) = Inr (None, policy (pool s))" "\<forall>f p. arc_tracked (policy (pool s)) f \<noteq> Some (p, True)"
    then show ?thesis by (intro disjI1) (simp add: evict_one_begin_def)
  qed
qed

lemma evict_end_done:
  "evict_one_end True f p st = (Inr True, st\<lparr>flushing := flushing st - {p}, frames := (frames st)[f := frame_reset (frame_at st f)], free_frames := free_frames st @ [f]\<rparr>)"
  by (simp add: evict_one_end_def update_frame_def)

lemma evict_end_failed:
  assumes inv: "pool_inv dinv stored s" and ev: "evicting s p = Some (f, w)"
  obtains r' where "arc_inv r'" "replacer_size r' = num_frames (pool s)" "arc_tracked r' = (arc_tracked (policy (pool s)))(f \<mapsto> (p, True))"
    "evict_one_end False f p (pool s) = (Inr False, (pool s)\<lparr>flushing := flushing (pool s) - {p}, page_table := (page_table (pool s))(p \<mapsto> f), policy := r'\<rparr>)"
proof -
  note ee = evict_entry [OF inv ev]
  have nm: "page_table (pool s) q \<noteq> Some f" for q using page_frames(6) [OF inv] ev by blast
  obtain r1 r2 where r: "record_access f p (policy (pool s)) = Inr r1" "set_evictable f True r1 = Inr r2" "arc_inv r2"
    "replacer_size r2 = replacer_size (policy (pool s))" "arc_tracked r2 = (arc_tracked (policy (pool s)))(f \<mapsto> (p, True))"
    using arc_policy.touch_new [OF pool_policy(1) [OF inv] _ unmapped_frame(4) [OF inv nm] page_untracked [OF inv ee(3)]]
      ee(1) pool_policy(2) [OF inv] by metis
  then show ?thesis using pool_policy(2) [OF inv] by (intro that [of r2]) (simp_all add: evict_one_end_def with_policy_def)
qed

section \<open>Releasing, flushing and deleting\<close>

lemma same_tracking: "arc_tracked r f = Some x \<Longrightarrow> arc_tracked r = (arc_tracked r)(f \<mapsto> x)"
  by auto

text \<open>The last pin makes the frame evictable; an earlier one leaves the policy alone.\<close>

lemma unpin_outcome:
  assumes inv: "pool_inv dinv stored s" and x: "(k, f, p) \<in># pins s"
  obtains r' where "arc_inv r'" "replacer_size r' = num_frames (pool s)"
    "arc_tracked r' = (arc_tracked (policy (pool s)))(f \<mapsto> (p, pin_count (frame_at (pool s) f) = 1))"
    "unpin_frame f (pool s) = (Inr (), (pool s)\<lparr>frames := (frames (pool s))[f := (frame_at (pool s) f)\<lparr>pin_count := pin_count (frame_at (pool s) f) - 1\<rparr>], policy := r'\<rparr>)"
proof (cases "pin_count (frame_at (pool s) f) = 1")
  case True
  note pn = pinned_frame [OF inv x]
  obtain r' where "set_evictable f True (policy (pool s)) = Inr r'" "arc_inv r'" "replacer_size r' = num_frames (pool s)"
    "arc_tracked r' = (arc_tracked (policy (pool s)))(f \<mapsto> (p, True))"
    using arc_policy.set_ev_tracked [OF pool_policy(1) [OF inv] pn(7), of True] pool_policy(2) [OF inv] by auto
  then show ?thesis using True by (intro that [of r']) (simp_all add: unpin_frame_def update_frame_def with_policy_def)
next
  case False
  note pn = pinned_frame [OF inv x]
  show ?thesis using False pn(4) pool_policy [OF inv] same_tracking [OF pn(7)]
    by (intro that [of "policy (pool s)"]) (cases "pool s", simp_all add: unpin_frame_def update_frame_def)
qed

lemma flush_begin_outcome:
  assumes inv: "pool_inv dinv stored s" and p: "p \<notin> loading (pool s)" and pt: "page_table (pool s) p = Some f"
  obtains r' where "arc_inv r'" "replacer_size r' = num_frames (pool s)" "arc_tracked r' = (arc_tracked (policy (pool s)))(f \<mapsto> (p, False))"
    "flush_page_begin p (pool s) = (Inr (FlushPinned f),
       (pool s)\<lparr>frames := (frames (pool s))[f := (frame_at (pool s) f)\<lparr>pin_count := pin_count (frame_at (pool s) f) + 1\<rparr>], policy := r'\<rparr>)"
proof -
  obtain e where "arc_tracked (policy (pool s)) f = Some (p, e)" using page_tracking [OF inv pt] .
  then obtain r' where "set_evictable f False (policy (pool s)) = Inr r'" "arc_inv r'" "replacer_size r' = num_frames (pool s)"
    "arc_tracked r' = (arc_tracked (policy (pool s)))(f \<mapsto> (p, False))"
    using arc_policy.set_ev_tracked [OF pool_policy(1) [OF inv], of f p e False] pool_policy(2) [OF inv] by auto
  then show ?thesis using p pt page_frames(2) [OF inv pt]
    by (intro that [of r']) (simp_all add: flush_page_begin_def update_frame_def with_policy_def)
qed

lemma flush_unpin_outcome:
  assumes inv: "pool_inv dinv stored s" and x: "(k, f, p) \<in># pins s"
  shows "flush_page_unpin f (pool s) = (Inr (pin_count (frame_at (pool s) f) = 1),
    (pool s)\<lparr>frames := (frames (pool s))[f := (frame_at (pool s) f)\<lparr>pin_count := pin_count (frame_at (pool s) f) - 1\<rparr>], policy := policy (pool s)\<rparr>)"
  using pinned_frame(4) [OF inv x] by (cases "pool s") (simp add: flush_page_unpin_def update_frame_def Let_def)

lemma flush_end_outcome:
  assumes inv: "pool_inv dinv stored s" and r: "flush_page_end f (pool s) = (Inr u, st)"
  shows "st = pool s \<or> (\<exists>p r'. page_table (pool s) p = Some f \<and> pin_count (frame_at (pool s) f) = 0 \<and> arc_inv r' \<and>
    replacer_size r' = num_frames (pool s) \<and> arc_tracked r' = (arc_tracked (policy (pool s)))(f \<mapsto> (p, True)) \<and> st = (pool s)\<lparr>policy := r'\<rparr>)"
proof (cases "pin_count (frame_at (pool s) f) = 0")
  case True
  then obtain r' where r': "set_evictable f True (policy (pool s)) = Inr r'" "st = (pool s)\<lparr>policy := r'\<rparr>"
    using r by (auto simp: flush_page_end_def with_policy_def split: sum.splits)
  then obtain p e where pe: "arc_tracked (policy (pool s)) f = Some (p, e)"
    using arc_policy.set_ev_unknown [of "policy (pool s)" f True] by (cases "arc_tracked (policy (pool s)) f") auto
  then have "tracked_page (policy (pool s)) f = Some p" by (simp add: tracked_page_def)
  then have "page_table (pool s) p = Some f" using pool_invD(6) [OF inv] by (simp add: track_ok_def)
  moreover have "arc_inv r'" "replacer_size r' = num_frames (pool s)" "arc_tracked r' = (arc_tracked (policy (pool s)))(f \<mapsto> (p, True))"
    using arc_policy.set_ev_tracked [OF pool_policy(1) [OF inv] pe, of True] r'(1) pool_policy(2) [OF inv] by auto
  ultimately show ?thesis using True r'(2) by blast
next
  case False
  then show ?thesis using r by (simp add: flush_page_end_def)
qed

lemma delete_begin_outcome:
  assumes inv: "pool_inv dinv stored s" and r: "delete_page_begin p (pool s) = (Inr True, st)"
  shows "(page_table (pool s) p = None \<and> st = pool s) \<or>
    (\<exists>f r'. page_table (pool s) p = Some f \<and> pin_count (frame_at (pool s) f) = 0 \<and> arc_inv r' \<and> replacer_size r' = num_frames (pool s) \<and>
       arc_tracked r' = (arc_tracked (policy (pool s)))(f := None) \<and>
       st = (pool s)\<lparr>frames := (frames (pool s))[f := frame_reset (frame_at (pool s) f)], page_table := (page_table (pool s))(p := None),
         free_frames := free_frames (pool s) @ [f], policy := r'\<rparr>)"
proof (cases "page_table (pool s) p")
  case None
  then show ?thesis using r by (simp add: delete_page_begin_def)
next
  case (Some f)
  have pc: "pin_count (frame_at (pool s) f) = 0" using r Some page_frames(2) [OF inv Some] by (auto simp: delete_page_begin_def split: if_splits)
  obtain r' where r': "arc_remove f (policy (pool s)) = Inr r'"
    using r Some pc page_frames(2) [OF inv Some] by (auto simp: delete_page_begin_def with_policy_def update_frame_def split: sum.splits)
  obtain e where e: "arc_tracked (policy (pool s)) f = Some (p, e)" using page_tracking [OF inv Some] .
  then have "e" using arc_policy.remove_pinned [of "policy (pool s)" f p] r' by (cases e) auto
  then have "arc_inv r'" "replacer_size r' = num_frames (pool s)" "arc_tracked r' = (arc_tracked (policy (pool s)))(f := None)"
    using arc_policy.remove_evictable [OF pool_policy(1) [OF inv], of f p] e r' pool_policy(2) [OF inv] by auto
  moreover have "st = (pool s)\<lparr>frames := (frames (pool s))[f := frame_reset (frame_at (pool s) f)], page_table := (page_table (pool s))(p := None),
         free_frames := free_frames (pool s) @ [f], policy := r'\<rparr>"
    using r Some pc r' page_frames(2) [OF inv Some] by (simp add: delete_page_begin_def with_policy_def update_frame_def)
  ultimately show ?thesis using Some pc by blast
qed

end
