(* ===== verification/PoolRefinement.thy ===== *)
theory PoolRefinement
  imports PoolOutcomes
begin

text \<open>
  The buffer pool refines a page store. Whatever the interleaving of fetches, evictions, write-backs, flushes and
  deletions, the users of the pool see one array of pages: a load returns what was stored last.
\<close>

section \<open>The page store\<close>

text \<open>The contents of the pages; the contents of a page that has been deleted are not specified until it is written.\<close>

type_synonym page_store = "int \<Rightarrow> page_bytes option"

inductive store_step :: "page_store \<Rightarrow> event \<Rightarrow> page_store \<Rightarrow> bool" where
  store_silent: "store_step c Silent c"
| store_load: "c p = None \<or> c p = Some bs \<Longrightarrow> store_step c (Load p bs) c"
| store_store: "store_step c (Store p bs) (c(p \<mapsto> bs))"
| store_discard: "store_step c (Discard p) (c(p := None))"

inductive store_run :: "page_store \<Rightarrow> event list \<Rightarrow> page_store \<Rightarrow> bool" for c0 where
  store_start: "store_run c0 [] c0"
| store_more: "store_run c0 es c \<Longrightarrow> store_step c e c' \<Longrightarrow> store_run c0 (es @ [e]) c'"

section \<open>What a user of the pool sees\<close>

definition seen :: "('d \<Rightarrow> int \<Rightarrow> page_bytes) \<Rightarrow> 'd sys \<Rightarrow> int \<Rightarrow> page_bytes" where
  "seen stored s p =
     (if loads s p \<noteq> None then stored (disk (pool s)) p
      else case page_table (pool s) p of
             Some f \<Rightarrow> the (frame_data (frame_at (pool s) f))
           | None \<Rightarrow> (case evicting s p of
               Some (f, w) \<Rightarrow> the (frame_data (frame_at (pool s) f))
             | None \<Rightarrow> stored (disk (pool s)) p))"

text \<open>A write-back that has succeeded left the contents of the frame on the disk.\<close>

definition synced :: "('d \<Rightarrow> int \<Rightarrow> page_bytes) \<Rightarrow> 'd sys \<Rightarrow> int \<Rightarrow> bool" where
  "synced stored s p \<longleftrightarrow> (\<forall>f. evicting s p = Some (f, Some True) \<longrightarrow> stored (disk (pool s)) p = the (frame_data (frame_at (pool s) f)))"

definition keeps :: "('d \<Rightarrow> int \<Rightarrow> page_bytes) \<Rightarrow> 'd sys \<Rightarrow> 'd sys \<Rightarrow> int \<Rightarrow> bool" where
  "keeps stored s s' p \<longleftrightarrow> (synced stored s p \<longrightarrow> synced stored s' p \<and> seen stored s' p = seen stored s p)"

text \<open>What a step with the given event changes for the users of the pool.\<close>

fun matches :: "('d \<Rightarrow> int \<Rightarrow> page_bytes) \<Rightarrow> event \<Rightarrow> 'd sys \<Rightarrow> 'd sys \<Rightarrow> bool" where
  "matches stored Silent s s' \<longleftrightarrow> (\<forall>q. keeps stored s s' q)"
| "matches stored (Load p bs) s s' \<longleftrightarrow> s' = s \<and> bs = seen stored s p"
| "matches stored (Store p bs) s s' \<longleftrightarrow> seen stored s' p = bs \<and> evicting s' p = None \<and> (\<forall>q. q \<noteq> p \<longrightarrow> keeps stored s s' q)"
| "matches stored (Discard p) s s' \<longleftrightarrow> (\<forall>q. q \<noteq> p \<longrightarrow> keeps stored s s' q)"

text \<open>The contents the page store specifies are the ones the users of the pool see.\<close>

definition agrees :: "('d \<Rightarrow> int \<Rightarrow> page_bytes) \<Rightarrow> page_store \<Rightarrow> 'd sys \<Rightarrow> bool" where
  "agrees stored c s \<longleftrightarrow> (\<forall>p bs. c p = Some bs \<longrightarrow> seen stored s p = bs \<and> synced stored s p)"

lemma owner_unique:
  assumes "pool_inv dinv stored s" "f < num_frames (pool s)" "g < num_frames (pool s)"
    "frame_page (frame_at (pool s) f) = Some p" "frame_page (frame_at (pool s) g) = Some p"
  shows "f = g"
proof -
  have "page_table (pool s) p = Some h \<or> (\<exists>w. evicting s p = Some (h, w))" if "h < num_frames (pool s)" "frame_page (frame_at (pool s) h) = Some p" for h
    using pool_invD(3) [OF assms(1)] that unfolding owner_ok_def by blast
  from this [OF assms(2,4)] this [OF assms(3,5)] show ?thesis using page_frames(5) [OF assms(1), of p] by auto
qed

lemma frame_of_owner:
  assumes inv: "pool_inv dinv stored s" and f: "f < num_frames (pool s)" "frame_page (frame_at (pool s) f) = Some p"
  shows "frame_of (pool s) p = Some f"
proof -
  have len: "length (frames (pool s)) = num_frames (pool s)" using pool_invD(1) [OF inv] by (simp add: shape_ok_def)
  have "frame_page (frame_at (pool s) j) \<noteq> Some p" if "j < f" for j
    using owner_unique [OF inv _ f(1) _ f(2), of j] that f(1) by linarith
  then show ?thesis unfolding frame_of_def find_Some_iff len by (intro exI [of _ f]) (use f in simp)
qed

lemma frame_of_none:
  assumes inv: "pool_inv dinv stored s" and p: "page_table (pool s) p = None" "evicting s p = None"
  shows "frame_of (pool s) p = None"
proof -
  have len: "length (frames (pool s)) = num_frames (pool s)" using pool_invD(1) [OF inv] by (simp add: shape_ok_def)
  show ?thesis
    unfolding frame_of_def find_None_iff len using pool_invD(3) [OF inv] p unfolding owner_ok_def by fastforce
qed

text \<open>The contents of a page, read off the state of the pool alone.\<close>

lemma page_content_seen:
  assumes inv: "pool_inv dinv stored s"
  shows "page_content stored (pool s) p = seen stored s p"
proof (cases "loads s p")
  case None
  then have l: "p \<notin> loading (pool s)" using busy_pages(1) [OF inv] by simp
  consider f where "page_table (pool s) p = Some f" | f w where "page_table (pool s) p = None" "evicting s p = Some (f, w)"
    | "page_table (pool s) p = None" "evicting s p = None" by (cases "page_table (pool s) p"; cases "evicting s p") auto
  then show ?thesis
  proof cases
    case 1
    then show ?thesis using None l frame_of_owner [OF inv page_frames(1,3) [OF inv 1]] by (simp add: page_content_def seen_def)
  next
    case 2
    then show ?thesis using None l frame_of_owner [OF inv evict_entry(1,4) [OF inv 2(2)]] by (simp add: page_content_def seen_def)
  next
    case 3
    then show ?thesis using None l frame_of_none [OF inv 3] by (simp add: page_content_def seen_def)
  qed
next
  case (Some x)
  then have "p \<in> loading (pool s)" using busy_pages(1) [OF inv, of p] by blast
  then show ?thesis using Some by (simp add: page_content_def seen_def)
qed

lemma keeps_same:
  assumes "loads s' p = loads s p" "page_table (pool s') p = page_table (pool s) p" "evicting s' p = evicting s p"
    "stored (disk (pool s')) p = stored (disk (pool s)) p"
    "\<And>f. page_table (pool s) p = Some f \<Longrightarrow> frame_data (frame_at (pool s') f) = frame_data (frame_at (pool s) f)"
    "\<And>f w. evicting s p = Some (f, w) \<Longrightarrow> frame_data (frame_at (pool s') f) = frame_data (frame_at (pool s) f)"
  shows "keeps stored s s' p"
  using assms by (auto simp: keeps_def seen_def synced_def split: option.splits)

lemma keeps_all: "keeps stored s s' p \<Longrightarrow> (\<And>q. q \<noteq> p \<Longrightarrow> keeps stored s s' q) \<Longrightarrow> \<forall>q. keeps stored s s' q"
  by metis

lemma keeps_trans: "keeps stored s t q \<Longrightarrow> keeps stored t s' q \<Longrightarrow> keeps stored s s' q"
  by (simp add: keeps_def)

lemma frame_data_upd:
  "frame_data x = frame_data (frame_at st f) \<Longrightarrow> frame_data ((frames st)[f := x] ! g) = frame_data (frame_at st g)"
  by (cases "f < length (frames st)") (auto simp: nth_list_update list_update_beyond)

text \<open>A resident page that is not being read in; a clean one is on the disk.\<close>

lemma seen_resident: "page_table (pool s) p = Some f \<Longrightarrow> loads s p = None \<Longrightarrow> seen stored s p = the (frame_data (frame_at (pool s) f))"
  by (simp add: seen_def)

lemma seen_clean:
  assumes "pool_inv dinv stored s" "page_table (pool s) p = Some f" "loads s p = None" "\<not> is_dirty (frame_at (pool s) f)"
  shows "stored (disk (pool s)) p = seen stored s p"
  using pool_invD(12) [OF assms(1)] assms(2-4) by (simp add: clean_ok_def seen_def)

lemma synced_idle: "evicting s p = None \<Longrightarrow> synced stored s p"
  by (simp add: synced_def)

lemma recycle_keeps:
  assumes inv: "pool_inv dinv stored s" and pt: "page_table (pool s) p = Some f" and pc: "pin_count (frame_at (pool s) f) = 0"
    and s': "pool s' = (pool s)\<lparr>frames := (frames (pool s))[f := frame_reset (frame_at (pool s) f)], page_table := (page_table (pool s))(p := None),
         free_frames := free_frames (pool s) @ [f], policy := r'\<rparr>" "evicting s' = evicting s" "loads s' = loads s"
    and q: "q \<noteq> p \<or> \<not> is_dirty (frame_at (pool s) f)"
  shows "keeps stored s s' q"
proof (cases "q = p")
  case True
  note un = unpinned_frame(3) [OF inv pt pc]
  have ev: "evicting s' p = None" using page_frames(5) [OF inv pt] by (simp add: s')
  have "seen stored s' p = stored (disk (pool s)) p" using un ev by (simp add: seen_def s')
  moreover have "stored (disk (pool s)) p = seen stored s p" using q True by (intro seen_clean [OF inv pt un]) simp
  ultimately show ?thesis using synced_idle [OF ev] unfolding keeps_def True by simp
next
  case False
  then show ?thesis by (intro keeps_same) (simp_all add: s' frame_data_upd frame_reset_def)
qed

lemma detach_keeps:
  assumes inv: "pool_inv dinv stored s" and pt: "page_table (pool s) p = Some f" and pc: "pin_count (frame_at (pool s) f) = 0"
    and s': "pool s' = (pool s)\<lparr>page_table := (page_table (pool s))(p := None), flushing := insert p (flushing (pool s)), policy := r'\<rparr>"
      "evicting s' = (evicting s)(p \<mapsto> (f, None))" "loads s' = loads s"
  shows "keeps stored s s' q"
proof (cases "q = p")
  case True
  then show ?thesis using unpinned_frame(3) [OF inv pt pc] pt by (simp add: keeps_def seen_def synced_def s')
next
  case False
  then show ?thesis by (intro keeps_same) (simp_all add: s')
qed

lemma reserve_keeps:
  assumes inv: "pool_inv dinv stored s" and p: "page_table (pool s) p = None" "evicting s p = None" "loads s p = None"
    and f: "f \<in> set (free_frames (pool s))"
    and s': "frames (pool s') = (frames (pool s))[f := x]" "page_table (pool s') = (page_table (pool s))(p \<mapsto> f)" "disk (pool s') = disk (pool s)"
      "loads s' = (loads s)(p \<mapsto> y)" "evicting s' = evicting s"
  shows "keeps stored s s' q"
proof (cases "q = p")
  case True
  then show ?thesis using p by (simp add: keeps_def seen_def synced_def s')
next
  case False
  have m: "frame_at (pool s') g = frame_at (pool s) g" if "page_table (pool s) q = Some g" for g
    using free_unmapped(1) [OF inv f] that s'(1) by (metis nth_list_update_neq)
  have e: "frame_at (pool s') g = frame_at (pool s) g" if "evicting s q = Some (g, w)" for g w
    using free_unmapped(4) [OF inv f] that s'(1) by (metis nth_list_update_neq)
  show ?thesis
  proof (rule keeps_same)
    show "frame_data (frame_at (pool s') g) = frame_data (frame_at (pool s) g)" if "page_table (pool s) q = Some g" for g
      by (simp only: m [OF that])
    show "frame_data (frame_at (pool s') g) = frame_data (frame_at (pool s) g)" if "evicting s q = Some (g, w)" for g w
      by (simp only: e [OF that])
  qed (use False in \<open>simp_all add: s'(2-5)\<close>)
qed

section \<open>The steps\<close>

context block_device
begin

lemma frame_contents:
  assumes "pool_inv dinv stored s" "f < num_frames (pool s)" "frame_page (frame_at (pool s) f) = Some p"
  obtains bs where "frame_data (frame_at (pool s) f) = Some bs" "length bs = PAGE_SIZE"
  using pool_invD(10) [OF assms(1)] assms(2,3) by (auto simp: data_ok_def)

lemma section_step:
  assumes inv: "pool_inv dinv stored s" and r: "checked_page_section p (pool s) = (Inr x, st)"
  shows "x = Hit f \<Longrightarrow> s' = s\<lparr>pool := st, pins := add_mset (Want m, f, p) (pins s)\<rparr> \<Longrightarrow> pool_inv dinv stored s' \<and> (\<forall>q. keeps stored s s' q)"
    "x = Reserved f \<Longrightarrow> s' = s\<lparr>pool := st, loads := (loads s)(p \<mapsto> (m, f, False))\<rparr> \<Longrightarrow> pool_inv dinv stored s' \<and> (\<forall>q. keeps stored s s' q)"
    "x = NeedsEviction \<Longrightarrow> st = pool s"
proof -
  have free: "p \<notin> loading (pool s)" "p \<notin> flushing (pool s)" if "x \<noteq> Wait"
    using r section_wait [of p "pool s"] that by auto
  then have idle: "loads s p = None" "evicting s p = None" if "x \<noteq> Wait" using busy_pages [OF inv, of p] that by blast+
  have cs: "(\<exists>g. x = Hit g \<and> page_table (pool s) p = Some g) \<or>
    (x = Reserved (last (free_frames (pool s))) \<and> page_table (pool s) p = None \<and> free_frames (pool s) \<noteq> []) \<or>
    (x = NeedsEviction \<and> st = pool s)" if w: "x \<noteq> Wait"
  proof (cases "page_table (pool s) p")
    case None
    then show ?thesis
      using section_reserve [OF inv free [OF w] None _ refl] section_full [OF free [OF w] None] r
      by (cases "free_frames (pool s) = []") (fastforce, metis Pair_inject sum.inject(2))
  next
    case (Some g)
    then show ?thesis using section_hit [OF inv free [OF w] Some] r by (metis Pair_inject sum.inject(2))
  qed
  show "st = pool s" if "x = NeedsEviction" using cs that by auto
  show "pool_inv dinv stored s' \<and> (\<forall>q. keeps stored s s' q)"
    if x: "x = Hit f" and s': "s' = s\<lparr>pool := st, pins := add_mset (Want m, f, p) (pins s)\<rparr>"
  proof -
    have w: "x \<noteq> Wait" and pt: "page_table (pool s) p = Some f" using x cs by auto
    obtain r' where r': "arc_inv r'" "replacer_size r' = num_frames (pool s)" "arc_tracked r' = (arc_tracked (policy (pool s)))(f \<mapsto> (p, False))"
      and st: "st = (pool s)\<lparr>frames := (frames (pool s))[f := (frame_at (pool s) f)\<lparr>pin_count := pin_count (frame_at (pool s) f) + 1\<rparr>], policy := r'\<rparr>"
      using section_hit [OF inv free [OF w] pt] r by (metis Pair_inject)
    have "keeps stored s s' q" for q by (rule keeps_same) (simp_all add: s' st frame_data_upd)
    then show ?thesis using pin_effect [OF inv pt idle(1) [OF w] r', of "Want m"] st s' by simp
  qed
  show "pool_inv dinv stored s' \<and> (\<forall>q. keeps stored s s' q)"
    if x: "x = Reserved f" and s': "s' = s\<lparr>pool := st, loads := (loads s)(p \<mapsto> (m, f, False))\<rparr>"
  proof -
    have w: "x \<noteq> Wait" and pt: "page_table (pool s) p = None" and fr: "free_frames (pool s) \<noteq> []" "f = last (free_frames (pool s))" using x cs by auto
    obtain r' where r': "arc_inv r'" "replacer_size r' = num_frames (pool s)" "arc_tracked r' = (arc_tracked (policy (pool s)))(f \<mapsto> (p, False))"
      and st: "st = (pool s)\<lparr>frames := (frames (pool s))[f := (ensure_data (frame_at (pool s) f))\<lparr>frame_page := Some p, pin_count := 1\<rparr>],
         free_frames := butlast (free_frames (pool s)), page_table := (page_table (pool s))(p \<mapsto> f), loading := insert p (loading (pool s)), policy := r'\<rparr>"
      using section_reserve [OF inv free [OF w] pt fr] r by (metis Pair_inject)
    have "keeps stored s s' q" for q by (rule reserve_keeps [OF inv pt idle(2,1) [OF w], of f]) (use fr in \<open>simp_all add: s' st\<close>)
    then show ?thesis using reserve_effect [OF inv fr pt idle [OF w] r' st, of m] s' by simp
  qed
qed

lemma evict_begin_write_back:
  assumes inv: "pool_inv dinv stored s" and e: "evict_one_begin (pool s) = (Inr (WriteBack f p), st)"
  shows "\<exists>r'. page_table (pool s) p = Some f \<and> pin_count (frame_at (pool s) f) = 0 \<and> is_dirty (frame_at (pool s) f) \<and> arc_inv r' \<and>
    replacer_size r' = num_frames (pool s) \<and> arc_tracked r' = (arc_tracked (policy (pool s)))(f := None) \<and>
    st = (pool s)\<lparr>page_table := (page_table (pool s))(p := None), flushing := insert p (flushing (pool s)), policy := r'\<rparr>"
  using evict_begin_outcome [OF inv]
proof (elim disjE exE conjE)
  fix g q r' assume o: "page_table (pool s) q = Some g" "pin_count (frame_at (pool s) g) = 0" "arc_inv r'" "replacer_size r' = num_frames (pool s)"
    "arc_tracked r' = (arc_tracked (policy (pool s)))(g := None)"
    and eq: "evict_one_begin (pool s) =
         (if is_dirty (frame_at (pool s) g)
          then (Inr (WriteBack g q), (pool s)\<lparr>page_table := (page_table (pool s))(q := None), flushing := insert q (flushing (pool s)), policy := r'\<rparr>)
          else (Inr Recycled, (pool s)\<lparr>frames := (frames (pool s))[g := frame_reset (frame_at (pool s) g)], page_table := (page_table (pool s))(q := None),
            free_frames := free_frames (pool s) @ [g], policy := r'\<rparr>))"
  have "is_dirty (frame_at (pool s) g)" "g = f" "q = p"
    "st = (pool s)\<lparr>page_table := (page_table (pool s))(q := None), flushing := insert q (flushing (pool s)), policy := r'\<rparr>"
    using eq unfolding e by (auto split: if_splits)
  then show ?thesis using o by blast
qed (use e in simp)

lemma evict_begin_step:
  assumes inv: "pool_inv dinv stored s"
  shows "evict_one_begin (pool s) = (Inr Recycled, st) \<Longrightarrow> s' = s\<lparr>pool := st\<rparr> \<Longrightarrow> pool_inv dinv stored s' \<and> (\<forall>q. keeps stored s s' q)"
    "evict_one_begin (pool s) = (Inr (WriteBack f p), st) \<Longrightarrow> s' = s\<lparr>pool := st, evicting := (evicting s)(p \<mapsto> (f, None))\<rparr> \<Longrightarrow>
       pool_inv dinv stored s' \<and> (\<forall>q. keeps stored s s' q)"
proof -
  assume e: "evict_one_begin (pool s) = (Inr Recycled, st)" and s': "s' = s\<lparr>pool := st\<rparr>"
  obtain g q r' where o: "page_table (pool s) q = Some g" "pin_count (frame_at (pool s) g) = 0" "arc_inv r'" "replacer_size r' = num_frames (pool s)"
    "arc_tracked r' = (arc_tracked (policy (pool s)))(g := None)" "\<not> is_dirty (frame_at (pool s) g)"
    and st: "st = (pool s)\<lparr>frames := (frames (pool s))[g := frame_reset (frame_at (pool s) g)], page_table := (page_table (pool s))(q := None),
            free_frames := free_frames (pool s) @ [g], policy := r'\<rparr>"
    using evict_begin_outcome [OF inv] e by (auto split: if_splits)
  have "keeps stored s s' q'" for q' by (rule recycle_keeps [OF inv o(1,2), where r' = r']) (use o(6) in \<open>simp_all add: s' st\<close>)
  moreover have "pool_inv dinv stored s'" unfolding s' by (rule recycle_effect [OF inv o(1-5) st])
  ultimately show "pool_inv dinv stored s' \<and> (\<forall>q. keeps stored s s' q)" by blast
next
  assume e: "evict_one_begin (pool s) = (Inr (WriteBack f p), st)" and s': "s' = s\<lparr>pool := st, evicting := (evicting s)(p \<mapsto> (f, None))\<rparr>"
  obtain r' where o: "page_table (pool s) p = Some f" "pin_count (frame_at (pool s) f) = 0" "is_dirty (frame_at (pool s) f)" "arc_inv r'" "replacer_size r' = num_frames (pool s)"
    "arc_tracked r' = (arc_tracked (policy (pool s)))(f := None)"
    and st: "st = (pool s)\<lparr>page_table := (page_table (pool s))(p := None), flushing := insert p (flushing (pool s)), policy := r'\<rparr>"
    using evict_begin_write_back [OF inv e] by blast
  have "keeps stored s s' q" for q by (rule detach_keeps [OF inv o(1,2), where r' = r']) (simp_all add: s' st)
  moreover have "pool_inv dinv stored s'" unfolding s' by (rule detach_effect [OF inv o st])
  ultimately show "pool_inv dinv stored s' \<and> (\<forall>q. keeps stored s s' q)" by blast
qed

lemma evict_write_step:
  assumes inv: "pool_inv dinv stored s" and ev: "evicting s p = Some (f, None)" and r: "evict_one_write dm f p (pool s) = (ok, st)"
    and s': "s' = s\<lparr>pool := st, evicting := (evicting s)(p \<mapsto> (f, Some ok))\<rparr>"
  shows "pool_inv dinv stored s' \<and> (\<forall>q. keeps stored s s' q)"
proof -
  note ee = evict_entry [OF inv ev] and i = pool_invD [OF inv]
  obtain bs where bs: "frame_data (frame_at (pool s) f) = Some bs" "length bs = PAGE_SIZE" using frame_contents [OF inv ee(1,4)] .
  obtain d' where w: "dm_write dm p bs (disk (pool s)) = (ok, d')" and st: "st = (pool s)\<lparr>disk := d'\<rparr>"
    using r bs(1) by (auto simp: evict_one_write_def split: prod.splits)
  note wo = write_others [OF i(11) bs(2) w]
  have sy: "ok \<Longrightarrow> stored d' p = bs" using write_ok [OF i(11) bs(2), of p d'] w by auto
  have "pool_inv dinv stored s'"
    by (rule disk_effect [OF inv ee(3), where d' = d' and fp = "free_pages (pool s)" and np = "next_page_id (pool s)"]) (use wo ev in \<open>auto simp: s' st\<close>)
  moreover have "keeps stored s s' p" using ee(3,8) ev bs(1) sy by (auto simp: keeps_def seen_def synced_def s' st)
  moreover have "keeps stored s s' q" if "q \<noteq> p" for q by (rule keeps_same) (use wo that in \<open>simp_all add: s' st\<close>)
  ultimately show ?thesis using keeps_all by metis
qed

lemma evict_end_step:
  assumes inv: "pool_inv dinv stored s" and ev: "evicting s p = Some (f, Some ok)" and r: "evict_one_end ok f p (pool s) = (Inr b, st)"
    and s': "s' = s\<lparr>pool := st, evicting := (evicting s)(p := None)\<rparr>"
  shows "pool_inv dinv stored s' \<and> (\<forall>q. keeps stored s s' q)"
proof -
  note ee = evict_entry [OF inv ev]
  show ?thesis
  proof (cases ok)
    case True
    have st: "st = (pool s)\<lparr>flushing := flushing (pool s) - {p}, frames := (frames (pool s))[f := frame_reset (frame_at (pool s) f)], free_frames := free_frames (pool s) @ [f]\<rparr>"
      using r True evict_end_done [of f p "pool s"] by simp
    have "keeps stored s s' p" using ee(3,8) ev True by (auto simp: keeps_def seen_def synced_def s' st)
    moreover have "keeps stored s s' q" if "q \<noteq> p" for q by (rule keeps_same) (use that in \<open>simp_all add: s' st frame_data_upd frame_reset_def\<close>)
    moreover have "pool_inv dinv stored s'" unfolding s' by (rule evict_done_effect [OF inv ev st])
    ultimately show ?thesis using keeps_all by metis
  next
    case False
    then have r2: "evict_one_end False f p (pool s) = (Inr b, st)" using r by simp
    obtain r' where r': "arc_inv r'" "replacer_size r' = num_frames (pool s)" "arc_tracked r' = (arc_tracked (policy (pool s)))(f \<mapsto> (p, True))"
      and st: "st = (pool s)\<lparr>flushing := flushing (pool s) - {p}, page_table := (page_table (pool s))(p \<mapsto> f), policy := r'\<rparr>"
      using evict_end_failed [OF inv ev] r2 by (metis Pair_inject)
    have "keeps stored s s' p" using ee(3,8) ev by (auto simp: keeps_def seen_def synced_def s' st)
    moreover have "keeps stored s s' q" if "q \<noteq> p" for q by (rule keeps_same) (use that in \<open>simp_all add: s' st\<close>)
    moreover have "pool_inv dinv stored s'" unfolding s' by (rule evict_failed_effect [OF inv ev r' st])
    ultimately show ?thesis using keeps_all by metis
  qed
qed

lemma read_step:
  assumes inv: "pool_inv dinv stored s" and ld: "loads s p = Some (m, f, False)" and r: "load_read dm f p (pool s) = (True, st)"
    and s': "s' = s\<lparr>pool := st, loads := (loads s)(p \<mapsto> (m, f, True))\<rparr>"
  shows "pool_inv dinv stored s' \<and> (\<forall>q. keeps stored s s' q)"
proof -
  note i = pool_invD [OF inv] and pt = load_entry [OF inv ld]
  note pf = page_frames [OF inv pt]
  obtain bs where bs: "frame_data (frame_at (pool s) f) = Some bs" "length bs = PAGE_SIZE" using frame_contents [OF inv pf(1,3)] .
  obtain bs' d' where w: "dm_read dm p bs (disk (pool s)) = ((True, bs'), d')"
    and st: "st = (pool s)\<lparr>frames := (frames (pool s))[f := (frame_at (pool s) f)\<lparr>frame_data := Some bs'\<rparr>], disk := d'\<rparr>"
    using r bs(1) by (auto simp: load_read_def update_frame_def split: prod.splits)
  note rk = read_keeps [OF i(11) bs(2) w] and ro = read_ok [OF i(11) bs(2) w]
  have "pool_inv dinv stored s'" unfolding s' by (rule read_effect [OF inv ld _ _ ro _ st]) (use rk in auto)
  moreover have "keeps stored s s' p" using pf(5) rk ld by (simp add: keeps_def seen_def synced_def s' st)
  moreover have "keeps stored s s' q" if q: "q \<noteq> p" for q
  proof -
    have "g \<noteq> f" if "page_table (pool s) q = Some g" for g using pf(7) that q by blast
    moreover have "g \<noteq> f" if "evicting s q = Some (g, w)" for g w using pf(6) that by blast
    ultimately show ?thesis by (intro keeps_same) (use rk q in \<open>auto simp: s' st\<close>)
  qed
  ultimately show ?thesis using keeps_all by metis
qed

lemma loaded_step:
  assumes inv: "pool_inv dinv stored s" and ld: "loads s p = Some (m, f, True)"
    and s': "s' = s\<lparr>pool := load_end p (pool s), loads := (loads s)(p := None), pins := add_mset (Want m, f, p) (pins s)\<rparr>"
  shows "pool_inv dinv stored s' \<and> (\<forall>q. keeps stored s s' q)"
proof -
  note i = pool_invD [OF inv] and pt = load_entry [OF inv ld]
  have "\<not> is_dirty (frame_at (pool s) f)" using i(7) ld unfolding load_ok_def by blast
  then have "frame_data (frame_at (pool s) f) = Some (stored (disk (pool s)) p)" using i(12) pt ld by (simp add: clean_ok_def)
  then have "keeps stored s s' p" using pt ld page_frames(5) [OF inv pt] by (simp add: keeps_def seen_def synced_def s' load_end_def)
  moreover have "keeps stored s s' q" if q: "q \<noteq> p" for q by (rule keeps_same) (use q in \<open>simp_all add: s' load_end_def\<close>)
  moreover have "pool_inv dinv stored s'" using loaded_effect [OF inv ld, of m] by (simp add: s' load_end_def)
  ultimately show ?thesis using keeps_all by metis
qed

lemma flush_write_step:
  assumes inv: "pool_inv dinv stored s" and x: "(k, f, p) \<in># pins s" and r: "flush_frame dm f (pool s) = (True, st)" and s': "s' = s\<lparr>pool := st\<rparr>"
  shows "pool_inv dinv stored s' \<and> (\<forall>q. keeps stored s s' q)"
proof (cases "is_dirty (frame_at (pool s) f)")
  case True
  note i = pool_invD [OF inv] and pn = pinned_frame [OF inv x]
  note pf = page_frames [OF inv pn(1)]
  obtain bs where bs: "frame_data (frame_at (pool s) f) = Some bs" "length bs = PAGE_SIZE" using frame_contents [OF inv pf(1,3)] .
  obtain d' where w: "dm_write dm p bs (disk (pool s)) = (True, d')"
    and st: "st = (pool s)\<lparr>frames := (frames (pool s))[f := (frame_at (pool s) f)\<lparr>is_dirty := False\<rparr>], disk := d'\<rparr>"
    using r bs(1) True pf(3) by (auto simp: flush_frame_def update_frame_def split: prod.splits)
  note wk = write_ok [OF i(11) bs(2) w]
  have "pool_inv dinv stored s'" unfolding s' by (rule flush_effect [OF inv pn(1) True _ _ st]) (use wk bs(1) in simp_all)
  moreover have "keeps stored s s' q" for q
  proof (cases "q = p")
    case True
    then show ?thesis using pn(1,6) pf(5) by (simp add: keeps_def seen_def synced_def s' st frame_data_upd)
  next
    case False
    then show ?thesis using wk by (intro keeps_same) (simp_all add: s' st frame_data_upd)
  qed
  ultimately show ?thesis by blast
next
  case False
  then have "st = pool s" using r by (simp add: flush_frame_def)
  then show ?thesis using inv by (auto simp: s' intro: keeps_same)
qed

lemma unpin_keeps:
  assumes "s' = s\<lparr>pool := (pool s)\<lparr>frames := (frames (pool s))[f := (frame_at (pool s) f)\<lparr>pin_count := n\<rparr>], policy := r'\<rparr>, pins := ps\<rparr>"
  shows "keeps stored s s' q"
  by (rule keeps_same) (simp_all add: assms frame_data_upd)

lemma release_step:
  assumes inv: "pool_inv dinv stored s" and x: "(k, f, p) \<in># pins s" and r: "unpin_frame f (pool s) = (Inr u, st)"
    and s': "s' = s\<lparr>pool := st, pins := pins s - {#(k, f, p)#}\<rparr>"
  shows "pool_inv dinv stored s' \<and> (\<forall>q. keeps stored s s' q)"
proof -
  obtain r' where r': "arc_inv r'" "replacer_size r' = num_frames (pool s)"
      "arc_tracked r' = (arc_tracked (policy (pool s)))(f \<mapsto> (p, pin_count (frame_at (pool s) f) = 1))"
    and st: "st = (pool s)\<lparr>frames := (frames (pool s))[f := (frame_at (pool s) f)\<lparr>pin_count := pin_count (frame_at (pool s) f) - 1\<rparr>], policy := r'\<rparr>"
    using unpin_outcome [OF inv x] r by (metis Pair_inject)
  have "keeps stored s s' q" for q unfolding s' st by (rule unpin_keeps) (rule refl)
  moreover have "pool_inv dinv stored s'" unfolding s' by (rule unpin_effect [OF inv x _ r' st])
  ultimately show ?thesis by blast
qed

lemma flush_unpin_step:
  assumes inv: "pool_inv dinv stored s" and x: "(k, f, p) \<in># pins s" and r: "flush_page_unpin f (pool s) = (Inr l, st)"
    and s': "s' = s\<lparr>pool := st, pins := pins s - {#(k, f, p)#}, tails := t\<rparr>"
  shows "pool_inv dinv stored s' \<and> (\<forall>q. keeps stored s s' q)"
proof -
  note pn = pinned_frame [OF inv x]
  have st: "st = (pool s)\<lparr>frames := (frames (pool s))[f := (frame_at (pool s) f)\<lparr>pin_count := pin_count (frame_at (pool s) f) - 1\<rparr>], policy := policy (pool s)\<rparr>"
    using flush_unpin_outcome [OF inv x] r by simp
  have u: "pool_inv dinv stored (s\<lparr>pool := st, pins := pins s - {#(k, f, p)#}\<rparr>)"
    by (rule unpin_effect [OF inv x _ pool_policy [OF inv] same_tracking [OF pn(7)] st]) simp
  have "pool_inv dinv stored s'"
    by (rule other_effect [OF u, where fp = "free_pages st" and np = "next_page_id st"]) (simp_all add: s')
  moreover have "keeps stored s s' q" for q by (rule keeps_same) (simp_all add: s' st frame_data_upd)
  ultimately show ?thesis by blast
qed

lemma flush_begin_step:
  assumes inv: "pool_inv dinv stored s" and r: "flush_page_begin p (pool s) = (Inr (FlushPinned f), st)"
    and s': "s' = s\<lparr>pool := st, pins := add_mset (FlushWant, f, p) (pins s)\<rparr>"
  shows "pool_inv dinv stored s' \<and> (\<forall>q. keeps stored s s' q)"
proof -
  have p: "p \<notin> loading (pool s)" and pt: "page_table (pool s) p = Some f"
    using r by (auto simp: flush_page_begin_def with_policy_def split: if_splits option.splits sum.splits)
  have nl: "loads s p = None" using busy_pages(1) [OF inv, of p] p by blast
  obtain r' where r': "arc_inv r'" "replacer_size r' = num_frames (pool s)" "arc_tracked r' = (arc_tracked (policy (pool s)))(f \<mapsto> (p, False))"
    and st: "st = (pool s)\<lparr>frames := (frames (pool s))[f := (frame_at (pool s) f)\<lparr>pin_count := pin_count (frame_at (pool s) f) + 1\<rparr>], policy := r'\<rparr>"
    using flush_begin_outcome [OF inv p pt] r by (metis Pair_inject)
  have "pool_inv dinv stored s'" unfolding s' by (rule pin_effect [OF inv pt nl r' _ st]) simp
  moreover have "keeps stored s s' q" for q unfolding s' st by (rule unpin_keeps) (rule refl)
  ultimately show ?thesis by blast
qed

lemma flush_end_step:
  assumes inv: "pool_inv dinv stored s" and r: "flush_page_end f (pool s) = (Inr u, st)" and s': "s' = s\<lparr>pool := st, tails := t\<rparr>"
  shows "pool_inv dinv stored s' \<and> (\<forall>q. keeps stored s s' q)"
proof -
  have i: "pool_inv dinv stored (s\<lparr>pool := st\<rparr>)" and pl: "\<exists>r'. st = (pool s)\<lparr>policy := r'\<rparr>"
    using flush_end_outcome [OF inv r] inv evictable_effect [OF inv] by (auto intro: exI [of _ "policy (pool s)"])
  have "pool_inv dinv stored s'" by (rule other_effect [OF i, where fp = "free_pages st" and np = "next_page_id st"]) (simp_all add: s')
  moreover have "keeps stored s s' q" for q by (rule keeps_same) (use pl in \<open>auto simp: s'\<close>)
  ultimately show ?thesis by blast
qed

lemma delete_step:
  assumes inv: "pool_inv dinv stored s" and r: "delete_page_begin p (pool s) = (Inr True, st)" and s': "s' = s\<lparr>pool := st, deleting := ds\<rparr>"
  shows "pool_inv dinv stored s' \<and> (\<forall>q. q \<noteq> p \<longrightarrow> keeps stored s s' q)"
proof -
  have "pool_inv dinv stored (s\<lparr>pool := st\<rparr>) \<and> (\<forall>q. q \<noteq> p \<longrightarrow> keeps stored s s' q)"
    using delete_begin_outcome [OF inv r]
  proof (elim disjE exE conjE)
    assume "st = pool s"
    then show ?thesis using inv by (auto simp: s' intro: keeps_same)
  next
    fix f r' assume o: "page_table (pool s) p = Some f" "pin_count (frame_at (pool s) f) = 0" "arc_inv r'" "replacer_size r' = num_frames (pool s)"
       "arc_tracked r' = (arc_tracked (policy (pool s)))(f := None)"
      and st: "st = (pool s)\<lparr>frames := (frames (pool s))[f := frame_reset (frame_at (pool s) f)], page_table := (page_table (pool s))(p := None),
         free_frames := free_frames (pool s) @ [f], policy := r'\<rparr>"
    have "keeps stored s s' q" if "q \<noteq> p" for q by (rule recycle_keeps [OF inv o(1,2), where r' = r']) (use that in \<open>simp_all add: s' st\<close>)
    moreover have "pool_inv dinv stored (s\<lparr>pool := st\<rparr>)" by (rule recycle_effect [OF inv o st])
    ultimately show ?thesis by blast
  qed
  then show ?thesis using other_effect [where s = "s\<lparr>pool := st\<rparr>" and s' = s' and fp = "free_pages st" and np = "next_page_id st"] by (simp add: s')
qed

lemma deleted_step:
  assumes inv: "pool_inv dinv stored s" and pt: "page_table (pool s) p = None" and s': "s' = s\<lparr>pool := delete_page_end dm p (pool s), deleting := ds\<rparr>"
  shows "pool_inv dinv stored s' \<and> (\<forall>q. q \<noteq> p \<longrightarrow> keeps stored s s' q)"
proof -
  note dl = delete_others [OF pool_invD(11) [OF inv], of p]
  have "pool_inv dinv stored s'"
    by (rule disk_effect [OF inv pt, where d' = "dm_delete dm p (disk (pool s))" and fp = "free_pages (pool s) @ [p]" and np = "next_page_id (pool s)"])
      (use dl in \<open>auto simp: s' delete_page_end_def\<close>)
  moreover have "keeps stored s s' q" if "q \<noteq> p" for q by (rule keeps_same) (use dl that in \<open>simp_all add: s' delete_page_end_def\<close>)
  ultimately show ?thesis by blast
qed

lemma step_matches:
  assumes inv: "pool_inv dinv stored s" and st: "pool_step dm s e s'"
  shows "pool_inv dinv stored s' \<and> matches stored e s s'"
  using st
proof cases
  case (step_hit p f st m)
  show ?thesis unfolding step_hit(1,2) matches.simps by (rule section_step(1) [OF inv step_hit(3) refl refl])
next
  case (step_reserve p f st m)
  show ?thesis unfolding step_reserve(1,2) matches.simps by (rule section_step(2) [OF inv step_reserve(3) refl refl])
next
  case (step_recycle p st1 st)
  then have "evict_one_begin (pool s) = (Inr Recycled, st)" using section_step(3) [OF inv step_recycle(3) refl] by simp
  from evict_begin_step(1) [OF inv this refl] show ?thesis unfolding step_recycle(1,2) matches.simps .
next
  case (step_detach p st1 f q st)
  then have "evict_one_begin (pool s) = (Inr (WriteBack f q), st)" using section_step(3) [OF inv step_detach(3) refl] by simp
  from evict_begin_step(2) [OF inv this refl] show ?thesis unfolding step_detach(1,2) matches.simps .
next
  case (step_write_back q f ok st)
  show ?thesis unfolding step_write_back(1,2) matches.simps by (rule evict_write_step [OF inv step_write_back(3,4) refl])
next
  case (step_evict_end q f ok b st)
  show ?thesis unfolding step_evict_end(1,2) matches.simps by (rule evict_end_step [OF inv step_evict_end(3,4) refl])
next
  case (step_read p m f st)
  show ?thesis unfolding step_read(1,2) matches.simps by (rule read_step [OF inv step_read(3,4) refl])
next
  case (step_loaded p m f)
  show ?thesis unfolding step_loaded(1,2) matches.simps by (rule loaded_step [OF inv step_loaded(3) refl])
next
  case (step_latch m f p)
  have "pool_inv dinv stored s'" unfolding step_latch(2)
    by (rule repin_effect [OF inv step_latch(3)]) (use step_latch(4) in \<open>auto split: if_splits\<close>)
  moreover have "keeps stored s s' q" for q by (rule keeps_same) (simp_all add: step_latch(2))
  ultimately show ?thesis unfolding step_latch(1) matches.simps by blast
next
  case (step_store f p bytes)
  note pn = pinned_frame [OF inv step_store(3)]
  note pf = page_frames [OF inv pn(1)]
  have s': "pool s' = (pool s)\<lparr>frames := (frames (pool s))[f := (frame_at (pool s) f)\<lparr>is_dirty := True, frame_data := Some bytes\<rparr>]\<rparr>"
      "s' = s\<lparr>pool := pool s'\<rparr>"
    using step_store(2) by (simp_all add: guard_write_def update_frame_def)
  have "pool_inv dinv stored (s\<lparr>pool := pool s'\<rparr>)" by (rule store_effect [OF inv step_store(3,4) s'(1)])
  moreover have "seen stored s' p = bytes" "evicting s' p = None"
    using pn(1,6) pf(2,5) by (simp_all add: step_store(2) seen_def guard_write_def update_frame_def)
  moreover have "keeps stored s s' q" if q: "q \<noteq> p" for q
  proof (rule keeps_same)
    show "frame_data (frame_at (pool s') g) = frame_data (frame_at (pool s) g)" if "page_table (pool s) q = Some g" for g
      using that q pf(7) s'(1) by (cases "g = f") auto
    show "frame_data (frame_at (pool s') g) = frame_data (frame_at (pool s) g)" if "evicting s q = Some (g, w)" for g w
      using that q pf(6) s'(1) by (cases "g = f") auto
  qed (simp_all add: step_store(2) guard_write_def update_frame_def)
  ultimately show ?thesis using s'(2) unfolding step_store(1) matches.simps by metis
next
  case (step_load m f p)
  then show ?thesis using inv pinned_frame(1,6) [OF inv step_load(3)] by (simp add: seen_def guard_read_def)
next
  case (step_guard_flush f p st)
  show ?thesis unfolding step_guard_flush(1,2) matches.simps by (rule flush_write_step [OF inv step_guard_flush(3,4) refl])
next
  case (step_release k f p m u st)
  show ?thesis unfolding step_release(1,2) matches.simps by (rule release_step [OF inv step_release(3,5) refl])
next
  case (step_flush_begin p f st)
  show ?thesis unfolding step_flush_begin(1,2) matches.simps by (rule flush_begin_step [OF inv step_flush_begin(3) refl])
next
  case (step_flush_write f p st)
  let ?t = "s\<lparr>pins := add_mset (FlushDone, f, p) (pins s - {#(FlushWant, f, p)#})\<rparr>"
  have t: "pool_inv dinv stored ?t" by (rule repin_effect [OF inv step_flush_write(3)]) simp_all
  have k: "keeps stored s ?t q" for q by (rule keeps_same) simp_all
  have s': "s' = ?t\<lparr>pool := st\<rparr>" using step_flush_write(2) by simp
  have f: "pool_inv dinv stored s' \<and> (\<forall>q. keeps stored ?t s' q)"
    unfolding s' by (rule flush_write_step [OF t _ _ refl, of FlushDone f p]) (use step_flush_write(5) in simp_all)
  then show ?thesis unfolding step_flush_write(1) matches.simps using keeps_trans [OF k] by blast
next
  case (step_flush_unpin f p l st)
  show ?thesis unfolding step_flush_unpin(1,2) matches.simps by (rule flush_unpin_step [OF inv step_flush_unpin(3,4) refl])
next
  case (step_flush_end f u st)
  show ?thesis unfolding step_flush_end(1,2) matches.simps by (rule flush_end_step [OF inv step_flush_end(4) refl])
next
  case (step_delete p st)
  show ?thesis unfolding step_delete(1,2) matches.simps by (rule delete_step [OF inv step_delete(3) refl])
next
  case (step_deleted p)
  show ?thesis unfolding step_deleted(1,2) matches.simps by (rule deleted_step [OF inv step_deleted(4) refl])
next
  case (step_new_page p st)
  have st: "\<exists>fp np. st = (pool s)\<lparr>free_pages := fp, next_page_id := np\<rparr>"
    using step_new_page(3) unfolding new_page_def
    by (cases "pool s") (auto split: if_splits)
  then obtain fp np where st: "st = (pool s)\<lparr>free_pages := fp, next_page_id := np\<rparr>" by blast
  have "pool_inv dinv stored s'" by (rule other_effect [OF inv, where fp = fp and np = np]) (simp_all add: step_new_page(2) st)
  moreover have "keeps stored s s' q" for q by (rule keeps_same) (simp_all add: step_new_page(2) st)
  ultimately show ?thesis unfolding step_new_page(1) matches.simps by blast
qed

lemma pool_start_inv: "dinv d \<Longrightarrow> pool_inv dinv stored (sys_start n d next_id)"
  by (auto simp: pool_inv_def pool_inv_defs clean_ok_def sys_start_def pool_new_def frame_new_def arc_inv_init tracked_page_def pins_on_def holders_def load_frames_def)

lemma step_simulates:
  assumes inv: "pool_inv dinv stored s" and ag: "agrees stored c s" and st: "pool_step dm s e s'"
  shows "\<exists>c'. store_step c e c' \<and> agrees stored c' s'"
proof (cases e)
  case Silent
  have "matches stored Silent s s'" using step_matches [OF inv st] unfolding Silent by blast
  then have "agrees stored c s'" using ag unfolding agrees_def matches.simps keeps_def by auto
  then show ?thesis using Silent store_silent by blast
next
  case (Load p bs)
  then have "s' = s" "bs = seen stored s p" using step_matches [OF inv st] by auto
  moreover have "c p = None \<or> c p = Some bs" using ag calculation(2) unfolding agrees_def by (cases "c p") auto
  ultimately show ?thesis using Load ag store_load by blast
next
  case (Store p bs)
  then have "agrees stored (c(p \<mapsto> bs)) s'" using step_matches [OF inv st] ag synced_idle [of s' p stored] by (auto simp: agrees_def keeps_def)
  then show ?thesis using Store store_store by blast
next
  case (Discard p)
  then have "agrees stored (c(p := None)) s'" using step_matches [OF inv st] ag by (auto simp: agrees_def keeps_def)
  then show ?thesis using Discard store_discard by blast
qed

lemma run_inv:
  assumes "dinv d" "pool_run dm (sys_start n d next_id) es s"
  shows "pool_inv dinv stored s"
  using assms(2) by induction (use pool_start_inv [OF assms(1)] step_matches in blast)+

lemma run_refines:
  assumes "dinv d" "pool_run dm (sys_start n d next_id) es s"
  shows "\<exists>c. store_run (\<lambda>p. Some (stored d p)) es c \<and> agrees stored c s"
  using assms(2)
proof induction
  case pool_start
  have "agrees stored (\<lambda>p. Some (stored d p)) (sys_start n d next_id)"
    by (simp add: agrees_def seen_def synced_def sys_start_def pool_new_def)
  then show ?case using store_start by blast
next
  case (pool_more es s e s')
  then show ?case using step_simulates [OF run_inv [OF assms(1) pool_more.hyps(1)]] store_more by blast
qed

lemma run_contents:
  assumes "dinv d" "pool_run dm (sys_start n d next_id) es s"
  shows "\<exists>c. store_run (\<lambda>p. Some (stored d p)) es c \<and> (\<forall>p bs. c p = Some bs \<longrightarrow> page_content stored (pool s) p = bs)"
  using run_refines [OF assms] page_content_seen [OF run_inv [OF assms]] by (auto simp: agrees_def)

text \<open>What a guard gives its holder.\<close>

lemma guard_held:
  assumes inv: "pool_inv dinv stored s" and x: "(Have m, f, p) \<in># pins s"
  shows "guard_read f (pool s) = page_content stored (pool s) p" "page_table (pool s) p = Some f"
    "arc_tracked (policy (pool s)) f = Some (p, False)" "m \<Longrightarrow> holders f s = {#(Have m, f, p)#}"
proof -
  note pn = pinned_frame [OF inv x]
  show "page_table (pool s) p = Some f" "arc_tracked (policy (pool s)) f = Some (p, False)" using pn(1,7) by auto
  show "guard_read f (pool s) = page_content stored (pool s) p"
    using pn(1,6) by (simp add: page_content_seen [OF inv] seen_def guard_read_def)
  show "holders f s = {#(Have m, f, p)#}" if m
  proof -
    have "size (holders f s) = 1" using pool_invD(9) [OF inv] x that unfolding latch_ok_def by auto
    moreover have "(Have m, f, p) \<in># holders f s" using x by (simp add: holders_def)
    ultimately show ?thesis using size_1_singleton_mset [of "holders f s"] by fastforce
  qed
qed

end

end
