(* ===== verification/BufferPoolProofs.thy ===== *)
theory BufferPoolProofs
  imports PoolRefinement
begin

text \<open>
  The properties of the buffer pool over the single-file disk manager: it refines a page store, guards exclude
  each other and see the page, the critical sections do not raise, a fetch returns, and two error paths.
\<close>

section \<open>Fetching alone\<close>

context block_device
begin

lemma sections_ok:
  assumes inv: "pool_inv dinv stored s"
  shows "\<exists>x st. checked_page_section p (pool s) = (Inr x, st)" "\<exists>v st. evict_one_begin (pool s) = (Inr v, st)"
    "evicting s p = Some (f, w) \<Longrightarrow> \<exists>b st. evict_one_end ok f p (pool s) = (Inr b, st)"
    "(k, f, p) \<in># pins s \<Longrightarrow> \<exists>st. unpin_frame f (pool s) = (Inr (), st)"
    "\<exists>x st. flush_page_begin p (pool s) = (Inr x, st)"
proof -
  show "\<exists>x st. checked_page_section p (pool s) = (Inr x, st)"
  proof (cases "p \<in> loading (pool s) \<or> p \<in> flushing (pool s)")
    case True
    then show ?thesis using section_wait by blast
  next
    case False
    then have free: "p \<notin> loading (pool s)" "p \<notin> flushing (pool s)" by auto
    consider g where "page_table (pool s) p = Some g" | "page_table (pool s) p = None" "free_frames (pool s) = []"
      | "page_table (pool s) p = None" "free_frames (pool s) \<noteq> []" by (cases "page_table (pool s) p") auto
    then show ?thesis
    proof cases
      case 1
      show ?thesis by (rule section_hit [OF inv free 1]) blast
    next
      case 2
      then show ?thesis using section_full [OF free] by blast
    next
      case 3
      show ?thesis by (rule section_reserve [OF inv free 3 refl]) blast
    qed
  qed
  show "\<exists>v st. evict_one_begin (pool s) = (Inr v, st)" using evict_begin_outcome [OF inv] by (elim disjE exE conjE) (simp_all split: if_splits)
  show "\<exists>b st. evict_one_end ok f p (pool s) = (Inr b, st)" if "evicting s p = Some (f, w)"
  proof (cases ok)
    case False
    show ?thesis by (rule evict_end_failed [OF inv that]) (use False in auto)
  qed (use evict_end_done [of f p "pool s"] in auto)
  show "(k, f, p) \<in># pins s \<Longrightarrow> \<exists>st. unpin_frame f (pool s) = (Inr (), st)" by (erule unpin_outcome [OF inv]) blast
  show "\<exists>x st. flush_page_begin p (pool s) = (Inr x, st)"
  proof (cases "p \<in> loading (pool s) \<or> page_table (pool s) p = None")
    case True
    then show ?thesis by (auto simp: flush_page_begin_def)
  next
    case False
    then obtain g where "p \<notin> loading (pool s)" "page_table (pool s) p = Some g" by auto
    then show ?thesis by (rule flush_begin_outcome [OF inv]) blast
  qed
qed

text \<open>With the page resident or a frame free, the loop of \<^verbatim>\<open>CheckedPage\<close> is over in this round.\<close>

lemma fetch_at_once:
  assumes inv: "pool_inv dinv stored s" and idle: "loads s p = None" "evicting s p = None" and fr: "page_table (pool s) p \<noteq> None \<or> free_frames (pool s) \<noteq> []"
  shows "\<exists>f st. checked_page (dm, p, pool s) = Some (Inr (Some f), st) \<and> page_table st p = Some f \<and> pin_count (frame_at st f) > 0"
proof -
  have free: "p \<notin> loading (pool s)" "p \<notin> flushing (pool s)" using busy_pages [OF inv, of p] idle by simp_all
  show ?thesis
  proof (cases "page_table (pool s) p")
    case None
    then have ff: "free_frames (pool s) \<noteq> []" using fr by simp
    define f where "f = last (free_frames (pool s))"
    have f: "f < length (frames (pool s))" using free_unmapped(3) [OF inv, of f] ff by (simp add: f_def)
    obtain r' where e: "checked_page_section p (pool s) = (Inr (Reserved f),
       (pool s)\<lparr>frames := (frames (pool s))[f := (ensure_data (frame_at (pool s) f))\<lparr>frame_page := Some p, pin_count := 1\<rparr>],
         free_frames := butlast (free_frames (pool s)), page_table := (page_table (pool s))(p \<mapsto> f), loading := insert p (loading (pool s)), policy := r'\<rparr>)"
      by (rule section_reserve [OF inv free None ff f_def]) (rule that)
    define st where "st = snd (checked_page_section p (pool s))"
    have st: "checked_page_section p (pool s) = (Inr (Reserved f), st)" "page_table st p = Some f" "pin_count (frame_at st f) = 1" "f < length (frames st)"
      using f unfolding st_def e by simp_all
    let ?st = "load_end p (snd (load_read dm f p st))"
    have "page_table ?st p = Some f" "pin_count (frame_at ?st f) = 1"
      using st by (simp_all add: load_end_def load_read_def update_frame_def split: prod.splits)
    then show ?thesis using st(1) by (subst checked_page.simps) simp
  next
    case (Some f)
    obtain r' where e: "checked_page_section p (pool s) = (Inr (Hit f),
       (pool s)\<lparr>frames := (frames (pool s))[f := (frame_at (pool s) f)\<lparr>pin_count := pin_count (frame_at (pool s) f) + 1\<rparr>], policy := r'\<rparr>)"
      by (rule section_hit [OF inv free Some]) (rule that)
    then show ?thesis using Some page_frames(2) [OF inv Some] by (subst checked_page.simps) simp
  qed
qed

lemma fetch_after_write_back:
  assumes inv: "pool_inv dinv stored s" and idle: "loads s = Map.empty" "evicting s = Map.empty"
    and pt: "page_table (pool s) p = None" and e: "evict_one_begin (pool s) = (Inr (WriteBack f q), st)"
    and w: "evict_one_write dm f q st = (True, st1)" and d: "evict_one_end True f q st1 = (Inr True, st2)"
  shows "\<exists>g st'. checked_page (dm, p, st2) = Some (Inr (Some g), st') \<and> page_table st' p = Some g \<and> pin_count (frame_at st' g) > 0"
proof -
  let ?s1 = "s\<lparr>pool := st, evicting := (evicting s)(q \<mapsto> (f, None))\<rparr>"
  have i1: "pool_inv dinv stored ?s1" using evict_begin_step(2) [OF inv e refl] by blast
  let ?s2 = "?s1\<lparr>pool := st1, evicting := (evicting ?s1)(q \<mapsto> (f, Some True))\<rparr>"
  have i2: "pool_inv dinv stored ?s2" using evict_write_step [OF i1 _ _ refl, of q f True st1] w by simp
  let ?s3 = "?s2\<lparr>pool := st2, evicting := (evicting ?s2)(q := None)\<rparr>"
  have i3: "pool_inv dinv stored ?s3" using evict_end_step [OF i2 _ _ refl, of q f True True st2] d by simp
  have "free_frames st2 \<noteq> []" using d by (auto simp: evict_end_done)
  then show ?thesis using fetch_at_once [OF i3, of p] idle by simp
qed

lemma fetch_alone:
  assumes inv: "pool_inv dinv stored s" and idle: "loads s = Map.empty" "evicting s = Map.empty"
  shows "\<exists>r st. checked_page (dm, p, pool s) = Some (Inr r, st) \<and>
    (case r of
       Some f \<Rightarrow> page_table st p = Some f \<and> pin_count (frame_at st f) > 0
     | None \<Rightarrow> page_table (pool s) p = None \<and> free_frames (pool s) = [] \<and>
         (arc_size (policy (pool s)) = 0 \<or>
          (\<exists>q f d'. page_table (pool s) q = Some f \<and> dm_write dm q (guard_read f (pool s)) (disk (pool s)) = (False, d'))))"
proof (cases "page_table (pool s) p \<noteq> None \<or> free_frames (pool s) \<noteq> []")
  case True
  then obtain f st where "checked_page (dm, p, pool s) = Some (Inr (Some f), st)" "page_table st p = Some f" "pin_count (frame_at st f) > 0"
    using fetch_at_once [OF inv _ _ True] idle by auto
  then show ?thesis by auto
next
  case False
  then have pt: "page_table (pool s) p = None" and ff: "free_frames (pool s) = []" by auto
  have sec: "checked_page_section p (pool s) = (Inr NeedsEviction, pool s)"
    by (rule section_full) (use busy_pages [OF inv, of p] idle pt ff in simp_all)
  note unroll = checked_page.simps [of "(dm, p, pool s)"] sec
  from evict_begin_outcome [OF inv] show ?thesis
  proof (elim disjE exE conjE)
    assume "evict_one_begin (pool s) = (Inr NoVictim, pool s)" "\<forall>f p. arc_tracked (policy (pool s)) f \<noteq> Some (p, True)"
    then show ?thesis using pt ff arc_policy.count_evictable [OF pool_policy(1) [OF inv]] by (simp add: unroll)
  next
    fix f q r' assume o: "page_table (pool s) q = Some f" "pin_count (frame_at (pool s) f) = 0" "arc_inv r'" "replacer_size r' = num_frames (pool s)"
      "arc_tracked r' = (arc_tracked (policy (pool s)))(f := None)"
      and eq: "evict_one_begin (pool s) =
         (if is_dirty (frame_at (pool s) f)
          then (Inr (WriteBack f q), (pool s)\<lparr>page_table := (page_table (pool s))(q := None), flushing := insert q (flushing (pool s)), policy := r'\<rparr>)
          else (Inr Recycled, (pool s)\<lparr>frames := (frames (pool s))[f := frame_reset (frame_at (pool s) f)], page_table := (page_table (pool s))(q := None),
            free_frames := free_frames (pool s) @ [f], policy := r'\<rparr>))"
    define st where "st = snd (evict_one_begin (pool s))"
    show ?thesis
    proof (cases "is_dirty (frame_at (pool s) f)")
      case True
      then have e: "evict_one_begin (pool s) = (Inr (WriteBack f q), st)" and d: "frames st = frames (pool s)" "disk st = disk (pool s)"
        using eq by (simp_all add: st_def)
      obtain ok st1 where w: "evict_one_write dm f q st = (ok, st1)" by (cases "evict_one_write dm f q st")
      show ?thesis
      proof (cases ok)
        case True
        then obtain st2 where d: "evict_one_end True f q st1 = (Inr True, st2)" by (simp add: evict_end_done)
        then show ?thesis using fetch_after_write_back [OF inv idle pt e _ d] w True by (auto simp: unroll e)
      next
        case False
        let ?s1 = "s\<lparr>pool := st1, evicting := (evicting s)(q \<mapsto> (f, Some False))\<rparr>"
        have i1: "pool_inv dinv stored ?s1"
          using evict_write_step [OF conjunct1 [OF evict_begin_step(2) [OF inv e refl]] _ _ refl, of q f False st1] w False by simp
        have "dm_write dm q (guard_read f (pool s)) (disk (pool s)) = (False, disk st1)"
          using w False d by (auto simp: evict_one_write_def guard_read_def split: prod.splits)
        moreover obtain st2 where "evict_one_end False f q st1 = (Inr False, st2)"
          using evict_end_failed [OF i1, of q f "Some False"] by auto
        ultimately show ?thesis using o(1) pt ff w False by (auto simp: unroll e)
      qed
    next
      case False
      then have e: "evict_one_begin (pool s) = (Inr Recycled, st)" and d: "free_frames st \<noteq> []" using eq by (simp_all add: st_def)
      have "pool_inv dinv stored (s\<lparr>pool := st\<rparr>)" using evict_begin_step(1) [OF inv e refl] by blast
      then obtain g st' where "checked_page (dm, p, st) = Some (Inr (Some g), st')" "page_table st' p = Some g" "pin_count (frame_at st' g) > 0"
        using fetch_at_once [of "s\<lparr>pool := st\<rparr>" p] idle d by auto
      then show ?thesis by (auto simp: unroll e)
    qed
  qed
qed

end

section \<open>A pool of one frame\<close>

text \<open>An empty file that does not fail, and a pool with one frame that holds its page 0.\<close>

definition demo_file :: single_file where
  "demo_file = single_file_open [] []"

definition demo_arc :: "bool \<Rightarrow> bool \<Rightarrow> arc" where
  "demo_arc frequent evictable =
     \<lparr>mru = (if frequent then [] else [0]), mfu = (if frequent then [0] else []), mru_ghost = [], mfu_ghost = [],
      alive_map = [0 \<mapsto> \<lparr>fs_page = 0, fs_frame = 0, fs_evictable = evictable, fs_arc = (if frequent then MFU else MRU)\<rparr>],
      ghost_map = Map.empty, curr_size = (if evictable then 1 else 0), mru_target_size = 0, replacer_size = 1\<rparr>"

definition demo_pool :: "nat \<Rightarrow> bool \<Rightarrow> bool \<Rightarrow> single_file pool" where
  "demo_pool n frequent evictable =
     \<lparr>num_frames = 1, next_page_id = 0, free_pages = [],
      frames = [\<lparr>pin_count = n, is_dirty = False, frame_data = Some zero_page, frame_page = Some 0\<rparr>], page_table = [0 \<mapsto> 0],
      free_frames = [], policy = demo_arc frequent evictable, loading = {}, flushing = {}, disk = demo_file\<rparr>"

definition demo_sys :: "single_file pool \<Rightarrow> (int \<Rightarrow> (bool \<times> nat \<times> bool) option) \<Rightarrow> pin_entry multiset \<Rightarrow> nat multiset \<Rightarrow> single_file sys" where
  "demo_sys st l ps late = \<lparr>pool = st, evicting = Map.empty, loads = l, pins = ps, tails = late, deleting = {#}\<rparr>"

lemma demo_file_ok: "file_inv demo_file" "file_read 0 bs demo_file = ((True, zero_page), demo_file)"
  by (simp_all add: demo_file_def single_file_open_def file_inv_def resize_file_def DEFAULT_DB_IO_SIZE_def file_read_def next_fault_def
      buf_read_def zero_page_def page_consts)

lemmas arc_eval = record_access_def access_hits_def bound_ghosts_def set_evictable_def arc_remove_def arc_replacer_def demo_arc_def
lemmas pool_eval = checked_page_section_def pin_frame_def with_policy_def update_frame_def unpin_frame_def flush_page_begin_def flush_page_unpin_def
  flush_page_end_def delete_page_begin_def load_read_def load_end_def frame_new_def frame_reset_def ensure_data_def pool_new_def flush_frame_def file_manager_def
  demo_pool_def demo_file_ok arc_eval

lemma demo_ops:
  "checked_page_section 0 (pool_new 1 demo_file 0) = (Inr (Reserved 0), (demo_pool 1 False False)\<lparr>loading := {0}\<rparr>)"
  "load_read file_manager 0 0 ((demo_pool 1 False False)\<lparr>loading := {0}\<rparr>) = (True, (demo_pool 1 False False)\<lparr>loading := {0}\<rparr>)"
  "load_end 0 ((demo_pool 1 False False)\<lparr>loading := {0}\<rparr>) = demo_pool 1 False False"
  "unpin_frame 0 (demo_pool 1 fq False) = (Inr (), demo_pool 0 fq True)"
  "flush_page_begin 0 (demo_pool 0 fq True) = (Inr (FlushPinned 0), demo_pool 1 fq False)"
  "flush_frame file_manager 0 (demo_pool 1 fq False) = (True, demo_pool 1 fq False)"
  "flush_page_unpin 0 (demo_pool 1 fq False) = (Inr True, demo_pool 0 fq False)"
  "checked_page_section 0 (demo_pool 0 fq ev) = (Inr (Hit 0), demo_pool 1 True False)"
  by (cases fq; cases ev; simp add: pool_eval)+

lemma pool_snoc: "pool_run dm s0 es s \<Longrightarrow> pool_step dm s e s' \<Longrightarrow> es' = es @ [e] \<Longrightarrow> pool_run dm s0 es' s'"
  using pool_more by blast

lemma demo_steps:
  "pool_step file_manager (sys_start 1 demo_file 0) Silent (demo_sys ((demo_pool 1 False False)\<lparr>loading := {0}\<rparr>) [0 \<mapsto> (True, 0, False)] {#} {#})"
  "pool_step file_manager (demo_sys ((demo_pool 1 False False)\<lparr>loading := {0}\<rparr>) [0 \<mapsto> (True, 0, False)] {#} {#}) Silent
     (demo_sys ((demo_pool 1 False False)\<lparr>loading := {0}\<rparr>) [0 \<mapsto> (True, 0, True)] {#} {#})"
  "pool_step file_manager (demo_sys ((demo_pool 1 False False)\<lparr>loading := {0}\<rparr>) [0 \<mapsto> (True, 0, True)] {#} {#}) Silent
     (demo_sys (demo_pool 1 False False) Map.empty {#(Want True, 0, 0)#} {#})"
  "pool_step file_manager (demo_sys (demo_pool 1 fq False) Map.empty {#(Want True, 0, 0)#} late) Silent
     (demo_sys (demo_pool 1 fq False) Map.empty {#(Have True, 0, 0)#} late)"
  "pool_step file_manager (demo_sys (demo_pool 1 fq False) Map.empty {#(Have True, 0, 0)#} late) Silent
     (demo_sys (demo_pool 0 fq True) Map.empty {#} late)"
  "pool_step file_manager (demo_sys (demo_pool 0 fq True) Map.empty {#} late) Silent
     (demo_sys (demo_pool 1 fq False) Map.empty {#(FlushWant, 0, 0)#} late)"
  "pool_step file_manager (demo_sys (demo_pool 1 fq False) Map.empty {#(FlushWant, 0, 0)#} late) Silent
     (demo_sys (demo_pool 1 fq False) Map.empty {#(FlushDone, 0, 0)#} late)"
  "pool_step file_manager (demo_sys (demo_pool 1 fq False) Map.empty {#(FlushDone, 0, 0)#} late) Silent
     (demo_sys (demo_pool 0 fq False) Map.empty {#} (add_mset 0 late))"
  "pool_step file_manager (demo_sys (demo_pool 0 fq ev) Map.empty {#} late) Silent
     (demo_sys (demo_pool 1 True False) Map.empty {#(Want True, 0, 0)#} late)"
  using step_reserve [of 0 "sys_start 1 demo_file 0" 0 _ file_manager True]
    step_read [of "demo_sys ((demo_pool 1 False False)\<lparr>loading := {0}\<rparr>) [0 \<mapsto> (True, 0, False)] {#} {#}" 0 True 0 file_manager]
    step_loaded [of "demo_sys ((demo_pool 1 False False)\<lparr>loading := {0}\<rparr>) [0 \<mapsto> (True, 0, True)] {#} {#}" 0 True 0 file_manager]
    step_latch [of True 0 0 "demo_sys (demo_pool 1 fq False) Map.empty {#(Want True, 0, 0)#} late" file_manager]
    step_release [of "Have True" 0 0 "demo_sys (demo_pool 1 fq False) Map.empty {#(Have True, 0, 0)#} late" True _ _ file_manager]
    step_flush_begin [of 0 "demo_sys (demo_pool 0 fq True) Map.empty {#} late" 0 _ file_manager]
    step_flush_write [of 0 0 "demo_sys (demo_pool 1 fq False) Map.empty {#(FlushWant, 0, 0)#} late" file_manager]
    step_flush_unpin [of 0 0 "demo_sys (demo_pool 1 fq False) Map.empty {#(FlushDone, 0, 0)#} late" _ _ file_manager]
    step_hit [of 0 "demo_sys (demo_pool 0 fq ev) Map.empty {#} late" 0 _ file_manager True]
  by (simp_all add: demo_sys_def sys_start_def demo_ops [unfolded One_nat_def] holders_def)

lemmas demo_fetch = pool_snoc [OF pool_snoc [OF pool_snoc [OF pool_snoc [OF pool_start demo_steps(1) refl] demo_steps(2) refl] demo_steps(3) refl]
  demo_steps(4) refl, unfolded append.simps]

lemmas demo_race = pool_snoc [OF pool_snoc [OF pool_snoc [OF pool_snoc [OF pool_snoc [OF pool_snoc [OF pool_snoc [OF demo_fetch
  demo_steps(5) refl] demo_steps(6) refl] demo_steps(7) refl] demo_steps(8) refl] demo_steps(9) refl] demo_steps(4) refl] demo_steps(5) refl, unfolded append.simps]

definition demo_bytes :: page_bytes where
  "demo_bytes = replicate PAGE_SIZE 7"

lemma demo_store_load:
  "\<exists>s. pool_run file_manager (sys_start 1 demo_file 0) [Silent, Silent, Silent, Silent, Store 0 demo_bytes, Load 0 demo_bytes] s"
proof -
  let ?s = "demo_sys (demo_pool 1 False False) Map.empty {#(Have True, 0, 0)#} {#}"
  let ?t = "?s\<lparr>pool := guard_write 0 demo_bytes (pool ?s)\<rparr>"
  have st: "pool_step file_manager ?s (Store 0 demo_bytes) ?t" by (rule step_store) (simp_all add: demo_sys_def demo_bytes_def)
  have "pool_step file_manager ?t (Load 0 (guard_read 0 (pool ?t))) ?t" by (rule step_load [of True]) (simp add: demo_sys_def)
  moreover have "guard_read 0 (pool ?t) = demo_bytes" by (simp add: demo_sys_def demo_pool_def guard_read_def guard_write_def update_frame_def)
  ultimately have ld: "pool_step file_manager ?t (Load 0 demo_bytes) ?t" by simp
  have "pool_run file_manager (sys_start 1 demo_file 0) [Silent, Silent, Silent, Silent, Store 0 demo_bytes, Load 0 demo_bytes] ?t"
    by (rule pool_snoc [OF pool_snoc [OF demo_fetch st refl] ld]) simp
  then show ?thesis by (rule exI)
qed

section \<open>Properties\<close>



text \<open>
  (C6) In every reachable state of the pool, a read or write guard reads the contents of its page, its page stays
  in its frame, and the replacement policy may not evict that frame. A write guard is alone: no other guard on the
  frame is held.
\<close>

theorem guards_exclude_and_see_page:
  assumes "file_inv d" "pool_run file_manager (sys_start n d next_id) es s" "(Have exclusive, f, p) \<in># pins s"
  shows "guard_read f (pool s) = page_content (\<lambda>d. page_at (db_file d)) (pool s) p \<and> page_table (pool s) p = Some f \<and>
    arc_tracked (policy (pool s)) f = Some (p, False) \<and> (exclusive \<longrightarrow> holders f s = {#(Have exclusive, f, p)#})"
  using file_device.guard_held [OF file_device.run_inv [OF assms(1,2)] assms(3)] by blast

theorem guards_exclude_and_see_page_witness:
  "holders 0 (demo_sys (demo_pool 1 False False) Map.empty {#(Have True, 0, 0)#} {#}) = {#(Have True, 0, 0)#} \<and>
   page_content (\<lambda>d. page_at (db_file d)) (demo_pool 1 False False) 0 = zero_page"
  using guards_exclude_and_see_page [OF demo_file_ok(1) demo_fetch, of True 0 0]
  by (simp add: demo_sys_def guard_read_def demo_pool_def)

text \<open>
  (C23) In every reachable state no assertion of the fetch, eviction and release paths fails and no call into the
  replacement policy raises: the critical section of a fetch, both halves of an eviction (whatever the outcome of
  the write), the beginning of a flush, and the release of any pin that is held.
\<close>

theorem pool_sections_do_not_raise:
  assumes "file_inv d" "pool_run file_manager (sys_start n d next_id) es s"
  shows "(\<exists>x st. checked_page_section p (pool s) = (Inr x, st)) \<and> (\<exists>v st. evict_one_begin (pool s) = (Inr v, st)) \<and>
    (\<exists>x st. flush_page_begin p (pool s) = (Inr x, st)) \<and>
    (\<forall>f w. evicting s p = Some (f, w) \<longrightarrow> (\<forall>ok. \<exists>b st. evict_one_end ok f p (pool s) = (Inr b, st))) \<and>
    (\<forall>k f. (k, f, p) \<in># pins s \<longrightarrow> (\<exists>st. unpin_frame f (pool s) = (Inr (), st)))"
  using file_device.sections_ok [OF file_device.run_inv [OF assms]] by blast

theorem pool_sections_do_not_raise_witness:
  "\<exists>st. unpin_frame 0 (demo_pool 1 False False) = (Inr (), st)"
proof -
  have "(\<exists>st. unpin_frame 0 (pool (demo_sys (demo_pool 1 False False) Map.empty {#(Have True, 0, 0)#} {#})) = (Inr (), st))"
    by (rule pool_sections_do_not_raise [OF demo_file_ok(1) demo_fetch, THEN conjunct2, THEN conjunct2, THEN conjunct2, THEN conjunct2,
        rule_format, of "Have True" 0 0]) (simp add: demo_sys_def)
  then show ?thesis by (simp add: demo_sys_def)
qed

text \<open>
  (C22) A fetch by one thread while no other is reading or writing back a page returns: the loop of
  \<^verbatim>\<open>CheckedPage\<close> ends. It yields a frame that holds the page and is pinned, or null, and null only when the page
  is not resident, no frame is free, and either no frame is evictable or the write-back of a victim failed.
\<close>

theorem fetch_returns:
  assumes "file_inv d" "pool_run file_manager (sys_start n d next_id) es s" "loads s = Map.empty" "evicting s = Map.empty"
  shows "\<exists>r st. checked_page (file_manager, p, pool s) = Some (Inr r, st) \<and>
    (case r of
       Some f \<Rightarrow> page_table st p = Some f \<and> pin_count (frames st ! f) > 0
     | None \<Rightarrow> page_table (pool s) p = None \<and> free_frames (pool s) = [] \<and>
         (arc_size (policy (pool s)) = 0 \<or>
          (\<exists>q f d'. page_table (pool s) q = Some f \<and> dm_write file_manager q (guard_read f (pool s)) (disk (pool s)) = (False, d'))))"
  using file_device.fetch_alone [OF file_device.run_inv [OF assms(1,2)] assms(3,4)] .

theorem fetch_returns_witness:
  "\<exists>r st. checked_page (file_manager, 1, demo_pool 0 True True) = Some (Inr r, st)"
proof -
  have "loads (demo_sys (demo_pool 0 True True) Map.empty {#} {#0#}) = Map.empty" "evicting (demo_sys (demo_pool 0 True True) Map.empty {#} {#0#}) = Map.empty"
    by (simp_all add: demo_sys_def)
  from fetch_returns [OF demo_file_ok(1) demo_race this, of 1] show ?thesis by (auto simp: demo_sys_def)
qed

text \<open>
  (C27) A flush can raise. \<^verbatim>\<open>FlushPage\<close> drops its pin before it takes the latch again; when in between another
  thread fetches and releases the page and a third one deletes it, the frame has left the replacement policy, and
  the flush ends with the range error of \<^verbatim>\<open>SetEvictable\<close> although the page was written.
\<close>

theorem flush_raises_after_delete:
  "\<exists>es s f. pool_run file_manager (sys_start 1 demo_file 0) es s \<and> f \<in># tails s \<and>
     flush_page_end f (pool s) = (Inl (RangeError ''Frame ID not found''), pool s)"
proof -
  let ?s = "demo_sys (demo_pool 0 True True) Map.empty {#} {#0#}"
  define st where "st = snd (delete_page_begin 0 (demo_pool 0 True True))"
  have "delete_page_begin 0 (demo_pool 0 True True) = (Inr True, st)" by (simp add: st_def pool_eval)
  then have "pool_step file_manager ?s (Discard 0) (?s\<lparr>pool := st, deleting := add_mset 0 (deleting ?s)\<rparr>)"
    by (intro step_delete) (simp add: demo_sys_def)
  note run = pool_more [OF demo_race this]
  have "flush_page_end 0 st = (Inl (RangeError ''Frame ID not found''), st)" by (simp add: st_def pool_eval)
  note raises = this
  show ?thesis by (intro exI conjI, rule run) (use raises in \<open>simp_all add: demo_sys_def\<close>)
qed

text \<open>
  (C28) A flush whose write fails reports success and marks the frame clean, so that the pool will not write the
  page again: \<^verbatim>\<open>FlushPage\<close> and \<^verbatim>\<open>WritePageGuard::Flush\<close> do not look at the outcome of the write.
\<close>

theorem flush_hides_write_failure:
  assumes "p \<notin> loading st" "page_table st p = Some f" "f < length (frames st)" "frame_page (frames st ! f) = Some p" "is_dirty (frames st ! f)"
    "arc_inv (policy st)" "arc_tracked (policy st) f = Some (p, evictable)"
    "dm_write dm p (the (frame_data (frames st ! f))) (disk st) = (False, d')"
  shows "\<exists>st'. flush_page dm p st = (Inr True, st') \<and> disk st' = d' \<and> \<not> is_dirty (frames st' ! f)"
proof -
  obtain r1 where r1: "set_evictable f False (policy st) = Inr r1" "arc_inv r1" "arc_tracked r1 f = Some (p, False)"
    using arc_policy.set_ev_tracked [OF assms(6,7), of False] by auto
  obtain r2 where r2: "set_evictable f True r1 = Inr r2" using arc_policy.set_ev_tracked [OF r1(2,3), of True] by auto
  define st1 where "st1 = st\<lparr>frames := (frames st)[f := (frames st ! f)\<lparr>pin_count := pin_count (frames st ! f) + 1\<rparr>], policy := r1\<rparr>"
  have b: "flush_page_begin p st = (Inr (FlushPinned f), st1)"
    using assms(1-3) r1(1) by (simp add: flush_page_begin_def with_policy_def update_frame_def st1_def)
  define st2 where "st2 = st1\<lparr>frames := (frames st1)[f := (frames st1 ! f)\<lparr>is_dirty := False\<rparr>], disk := d'\<rparr>"
  have w: "flush_frame dm f st1 = (False, st2)" using assms(3-5,8) by (simp add: flush_frame_def update_frame_def st1_def st2_def)
  define st3 where "st3 = st2\<lparr>frames := (frames st2)[f := (frames st2 ! f)\<lparr>pin_count := pin_count (frames st ! f)\<rparr>]\<rparr>"
  have st2: "pin_count (frames st2 ! f) = pin_count (frames st ! f) + 1" using assms(3) by (simp add: st1_def st2_def)
  then have u: "flush_page_unpin f st2 = (Inr (pin_count (frames st ! f) = 0), st3)" by (simp add: flush_page_unpin_def update_frame_def st3_def)
  have st3: "policy st3 = r1" "disk st3 = d'" "\<not> is_dirty (frames st3 ! f)" "pin_count (frames st3 ! f) = pin_count (frames st ! f)"
    using assms(3) by (simp_all add: st1_def st2_def st3_def)
  show ?thesis
  proof (cases "pin_count (frames st ! f) = 0")
    case True
    then have "flush_page_end f st3 = (Inr (), st3\<lparr>policy := r2\<rparr>)" using st3 r2 by (simp add: flush_page_end_def with_policy_def)
    then show ?thesis using b w u st3 True by (simp add: flush_page_def)
  next
    case False
    then show ?thesis using b w u st3 by (simp add: flush_page_def)
  qed
qed

theorem flush_hides_write_failure_witness:
  "\<exists>st'. flush_page file_manager 0 ((demo_pool 0 False True)\<lparr>frames := [\<lparr>pin_count = 0, is_dirty = True, frame_data = Some demo_bytes, frame_page = Some 0\<rparr>],
      disk := single_file_open [] [Some zero_page]\<rparr>) = (Inr True, st') \<and> \<not> is_dirty (frames st' ! 0)"
proof -
  let ?st = "(demo_pool 0 False True)\<lparr>frames := [\<lparr>pin_count = 0, is_dirty = True, frame_data = Some demo_bytes, frame_page = Some 0\<rparr>],
      disk := single_file_open [] [Some zero_page]\<rparr>"
  define d' where "d' = snd (dm_write file_manager 0 demo_bytes (single_file_open [] [Some zero_page]))"
  have a: "arc_inv (demo_arc False True)"
    using file_device.run_inv [OF demo_file_ok(1) pool_snoc [OF demo_fetch demo_steps(5) refl]] by (simp add: pool_inv_def shape_ok_def demo_sys_def demo_pool_def)
  have t: "arc_tracked (demo_arc False True) 0 = Some (0, True)" by (simp add: demo_arc_def arc_tracked_def)
  have w: "dm_write file_manager 0 demo_bytes (single_file_open [] [Some zero_page]) = (False, d')"
    unfolding d'_def by (simp add: file_manager_def file_write_def single_file_open_def ensure_capacity_def next_fault_def DEFAULT_DB_IO_SIZE_def)
  have "\<exists>st'. flush_page file_manager 0 ?st = (Inr True, st') \<and> disk st' = d' \<and> \<not> is_dirty (frames st' ! 0)"
    by (rule flush_hides_write_failure [of 0 ?st 0 True file_manager d']) (simp_all add: demo_pool_def a t w)
  then show ?thesis by blast
qed

end
