(* ===== verification/LogicalType.thy ===== *)
theory LogicalType
  imports Numeric
begin

text \<open>
  The SQL types of \<^verbatim>\<open>type/logical_type.h\<close> and \<^verbatim>\<open>type/logical_type.cpp\<close>: the two enums, the payload
  of the complex types, the constructors and factories, the sizes and names, structural
  equality, the type both operands of an operation are promoted to, and the resolution of a SQL
  type name.  A type is well formed when its physical type is the one its id and payload call for.
\<close>

section \<open>Enums and payload\<close>

datatype physical_type =
    P_TINYINT | P_SMALLINT | P_INTEGER | P_BIGINT
  | P_UTINYINT | P_USMALLINT | P_UINTEGER | P_UBIGINT
  | P_FLOAT | P_DOUBLE | P_STRING | P_STRUCT | P_LIST | P_ARRAY | P_UNKNOWN

datatype logical_type_id =
    BOOLEAN | TINYINT | SMALLINT | INTEGER | BIGINT
  | UTINYINT | USMALLINT | UINTEGER | UBIGINT | HASH | ADDRESS
  | FLOAT | DOUBLE | DECIMAL | STRING | STRUCT | LIST | ARRAY | DATE | TIMESTAMP | UNKNOWN

text \<open>\<open>None\<close> is the null \<^verbatim>\<open>data_\<close> pointer of a scalar type.\<close>

datatype logical_type = LogicalType (ctype: physical_type) (type_id: logical_type_id) (type_data: "extra_data option")
  and extra_data = DecimalTypeData int int | ListTypeData logical_type nat

text \<open>
  \<^verbatim>\<open>operator==\<close> and the two \<^verbatim>\<open>Equals\<close>.  The shortcut for two handles on the same payload object
  answers what the comparison of the contents answers, so it is not a case of its own.
\<close>

fun type_eq :: "logical_type \<Rightarrow> logical_type \<Rightarrow> bool"
  and data_equals :: "extra_data \<Rightarrow> extra_data \<Rightarrow> bool" where
  "type_eq (LogicalType c i d) (LogicalType c' i' d') =
     (if c \<noteq> c' \<or> i \<noteq> i' then False
      else case d of
        None \<Rightarrow> d' = None
      | Some x \<Rightarrow> (case d' of None \<Rightarrow> False | Some y \<Rightarrow> data_equals x y))"
| "data_equals (DecimalTypeData w s) e =
     (case e of DecimalTypeData w' s' \<Rightarrow> w = w' \<and> s = s' | ListTypeData t n \<Rightarrow> False)"
| "data_equals (ListTypeData t n) e =
     (case e of DecimalTypeData w s \<Rightarrow> False | ListTypeData t' n' \<Rightarrow> n = n' \<and> type_eq t t')"

section \<open>Enum helpers\<close>

fun physical_type_of :: "logical_type_id \<Rightarrow> physical_type" where
  "physical_type_of TINYINT = P_TINYINT"
| "physical_type_of SMALLINT = P_SMALLINT"
| "physical_type_of INTEGER = P_INTEGER"
| "physical_type_of DATE = P_INTEGER"
| "physical_type_of BIGINT = P_BIGINT"
| "physical_type_of TIMESTAMP = P_BIGINT"
| "physical_type_of DECIMAL = P_BIGINT"
| "physical_type_of BOOLEAN = P_UTINYINT"
| "physical_type_of UTINYINT = P_UTINYINT"
| "physical_type_of USMALLINT = P_USMALLINT"
| "physical_type_of UINTEGER = P_UINTEGER"
| "physical_type_of UBIGINT = P_UBIGINT"
| "physical_type_of HASH = P_UBIGINT"
| "physical_type_of ADDRESS = P_UBIGINT"
| "physical_type_of FLOAT = P_FLOAT"
| "physical_type_of DOUBLE = P_DOUBLE"
| "physical_type_of STRING = P_STRING"
| "physical_type_of STRUCT = P_STRUCT"
| "physical_type_of LIST = P_LIST"
| "physical_type_of ARRAY = P_ARRAY"
| "physical_type_of UNKNOWN = P_UNKNOWN"

fun logical_type_id_of :: "physical_type \<Rightarrow> logical_type_id" where
  "logical_type_id_of P_TINYINT = TINYINT"
| "logical_type_id_of P_SMALLINT = SMALLINT"
| "logical_type_id_of P_INTEGER = INTEGER"
| "logical_type_id_of P_BIGINT = BIGINT"
| "logical_type_id_of P_UTINYINT = UTINYINT"
| "logical_type_id_of P_USMALLINT = USMALLINT"
| "logical_type_id_of P_UINTEGER = UINTEGER"
| "logical_type_id_of P_UBIGINT = UBIGINT"
| "logical_type_id_of P_FLOAT = FLOAT"
| "logical_type_id_of P_DOUBLE = DOUBLE"
| "logical_type_id_of P_STRING = STRING"
| "logical_type_id_of P_STRUCT = STRUCT"
| "logical_type_id_of P_LIST = LIST"
| "logical_type_id_of P_ARRAY = ARRAY"
| "logical_type_id_of P_UNKNOWN = UNKNOWN"

fun physical_name_of :: "physical_type \<Rightarrow> string" where
  "physical_name_of P_TINYINT = ''TINYINT''"
| "physical_name_of P_SMALLINT = ''SMALLINT''"
| "physical_name_of P_INTEGER = ''INTEGER''"
| "physical_name_of P_BIGINT = ''BIGINT''"
| "physical_name_of P_UTINYINT = ''UTINYINT''"
| "physical_name_of P_USMALLINT = ''USMALLINT''"
| "physical_name_of P_UINTEGER = ''UINTEGER''"
| "physical_name_of P_UBIGINT = ''UBIGINT''"
| "physical_name_of P_FLOAT = ''FLOAT''"
| "physical_name_of P_DOUBLE = ''DOUBLE''"
| "physical_name_of P_STRING = ''STRING''"
| "physical_name_of P_STRUCT = ''STRUCT''"
| "physical_name_of P_LIST = ''LIST''"
| "physical_name_of P_ARRAY = ''ARRAY''"
| "physical_name_of P_UNKNOWN = ''UNKNOWN''"

text \<open>\<^verbatim>\<open>sizeof(BumbleString)\<close> is 24 (prefix 12, length 4, pointer 8), \<^verbatim>\<open>sizeof(ListEntry)\<close> is 16.\<close>

fun size_of_type :: "physical_type \<Rightarrow> nat result" where
  "size_of_type P_TINYINT = Inr 1"
| "size_of_type P_UTINYINT = Inr 1"
| "size_of_type P_SMALLINT = Inr 2"
| "size_of_type P_USMALLINT = Inr 2"
| "size_of_type P_INTEGER = Inr 4"
| "size_of_type P_UINTEGER = Inr 4"
| "size_of_type P_FLOAT = Inr 4"
| "size_of_type P_BIGINT = Inr 8"
| "size_of_type P_UBIGINT = Inr 8"
| "size_of_type P_DOUBLE = Inr 8"
| "size_of_type P_STRING = Inr 24"
| "size_of_type P_LIST = Inr 16"
| "size_of_type P_ARRAY = Inr 0"
| "size_of_type P_UNKNOWN = Inr 1"
| "size_of_type P_STRUCT = Inl (NotImplementedException (physical_name_of P_STRUCT @ '' has no inline size''))"

definition is_constant_size :: "physical_type \<Rightarrow> bool" where
  "is_constant_size p \<longleftrightarrow> p \<noteq> P_STRING \<and> p \<noteq> P_STRUCT \<and> p \<noteq> P_LIST \<and> p \<noteq> P_ARRAY"

fun name_of :: "logical_type_id \<Rightarrow> string" where
  "name_of BOOLEAN = ''BOOLEAN''"
| "name_of TINYINT = ''TINYINT''"
| "name_of SMALLINT = ''SMALLINT''"
| "name_of INTEGER = ''INTEGER''"
| "name_of BIGINT = ''BIGINT''"
| "name_of UTINYINT = ''UTINYINT''"
| "name_of USMALLINT = ''USMALLINT''"
| "name_of UINTEGER = ''UINTEGER''"
| "name_of UBIGINT = ''UBIGINT''"
| "name_of HASH = ''HASH''"
| "name_of ADDRESS = ''ADDRESS''"
| "name_of FLOAT = ''FLOAT''"
| "name_of DOUBLE = ''DOUBLE''"
| "name_of DECIMAL = ''DECIMAL''"
| "name_of STRING = ''VARCHAR''"
| "name_of STRUCT = ''STRUCT''"
| "name_of LIST = ''LIST''"
| "name_of ARRAY = ''ARRAY''"
| "name_of DATE = ''DATE''"
| "name_of TIMESTAMP = ''TIMESTAMP''"
| "name_of UNKNOWN = ''UNKNOWN''"

section \<open>Construction\<close>

definition MAX_DECIMAL_WIDTH_INT16 :: int where "MAX_DECIMAL_WIDTH_INT16 = 4"
definition MAX_DECIMAL_WIDTH_INT32 :: int where "MAX_DECIMAL_WIDTH_INT32 = 9"
definition MAX_DECIMAL_WIDTH_INT64 :: int where "MAX_DECIMAL_WIDTH_INT64 = 18"

lemmas decimal_widths = MAX_DECIMAL_WIDTH_INT16_def MAX_DECIMAL_WIDTH_INT32_def MAX_DECIMAL_WIDTH_INT64_def

definition type_from_id :: "logical_type_id \<Rightarrow> logical_type" where
  "type_from_id i = LogicalType (physical_type_of i) i
     (if i = DECIMAL then Some (DecimalTypeData MAX_DECIMAL_WIDTH_INT64 0) else None)"

definition type_from_physical :: "physical_type \<Rightarrow> logical_type" where
  "type_from_physical p = LogicalType p (logical_type_id_of p) None"

definition Decimal :: "int \<Rightarrow> int \<Rightarrow> logical_type result" where
  "Decimal width scale =
     (if width \<le> MAX_DECIMAL_WIDTH_INT16 then
        Inr (LogicalType P_SMALLINT DECIMAL (Some (DecimalTypeData width scale)))
      else if width \<le> MAX_DECIMAL_WIDTH_INT32 then
        Inr (LogicalType P_INTEGER DECIMAL (Some (DecimalTypeData width scale)))
      else if width \<le> MAX_DECIMAL_WIDTH_INT64 then
        Inr (LogicalType P_BIGINT DECIMAL (Some (DecimalTypeData width scale)))
      else Inl (NotImplementedException ''DECIMAL precision exceeds the maximum''))"

definition List :: "logical_type \<Rightarrow> logical_type" where
  "List child = LogicalType (physical_type_of LIST) LIST (Some (ListTypeData child 0))"

definition Array :: "logical_type \<Rightarrow> nat \<Rightarrow> logical_type" where
  "Array child n = LogicalType (physical_type_of ARRAY) ARRAY (Some (ListTypeData child n))"

section \<open>Accessors\<close>

text \<open>
  Reading a null payload, or one of the other kind, is undefined behaviour in the source: the
  model answers \<open>OutOfPageAccess\<close> there.
\<close>

definition get_decimal_data :: "logical_type \<Rightarrow> (int \<times> int) result" where
  "get_decimal_data t =
     (if type_id t \<noteq> DECIMAL then Inl (AssertionFailed ''not a DECIMAL type'')
      else case type_data t of Some (DecimalTypeData w s) \<Rightarrow> Inr (w, s) | _ \<Rightarrow> Inl OutOfPageAccess)"

definition get_list_data :: "logical_type \<Rightarrow> (logical_type \<times> nat) result" where
  "get_list_data t =
     (if type_id t \<noteq> LIST \<and> type_id t \<noteq> ARRAY then Inl (AssertionFailed ''not a LIST or ARRAY type'')
      else case type_data t of Some (ListTypeData c n) \<Rightarrow> Inr (c, n) | _ \<Rightarrow> Inl OutOfPageAccess)"

lemma get_list_data_size: "get_list_data t = Inr (c, n) \<Longrightarrow> size c < size t"
  by (cases t) (auto simp: get_list_data_def split: if_splits option.splits extra_data.splits)

text \<open>\<open>fmt_int\<close> is the \<^verbatim>\<open>{}\<close> rendering of an integer by the fmt library.\<close>

function type_to_string :: "(int \<Rightarrow> string) \<Rightarrow> logical_type \<Rightarrow> string result" where
  "type_to_string fmt_int t =
     (if type_id t = DECIMAL then
        (case get_decimal_data t of
           Inl e \<Rightarrow> Inl e
         | Inr (w, s) \<Rightarrow> Inr (''DECIMAL('' @ fmt_int w @ '','' @ fmt_int s @ '')''))
      else if type_id t = LIST then
        (case get_list_data t of
           Inl e \<Rightarrow> Inl e
         | Inr (c, n) \<Rightarrow> (case type_to_string fmt_int c of Inl e \<Rightarrow> Inl e | Inr s \<Rightarrow> Inr (s @ ''[]'')))
      else if type_id t = ARRAY then
        (case get_list_data t of
           Inl e \<Rightarrow> Inl e
         | Inr (c, n) \<Rightarrow>
             (case type_to_string fmt_int c of
                Inl e \<Rightarrow> Inl e
              | Inr s \<Rightarrow> Inr (s @ ''['' @ fmt_int (int n) @ '']'')))
      else Inr (name_of (type_id t)))"
  by pat_completeness auto
termination
  by (relation "measure (\<lambda>(f, t). size t)") (auto dest: get_list_data_size [OF sym] get_list_data_size)

declare type_to_string.simps [simp del]

section \<open>Type resolution\<close>

definition scale_of :: "logical_type \<Rightarrow> int result" where
  "scale_of t =
     (if type_id t = DECIMAL then (case get_decimal_data t of Inl e \<Rightarrow> Inl e | Inr (w, s) \<Rightarrow> Inr s) else Inr 0)"

definition common_type :: "logical_type \<Rightarrow> logical_type \<Rightarrow> logical_type result" where
  "common_type l r =
     (if type_eq l r then Inr l
      else if type_id l = UNKNOWN then Inr r
      else if type_id r = UNKNOWN then Inr l
      else let has = (\<lambda>i. type_id l = i \<or> type_id r = i) in
        if has STRING then
          if has DATE then Inr (type_from_id DATE)
          else if has TIMESTAMP then Inr (type_from_id TIMESTAMP)
          else Inr (type_from_id STRING)
        else if has DOUBLE then Inr (type_from_id DOUBLE)
        else if has FLOAT then Inr (type_from_id FLOAT)
        else if has DECIMAL then
          (case scale_of l of
             Inl e \<Rightarrow> Inl e
           | Inr sl \<Rightarrow>
               (case scale_of r of
                  Inl e \<Rightarrow> Inl e
                | Inr sr \<Rightarrow> Decimal MAX_DECIMAL_WIDTH_INT64 (max sl sr)))
        else
          (case size_of_type (ctype l) of
             Inl e \<Rightarrow> Inl e
           | Inr nl \<Rightarrow>
               (case size_of_type (ctype r) of
                  Inl e \<Rightarrow> Inl e
                | Inr nr \<Rightarrow> Inr (if nl \<ge> nr then l else r))))"

definition lower :: "string \<Rightarrow> string" where
  "lower s = map to_lower s"

definition type_from_string :: "string \<Rightarrow> logical_type" where
  "type_from_string type_name =
     (let name = lower type_name in
      if name = ''bool'' \<or> name = ''boolean'' then type_from_id BOOLEAN
      else if name = ''int1'' \<or> name = ''tinyint'' then type_from_id TINYINT
      else if name = ''int2'' \<or> name = ''smallint'' \<or> name = ''short'' then type_from_id SMALLINT
      else if name = ''int4'' \<or> name = ''int'' \<or> name = ''integer'' \<or> name = ''signed'' then type_from_id INTEGER
      else if name = ''int8'' \<or> name = ''bigint'' \<or> name = ''long'' then type_from_id BIGINT
      else if name = ''uint1'' \<or> name = ''utinyint'' then type_from_id UTINYINT
      else if name = ''uint2'' \<or> name = ''usmallint'' then type_from_id USMALLINT
      else if name = ''uint4'' \<or> name = ''uinteger'' then type_from_id UINTEGER
      else if name = ''uint8'' \<or> name = ''ubigint'' then type_from_id UBIGINT
      else if name = ''float4'' \<or> name = ''float'' \<or> name = ''real'' then type_from_id FLOAT
      else if name = ''float8'' \<or> name = ''double'' \<or> name = ''numeric'' then type_from_id DOUBLE
      else if name = ''decimal'' then type_from_id DECIMAL
      else if name = ''varchar'' \<or> name = ''text'' \<or> name = ''char'' \<or> name = ''bpchar'' \<or> name = ''string''
        then type_from_id STRING
      else if name = ''date'' then type_from_id DATE
      else if name = ''timestamp'' \<or> name = ''datetime'' then type_from_id TIMESTAMP
      else type_from_id UNKNOWN)"

section \<open>Well-formed types\<close>

text \<open>
  The physical type a DECIMAL of a given width is stored as, and the types the rest of the
  program may build: a scalar has no payload and the physical type of its id, a DECIMAL has a
  width of at most 18 digits and the narrowest integer that holds it, a LIST or ARRAY has a well
  formed element type.
\<close>

definition decimal_ctype :: "int \<Rightarrow> physical_type" where
  "decimal_ctype w = (if w \<le> 4 then P_SMALLINT else if w \<le> 9 then P_INTEGER else P_BIGINT)"

fun well_typed :: "logical_type \<Rightarrow> bool" where
  "well_typed (LogicalType c i d) =
     (case d of
        None \<Rightarrow> i \<noteq> DECIMAL \<and> i \<noteq> LIST \<and> i \<noteq> ARRAY \<and> c = physical_type_of i
      | Some (DecimalTypeData w s) \<Rightarrow> i = DECIMAL \<and> w \<le> 18 \<and> c = decimal_ctype w
      | Some (ListTypeData t n) \<Rightarrow> (i = LIST \<and> n = 0 \<or> i = ARRAY) \<and> c = physical_type_of i \<and> well_typed t)"

lemma type_eq_iff: "type_eq s t \<longleftrightarrow> s = t" and data_equals_iff: "data_equals d e \<longleftrightarrow> d = e"
proof (induction s t and d e rule: type_eq_data_equals.induct)
  case (1 c i d c' i' d')
  then show ?case by (cases d; cases d') auto
qed (auto split: extra_data.splits)

lemma well_typed_from_id: "i \<noteq> LIST \<Longrightarrow> i \<noteq> ARRAY \<Longrightarrow> well_typed (type_from_id i)"
  by (simp add: type_from_id_def decimal_widths decimal_ctype_def)

lemma well_typed_Decimal: "Decimal w s = Inr t \<Longrightarrow> well_typed t"
  by (auto simp: Decimal_def decimal_widths decimal_ctype_def split: if_splits)

lemma Decimal_max: "\<exists>t. Decimal MAX_DECIMAL_WIDTH_INT64 s = Inr t"
  by (simp add: Decimal_def decimal_widths)

lemma well_typed_scale: "well_typed t \<Longrightarrow> \<exists>s. scale_of t = Inr s"
  by (cases t) (auto simp: scale_of_def get_decimal_data_def split: option.splits extra_data.splits)

lemma well_typed_size: "well_typed t \<Longrightarrow> type_id t \<noteq> STRUCT \<Longrightarrow> \<exists>n. size_of_type (ctype t) = Inr n"
proof (cases t)
  case (LogicalType c i d)
  assume "well_typed t" "type_id t \<noteq> STRUCT"
  then have "c \<noteq> P_STRUCT"
    using LogicalType by (cases i) (auto simp: decimal_ctype_def split: option.splits extra_data.splits if_splits)
  then show ?thesis using LogicalType by (cases c) auto
qed



text \<open>
  Promotion of two integer types of the same width depends on the order of the operands and
  does not cover both ranges: \<^verbatim>\<open>CommonType(TINYINT, UTINYINT)\<close> is TINYINT and
  \<^verbatim>\<open>CommonType(UTINYINT, TINYINT)\<close> is UTINYINT.
\<close>

theorem common_type_not_symmetric:
  "common_type (type_from_id TINYINT) (type_from_id UTINYINT) = Inr (type_from_id TINYINT) \<and>
   common_type (type_from_id UTINYINT) (type_from_id TINYINT) = Inr (type_from_id UTINYINT) \<and>
   type_from_id TINYINT \<noteq> type_from_id UTINYINT"
  by (simp add: common_type_def type_from_id_def)

text \<open>
  (C32) Names resolve to the types they name: for every type that DDL can declare, the name
  \<^verbatim>\<open>NameOf\<close> renders is resolved back to it by \<^verbatim>\<open>FromString\<close>, in any case of its letters.
\<close>

definition declarable :: "logical_type_id \<Rightarrow> bool" where
  "declarable i \<longleftrightarrow> i \<notin> {HASH, ADDRESS, STRUCT, LIST, ARRAY}"

lemma lower_names:
  "lower (name_of BOOLEAN) = ''boolean''"
  "lower (name_of TINYINT) = ''tinyint''"
  "lower (name_of SMALLINT) = ''smallint''"
  "lower (name_of INTEGER) = ''integer''"
  "lower (name_of BIGINT) = ''bigint''"
  "lower (name_of UTINYINT) = ''utinyint''"
  "lower (name_of USMALLINT) = ''usmallint''"
  "lower (name_of UINTEGER) = ''uinteger''"
  "lower (name_of UBIGINT) = ''ubigint''"
  "lower (name_of FLOAT) = ''float''"
  "lower (name_of DOUBLE) = ''double''"
  "lower (name_of DECIMAL) = ''decimal''"
  "lower (name_of STRING) = ''varchar''"
  "lower (name_of DATE) = ''date''"
  "lower (name_of TIMESTAMP) = ''timestamp''"
  "lower (name_of UNKNOWN) = ''unknown''"
  by code_simp+



end
