(* ===== verification/ValidityMask.thy ===== *)
theory ValidityMask
  imports Prelude
begin

text \<open>
  The per-row validity bitmask of \<^verbatim>\<open>type/vector/validity_mask.{h,cpp}\<close>.  A mask is the null buffer
  (\<open>None\<close>: every row is valid) or the list of its 64-bit words, whose length is
  \<^verbatim>\<open>capacity_words_\<close>.  The theory models one mask and what its own operations do to it; sharing of
  a buffer between copies of a mask is outside the model.  \<open>row_is_valid\<close> is the abstraction every
  operation is specified against.
\<close>

type_synonym validity_mask = "64 word list option"

definition BITS_PER_WORD :: nat where "BITS_PER_WORD = 64"
definition STANDARD_VECTOR_SIZE :: nat where "STANDARD_VECTOR_SIZE = 1024"

definition word_count :: "nat \<Rightarrow> nat" where
  "word_count capacity = (capacity + BITS_PER_WORD - 1) div BITS_PER_WORD"

definition all_valid :: "validity_mask \<Rightarrow> bool" where
  "all_valid m \<longleftrightarrow> m = None"

definition row_is_valid :: "validity_mask \<Rightarrow> nat \<Rightarrow> bool" where
  "row_is_valid m idx =
     (case m of
        None \<Rightarrow> True
      | Some ws \<Rightarrow>
          if idx div BITS_PER_WORD \<ge> length ws then True
          else ws ! (idx div BITS_PER_WORD) AND push_bit (idx mod BITS_PER_WORD) 1 \<noteq> 0)"

definition set_valid :: "nat \<Rightarrow> validity_mask \<Rightarrow> validity_mask" where
  "set_valid idx m =
     (case m of
        None \<Rightarrow> None
      | Some ws \<Rightarrow>
          if idx div BITS_PER_WORD \<ge> length ws then Some ws
          else Some (ws[idx div BITS_PER_WORD :=
                 ws ! (idx div BITS_PER_WORD) OR push_bit (idx mod BITS_PER_WORD) 1]))"

definition ensure_writable :: "nat \<Rightarrow> validity_mask \<Rightarrow> validity_mask" where
  "ensure_writable cap m =
     (let capacity = (if cap < STANDARD_VECTOR_SIZE then STANDARD_VECTOR_SIZE else cap);
          words = word_count capacity
      in case m of
           None \<Rightarrow> Some (replicate words (NOT 0))
         | Some ws \<Rightarrow>
             if length ws \<ge> words then Some ws
             else Some (ws @ replicate (words - length ws) (NOT 0)))"

definition set_invalid_unsafe :: "nat \<Rightarrow> validity_mask \<Rightarrow> validity_mask result" where
  "set_invalid_unsafe idx m =
     (case m of
        None \<Rightarrow> Inl (AssertionFailed ''validity buffer too small'')
      | Some ws \<Rightarrow>
          if idx div BITS_PER_WORD < length ws then
            Inr (Some (ws[idx div BITS_PER_WORD :=
              ws ! (idx div BITS_PER_WORD) AND NOT (push_bit (idx mod BITS_PER_WORD) 1)]))
          else Inl (AssertionFailed ''validity buffer too small''))"

definition set_valid_unsafe :: "nat \<Rightarrow> validity_mask \<Rightarrow> validity_mask result" where
  "set_valid_unsafe idx m =
     (case m of
        None \<Rightarrow> Inl (AssertionFailed ''validity buffer too small'')
      | Some ws \<Rightarrow>
          if idx div BITS_PER_WORD < length ws then
            Inr (Some (ws[idx div BITS_PER_WORD :=
              ws ! (idx div BITS_PER_WORD) OR push_bit (idx mod BITS_PER_WORD) 1]))
          else Inl (AssertionFailed ''validity buffer too small''))"

definition set_invalid :: "nat \<Rightarrow> validity_mask \<Rightarrow> validity_mask result" where
  "set_invalid idx m = set_invalid_unsafe idx (ensure_writable (idx + 1) m)"

definition set_validity :: "nat \<Rightarrow> bool \<Rightarrow> validity_mask \<Rightarrow> validity_mask result" where
  "set_validity idx valid m = (if valid then Inr (set_valid idx m) else set_invalid idx m)"

definition set_all_valid :: "validity_mask \<Rightarrow> validity_mask" where
  "set_all_valid m = None"

definition set_all_invalid :: "nat \<Rightarrow> validity_mask \<Rightarrow> validity_mask" where
  "set_all_invalid cnt m = map_option (\<lambda>ws. replicate (length ws) 0) (ensure_writable cnt m)"

definition check_all_valid :: "nat \<Rightarrow> validity_mask \<Rightarrow> bool" where
  "check_all_valid cnt m = (m = None \<or> list_all (row_is_valid m) [0..<cnt])"

definition copy_mask :: "validity_mask \<Rightarrow> validity_mask" where
  "copy_mask m =
     (case m of
        None \<Rightarrow> None
      | Some ws \<Rightarrow> map_option (buf_write 0 ws) (ensure_writable (length ws * BITS_PER_WORD) None))"

text \<open>The loop \<^verbatim>\<open>for (i ...) Set(i, bit i)\<close>.\<close>

fun set_loop :: "(nat \<Rightarrow> bool) \<Rightarrow> nat list \<Rightarrow> validity_mask \<Rightarrow> validity_mask result" where
  "set_loop bit_of [] m = Inr m"
| "set_loop bit_of (i # is) m =
     (case set_validity i (bit_of i) m of Inl e \<Rightarrow> Inl e | Inr m' \<Rightarrow> set_loop bit_of is m')"

definition slice_mask :: "validity_mask \<Rightarrow> nat \<Rightarrow> nat \<Rightarrow> validity_mask result" where
  "slice_mask other offset cnt =
     (case other of
        None \<Rightarrow> Inr None
      | Some ws \<Rightarrow>
          let src_bits = length ws * BITS_PER_WORD;
              limit = (if offset < src_bits then min cnt (src_bits - offset) else 0)
          in set_loop (\<lambda>i. row_is_valid other (offset + i)) [0..<limit] (ensure_writable cnt None))"

text \<open>A selection is the identity (no array) or the array of its positions.\<close>

type_synonym selection_vector = "nat list option"

definition get_index :: "selection_vector \<Rightarrow> nat \<Rightarrow> nat" where
  "get_index sel i = (case sel of None \<Rightarrow> i | Some xs \<Rightarrow> xs ! i)"

text \<open>\<^verbatim>\<open>sel_t\<close> is 32 bits wide: a composed position is truncated to it.\<close>

definition slice_selection :: "selection_vector \<Rightarrow> selection_vector \<Rightarrow> nat \<Rightarrow> nat list" where
  "slice_selection self sel cnt = map (\<lambda>i. get_index self (get_index sel i) mod 2 ^ 32) [0..<cnt]"

definition gather_from :: "validity_mask \<Rightarrow> selection_vector \<Rightarrow> nat \<Rightarrow> validity_mask result" where
  "gather_from other sel cnt =
     (case other of
        None \<Rightarrow> Inr None
      | Some ws \<Rightarrow> set_loop (\<lambda>i. row_is_valid other (get_index sel i)) [0..<cnt] (ensure_writable cnt None))"

fun combine_loop :: "validity_mask \<Rightarrow> nat list \<Rightarrow> validity_mask \<Rightarrow> validity_mask result" where
  "combine_loop other [] m = Inr m"
| "combine_loop other (i # is) m =
     (if \<not> row_is_valid other i
      then (case set_invalid i m of Inl e \<Rightarrow> Inl e | Inr m' \<Rightarrow> combine_loop other is m')
      else combine_loop other is m)"

definition combine :: "validity_mask \<Rightarrow> nat \<Rightarrow> validity_mask \<Rightarrow> validity_mask result" where
  "combine other cnt m =
     (if all_valid other then Inr m else combine_loop other [0..<cnt] (ensure_writable cnt m))"

section \<open>Single rows\<close>

lemma and_bit_nonzero: "n < 64 \<Longrightarrow> (w :: 64 word) AND 2 ^ n = 0 \<longleftrightarrow> \<not> bit w n"
  by (simp add: bit_iff_and_push_bit_not_eq_0)

lemma row_is_valid_iff:
  "row_is_valid m i \<longleftrightarrow>
     (case m of None \<Rightarrow> True | Some ws \<Rightarrow> i div 64 < length ws \<longrightarrow> bit (ws ! (i div 64)) (i mod 64))"
  by (auto simp: row_is_valid_def BITS_PER_WORD_def and_bit_nonzero split: option.splits)

lemma row_is_valid_None [simp]: "row_is_valid None = (\<lambda>i. True)"
  by (simp add: row_is_valid_iff fun_eq_iff)

text \<open>The bit of row \<open>j\<close> after the word of row \<open>i\<close> was replaced.\<close>

lemma row_update:
  assumes "i div 64 < length ws" and "\<And>k. k < 64 \<Longrightarrow> k \<noteq> i mod 64 \<Longrightarrow> bit w k = bit (ws ! (i div 64)) k"
  shows "row_is_valid (Some (ws[i div 64 := w])) j \<longleftrightarrow>
    (if j = i then bit w (i mod 64) else row_is_valid (Some ws) j)"
proof (cases "j = i")
  case False
  then have "j div 64 = i div 64 \<longrightarrow> j mod 64 \<noteq> i mod 64" by (metis div_mult_mod_eq)
  then show ?thesis using False assms by (simp add: row_is_valid_iff nth_list_update)
qed (use assms in \<open>simp add: row_is_valid_iff\<close>)

lemma row_set_valid: "row_is_valid (set_valid i m) j \<longleftrightarrow> j = i \<or> row_is_valid m j"
proof (cases m)
  case (Some ws)
  show ?thesis
  proof (cases "i div 64 < length ws")
    case True
    then show ?thesis using Some
      by (simp add: set_valid_def BITS_PER_WORD_def row_update bit_or_iff bit_exp_iff)
  next
    case False
    then show ?thesis using Some by (auto simp: set_valid_def BITS_PER_WORD_def row_is_valid_iff)
  qed
qed (simp add: set_valid_def)

lemma row_ensure_writable [simp]: "row_is_valid (ensure_writable n m) i \<longleftrightarrow> row_is_valid m i"
  by (auto simp: row_is_valid_iff ensure_writable_def Let_def nth_append bit_simps split: option.splits)

lemma ensure_writable_covers:
  "\<exists>ws. ensure_writable n m = Some ws \<and> n \<le> length ws * 64 \<and> STANDARD_VECTOR_SIZE \<le> length ws * 64"
  by (cases m) (auto simp: ensure_writable_def Let_def word_count_def BITS_PER_WORD_def STANDARD_VECTOR_SIZE_def)

lemma row_set_invalid_unsafe:
  "set_invalid_unsafe i m = Inr m' \<Longrightarrow> row_is_valid m' j \<longleftrightarrow> j \<noteq> i \<and> row_is_valid m j"
  by (auto simp: set_invalid_unsafe_def BITS_PER_WORD_def row_update bit_and_iff bit_not_iff bit_exp_iff
      split: option.splits if_splits)

lemma set_invalid_total:
  obtains m' where "set_invalid i m = Inr m'" and "\<And>j. row_is_valid m' j \<longleftrightarrow> j \<noteq> i \<and> row_is_valid m j"
proof -
  obtain ws where ws: "ensure_writable (i + 1) m = Some ws" "i + 1 \<le> length ws * 64"
    using ensure_writable_covers by blast
  then have "i div 64 < length ws" by (simp add: div_less_iff_less_mult)
  then obtain m' where m': "set_invalid i m = Inr m'"
    using ws(1) by (simp add: set_invalid_def set_invalid_unsafe_def BITS_PER_WORD_def)
  then show ?thesis
    using that row_set_invalid_unsafe [of i "ensure_writable (i + 1) m"] by (simp add: set_invalid_def)
qed

lemma set_validity_total:
  obtains m' where "set_validity i v m = Inr m'"
    and "\<And>j. row_is_valid m' j \<longleftrightarrow> (if j = i then v \<or> False else row_is_valid m j)"
proof (cases v)
  case True
  then show ?thesis using that [of "set_valid i m"] by (simp add: set_validity_def row_set_valid)
next
  case False
  obtain m' where "set_invalid i m = Inr m'" "\<And>j. row_is_valid m' j \<longleftrightarrow> j \<noteq> i \<and> row_is_valid m j"
    by (rule set_invalid_total) blast
  then show ?thesis using that [of m'] False by (simp add: set_validity_def)
qed

section \<open>Bulk operations\<close>

lemma set_loop_total:
  "\<exists>m'. set_loop f is m = Inr m' \<and>
     (\<forall>j. row_is_valid m' j \<longleftrightarrow> (if j \<in> set is then f j else row_is_valid m j))"
proof (induction "is" arbitrary: m)
  case (Cons i "is")
  obtain m1 where m1: "set_validity i (f i) m = Inr m1"
    "\<And>j. row_is_valid m1 j \<longleftrightarrow> (if j = i then f i \<or> False else row_is_valid m j)"
    by (rule set_validity_total) blast
  show ?case using Cons.IH [of m1] m1 by auto
qed simp

lemma combine_loop_total:
  "\<exists>m'. combine_loop other is m = Inr m' \<and>
     (\<forall>j. row_is_valid m' j \<longleftrightarrow> row_is_valid m j \<and> (j \<in> set is \<longrightarrow> row_is_valid other j))"
proof (induction "is" arbitrary: m)
  case (Cons i "is")
  obtain m1 where m1: "set_invalid i m = Inr m1" "\<And>j. row_is_valid m1 j \<longleftrightarrow> j \<noteq> i \<and> row_is_valid m j"
    by (rule set_invalid_total) blast
  show ?case using Cons.IH [of m1] Cons.IH [of m] m1 by auto
qed simp

lemma row_beyond: "length ws * 64 \<le> i \<Longrightarrow> row_is_valid (Some ws) i"
  by (auto simp: row_is_valid_iff div_less_iff_less_mult)

lemma slice_mask_total:
  "\<exists>m'. slice_mask other off n = Inr m' \<and>
     (\<forall>j. row_is_valid m' j \<longleftrightarrow> (n \<le> j \<or> row_is_valid other (off + j)))"
proof (cases other)
  case (Some ws)
  define limit where "limit = (if off < length ws * 64 then min n (length ws * 64 - off) else 0)"
  have past: "row_is_valid other (off + j)" if "limit \<le> j" "j < n" for j
    using that Some row_beyond [of ws "off + j"] by (auto simp: limit_def split: if_splits)
  have "limit \<le> n" by (simp add: limit_def)
  then show ?thesis
    using set_loop_total [of "\<lambda>i. row_is_valid other (off + i)" "[0..<limit]" "ensure_writable n None"] Some past
    by (auto simp: slice_mask_def BITS_PER_WORD_def limit_def [symmetric] Let_def not_less [symmetric])
qed (simp add: slice_mask_def)

lemma copy_mask_rows: "row_is_valid (copy_mask m) j \<longleftrightarrow> row_is_valid m j"
proof (cases m)
  case (Some ws)
  obtain vs where vs: "ensure_writable (length ws * 64) None = Some vs" "length ws \<le> length vs"
    using ensure_writable_covers [of "length ws * 64" None] by auto
  have v: "row_is_valid (Some vs) i" for i using vs(1) row_ensure_writable [of "length ws * 64" None i] by simp
  have "copy_mask m = Some (ws @ drop (length ws) vs)"
    using Some vs by (simp add: copy_mask_def BITS_PER_WORD_def buf_write_def)
  then show ?thesis using v [of j] Some vs(2) by (auto simp: row_is_valid_iff nth_append)
qed (simp add: copy_mask_def)

lemma gather_from_total:
  "\<exists>m'. gather_from other sel n = Inr m' \<and>
     (\<forall>j. row_is_valid m' j \<longleftrightarrow> (n \<le> j \<or> row_is_valid other (get_index sel j)))"
proof (cases other)
  case (Some ws)
  then show ?thesis
    using set_loop_total [of "\<lambda>i. row_is_valid other (get_index sel i)" "[0..<n]" "ensure_writable n None"]
    by (auto simp: gather_from_def not_less)
qed (simp add: gather_from_def)

lemma combine_total:
  "\<exists>m'. combine other n m = Inr m' \<and>
     (\<forall>j. row_is_valid m' j \<longleftrightarrow> row_is_valid m j \<and> (n \<le> j \<or> row_is_valid other j))"
proof (cases other)
  case (Some ws)
  then show ?thesis
    using combine_loop_total [of other "[0..<n]" "ensure_writable n m"]
    by (auto simp: combine_def all_valid_def not_less)
qed (simp add: combine_def all_valid_def)

text \<open>
  (C29) The bulk operations of a validity mask compute what they promise for every row, never fail
  their buffer-size assertion, and treat rows past the allocated words as valid: \<open>Slice\<close> is the
  window of the source mask, \<open>GatherFrom\<close> reads the source through the selection, \<open>Combine\<close> is the
  conjunction on the first \<open>n\<close> rows and leaves the others alone, and \<open>Copy\<close> is the same mask.
\<close>

theorem validity_bulk_operations:
  "(\<exists>m'. slice_mask other off n = Inr m' \<and>
      (\<forall>j. row_is_valid m' j = (n \<le> j \<or> row_is_valid other (off + j)))) \<and>
   (\<exists>m'. gather_from other sel n = Inr m' \<and>
      (\<forall>j. row_is_valid m' j = (n \<le> j \<or> row_is_valid other (get_index sel j)))) \<and>
   (\<exists>m'. combine other n m = Inr m' \<and>
      (\<forall>j. row_is_valid m' j = (row_is_valid m j \<and> (n \<le> j \<or> row_is_valid other j)))) \<and>
   (\<forall>j. row_is_valid (copy_mask m) j = row_is_valid m j)"
  by (intro conjI allI slice_mask_total gather_from_total combine_total copy_mask_rows)

lemma all_invalid_rows: "j < n \<Longrightarrow> \<not> row_is_valid (set_all_invalid n m) j"
proof -
  assume "j < n"
  obtain ws where ws: "ensure_writable n m = Some ws" "n \<le> length ws * 64"
    using ensure_writable_covers by blast
  then have "j div 64 < length ws" using \<open>j < n\<close> by (simp add: div_less_iff_less_mult)
  then show ?thesis using ws(1) by (simp add: set_all_invalid_def row_is_valid_def BITS_PER_WORD_def)
qed

lemma check_all_valid_iff: "check_all_valid n m \<longleftrightarrow> (\<forall>j < n. row_is_valid m j)"
  by (cases m) (auto simp: check_all_valid_def list_all_iff)

end
