(* ===== verification/SortKeyEncoding.thy ===== *)
theory SortKeyEncoding
  imports Prelude "HOL-Library.List_Lexorder"
begin

text \<open>
  The byte-comparable encodings of \<^verbatim>\<open>common/sort_key_encoding.h\<close> and \<^verbatim>\<open>common/bswap.h\<close>, and the
  string order of \<^verbatim>\<open>type/bumble_string.h\<close> they are compared with.  Integers are words of their
  width; a float or double is its IEEE-754 bit pattern, compared through its sign and magnitude.
  The lemmas show that each encoding turns the order of the values into the lexicographic order
  of the bytes.
\<close>

section \<open>Bytes of a word\<close>

text \<open>\<^verbatim>\<open>Store<T>\<close> on a little-endian machine: the least significant byte first.\<close>

definition store_word :: "'a::len word \<Rightarrow> byte list" where
  "store_word w = map (\<lambda>i. ucast (drop_bit (8 * i) w)) [0..<LENGTH('a) div 8]"

definition bswap16 :: "16 word \<Rightarrow> 16 word" where
  "bswap16 x = drop_bit 8 (x AND 0xff00) OR push_bit 8 (x AND 0x00ff)"

definition bswap32 :: "32 word \<Rightarrow> 32 word" where
  "bswap32 x = drop_bit 24 (x AND 0xff000000) OR drop_bit 8 (x AND 0x00ff0000) OR
     push_bit 8 (x AND 0x0000ff00) OR push_bit 24 (x AND 0x000000ff)"

definition bswap64 :: "64 word \<Rightarrow> 64 word" where
  "bswap64 x = drop_bit 56 (x AND 0xff00000000000000) OR drop_bit 40 (x AND 0x00ff000000000000) OR
     drop_bit 24 (x AND 0x0000ff0000000000) OR drop_bit 8 (x AND 0x000000ff00000000) OR
     push_bit 8 (x AND 0x00000000ff000000) OR push_bit 24 (x AND 0x0000000000ff0000) OR
     push_bit 40 (x AND 0x000000000000ff00) OR push_bit 56 (x AND 0x00000000000000ff)"

definition flip_sign :: "byte \<Rightarrow> byte" where
  "flip_sign key_byte = key_byte XOR 128"

definition flip_first :: "byte list \<Rightarrow> byte list" where
  "flip_first bs = bs[0 := flip_sign (bs ! 0)]"

definition encode_int8 :: "8 word \<Rightarrow> byte list" where
  "encode_int8 v = flip_first (store_word v)"

definition encode_int16 :: "16 word \<Rightarrow> byte list" where
  "encode_int16 v = flip_first (store_word (bswap16 v))"

definition encode_int32 :: "32 word \<Rightarrow> byte list" where
  "encode_int32 v = flip_first (store_word (bswap32 v))"

definition encode_int64 :: "64 word \<Rightarrow> byte list" where
  "encode_int64 v = flip_first (store_word (bswap64 v))"

definition encode_uint8 :: "8 word \<Rightarrow> byte list" where
  "encode_uint8 v = store_word v"

definition encode_uint16 :: "16 word \<Rightarrow> byte list" where
  "encode_uint16 v = store_word (bswap16 v)"

definition encode_uint32 :: "32 word \<Rightarrow> byte list" where
  "encode_uint32 v = store_word (bswap32 v)"

definition encode_uint64 :: "64 word \<Rightarrow> byte list" where
  "encode_uint64 v = store_word (bswap64 v)"

section \<open>Floating point\<close>

text \<open>
  The value of a bit pattern, up to the order of the values: the magnitude bits with the sign
  (both zeros have rank 0).  The magnitude of an infinity is \<open>lim\<close>; a larger one is a NaN, and
  every comparison with a NaN is false.
\<close>

definition fp_rank :: "'a::len word \<Rightarrow> int" where
  "fp_rank w = (let m = uint (take_bit (LENGTH('a) - 1) w) in if bit w (LENGTH('a) - 1) then - m else m)"

definition fp_nan :: "int \<Rightarrow> 'a::len word \<Rightarrow> bool" where
  "fp_nan lim w \<longleftrightarrow> lim < \<bar>fp_rank w\<bar>"

definition fp_eq :: "int \<Rightarrow> 'a::len word \<Rightarrow> 'a word \<Rightarrow> bool" where
  "fp_eq lim a b \<longleftrightarrow> \<not> fp_nan lim a \<and> \<not> fp_nan lim b \<and> fp_rank a = fp_rank b"

definition fp_less :: "int \<Rightarrow> 'a::len word \<Rightarrow> 'a word \<Rightarrow> bool" where
  "fp_less lim a b \<longleftrightarrow> \<not> fp_nan lim a \<and> \<not> fp_nan lim b \<and> fp_rank a < fp_rank b"

definition FLT_INF :: int where "FLT_INF = 0x7F800000"
definition FLT_MAX :: "32 word" where "FLT_MAX = 0x7F7FFFFF"
definition NEG_FLT_MAX :: "32 word" where "NEG_FLT_MAX = 0xFF7FFFFF"
definition DBL_INF :: int where "DBL_INF = 0x7FF0000000000000"
definition DBL_MAX :: "64 word" where "DBL_MAX = 0x7FEFFFFFFFFFFFFF"
definition NEG_DBL_MAX :: "64 word" where "NEG_DBL_MAX = 0xFFEFFFFFFFFFFFFF"

definition encode_float :: "32 word \<Rightarrow> 32 word" where
  "encode_float x =
     (if fp_eq FLT_INF x 0 then 0 OR push_bit 31 1
      else if fp_less FLT_INF FLT_MAX x then NOT 0 - 1
      else if fp_less FLT_INF x NEG_FLT_MAX then 0
      else if x AND push_bit 31 1 = 0 then x OR push_bit 31 1
      else NOT x)"

definition encode_double :: "64 word \<Rightarrow> 64 word" where
  "encode_double x =
     (if fp_eq DBL_INF x 0 then 0 + push_bit 63 1
      else if fp_less DBL_INF DBL_MAX x then NOT 0 - 1
      else if fp_less DBL_INF x NEG_DBL_MAX then 0
      else if x < push_bit 63 1 then x + push_bit 63 1
      else NOT x)"

section \<open>Byte order\<close>

text \<open>\<^verbatim>\<open>memcmp\<close> of equally long buffers, and \<^verbatim>\<open>BumbleString\<close>'s \<open><\<close> and \<open>==\<close>.\<close>

fun memcmp :: "byte list \<Rightarrow> byte list \<Rightarrow> int" where
  "memcmp (x # xs) (y # ys) = (if x < y then - 1 else if y < x then 1 else memcmp xs ys)"
| "memcmp xs ys = 0"

definition string_less :: "byte list \<Rightarrow> byte list \<Rightarrow> bool" where
  "string_less l r =
     (let min_length = (if length l < length r then length l else length r);
          memcmp_res = memcmp (take min_length l) (take min_length r)
      in memcmp_res < 0 \<or> (memcmp_res = 0 \<and> length l < length r))"

definition string_greater :: "byte list \<Rightarrow> byte list \<Rightarrow> bool" where
  "string_greater l r =
     (let min_length = (if length l < length r then length l else length r);
          memcmp_res = memcmp (take min_length l) (take min_length r)
      in memcmp_res > 0 \<or> (memcmp_res = 0 \<and> length l > length r))"

definition string_equal :: "byte list \<Rightarrow> byte list \<Rightarrow> bool" where
  "string_equal l r \<longleftrightarrow> length l = length r \<and> (length l = 0 \<or> memcmp l r = 0)"

lemma string_less_iff: "string_less l r \<longleftrightarrow> l < r"
proof (induction l arbitrary: r)
  case Nil
  then show ?case by (cases r) (auto simp: string_less_def)
next
  case (Cons x xs)
  show ?case
  proof (cases r)
    case (Cons y ys)
    then show ?thesis using Cons.IH [of ys]
      by (cases "length xs < length ys") (auto simp: string_less_def Let_def)
  qed (simp add: string_less_def)
qed

lemma string_greater_iff: "string_greater l r \<longleftrightarrow> r < l"
proof (induction l arbitrary: r)
  case Nil
  then show ?case by (cases r) (auto simp: string_greater_def)
next
  case (Cons x xs)
  show ?case
  proof (cases r)
    case (Cons y ys)
    then show ?thesis using Cons.IH [of ys]
      by (cases "length xs < length ys") (auto simp: string_greater_def Let_def)
  qed (simp add: string_greater_def)
qed

lemma memcmp_zero: "length l = length r \<Longrightarrow> memcmp l r = 0 \<longleftrightarrow> l = r"
  by (induction l r rule: memcmp.induct) auto

lemma string_equal_iff: "string_equal l r \<longleftrightarrow> l = r"
  using memcmp_zero [of l r] by (auto simp: string_equal_def)

text \<open>\<open>differ\<close>: the buffers differ at a position both have, so no suffix can change their order.\<close>

fun differ :: "byte list \<Rightarrow> byte list \<Rightarrow> bool" where
  "differ (x # xs) (y # ys) = (x \<noteq> y \<or> differ xs ys)"
| "differ xs ys = False"

lemma differ_append: "differ a b \<Longrightarrow> a @ x < b @ y \<longleftrightarrow> a < b"
  by (induction a b rule: differ.induct) auto

lemma differ_sym: "differ a b \<Longrightarrow> differ b a"
  by (induction a b rule: differ.induct) auto

lemma differ_same_length: "length a = length b \<Longrightarrow> differ a b \<longleftrightarrow> a \<noteq> b"
  by (induction a b rule: differ.induct) auto

lemma differ_total: "differ a b \<Longrightarrow> \<not> a < b \<longleftrightarrow> b < a"
  by (induction a b rule: differ.induct) auto

lemma differ_irrefl [simp]: "\<not> differ a a"
  by (induction a) auto

lemma uint_not: "uint (NOT w) = 2 ^ LENGTH('a) - 1 - uint (w :: 'a::len word)"
proof -
  have m: "uint (- 1 :: 'a word) = 2 ^ LENGTH('a) - 1"
    by (simp add: unsigned_minus_1_eq_mask mask_eq_exp_minus_1)
  have "NOT w = - 1 - w" by (simp add: not_eq_complement)
  moreover have "uint (- 1 - w) = uint (- 1 :: 'a word) - uint w"
    by (subst uint_minus_simple_alt [symmetric]) simp
  ultimately show ?thesis using m by simp
qed

lemma not_less_byte: "NOT x < NOT y \<longleftrightarrow> y < (x :: byte)"
  by (simp add: word_less_def uint_not)

lemma not_byte_inj: "NOT x = NOT y \<longleftrightarrow> y = (x :: byte)"
  by (metis bit.double_compl)

lemma differ_map_not: "differ (map NOT a) (map NOT b) \<longleftrightarrow> differ a b"
  by (induction a b rule: differ.induct) (auto simp: not_byte_inj)

lemma map_not_less: "differ a b \<Longrightarrow> map NOT a < map NOT b \<longleftrightarrow> b < a"
  by (induction a b rule: differ.induct) (auto simp: not_less_byte not_byte_inj)

section \<open>Big-endian bytes\<close>

fun be_bytes :: "nat \<Rightarrow> nat \<Rightarrow> byte list" where
  "be_bytes 0 x = []"
| "be_bytes (Suc n) x = word_of_nat (x div 256 ^ n) # be_bytes n x"

lemma length_be_bytes [simp]: "length (be_bytes n x) = n"
  by (induction n) auto

lemma digit_mod: "i < n \<Longrightarrow> (word_of_nat (x mod 256 ^ n div 256 ^ i) :: byte) = word_of_nat (x div 256 ^ i)"
proof -
  assume "i < n"
  then have "(256 :: nat) ^ n = 256 ^ i * 256 ^ (n - i)" by (simp flip: power_add)
  then have "x mod 256 ^ n div 256 ^ i = x div 256 ^ i mod 256 ^ (n - i)" by (simp add: mod_mult2_eq)
  moreover have "(256 :: nat) dvd 256 ^ (n - i)" using \<open>i < n\<close> by (simp add: dvd_power)
  ultimately have "x mod 256 ^ n div 256 ^ i mod 256 = x div 256 ^ i mod 256" by (simp add: mod_mod_cancel)
  then show ?thesis by (simp add: word_of_nat_eq_iff word_of_nat_less_iff take_bit_eq_mod)
qed

lemma be_bytes_mod: "m \<le> n \<Longrightarrow> be_bytes m (x mod 256 ^ n) = be_bytes m x"
  by (induction m) (auto simp: digit_mod)

lemma div_mod_less:
  "x < y \<longleftrightarrow> x div n < y div n \<or> x div n = y div n \<and> x mod n < y mod (n :: nat)"
  by (metis div_le_mono div_mult_mod_eq linorder_not_less nat_add_left_cancel_less order_le_less not_le)

lemma be_bytes_less:
  "x < 256 ^ n \<Longrightarrow> y < 256 ^ n \<Longrightarrow> be_bytes n x < be_bytes n y \<longleftrightarrow> x < y"
proof (induction n arbitrary: x y)
  case (Suc n)
  have d: "x div 256 ^ n < 256" "y div 256 ^ n < 256"
    using Suc.prems by (auto simp: less_mult_imp_div_less mult.commute)
  then have "(word_of_nat (x div 256 ^ n) :: byte) < word_of_nat (y div 256 ^ n) \<longleftrightarrow> x div 256 ^ n < y div 256 ^ n"
    "(word_of_nat (x div 256 ^ n) :: byte) = word_of_nat (y div 256 ^ n) \<longleftrightarrow> x div 256 ^ n = y div 256 ^ n"
    by (simp_all add: word_of_nat_eq_iff word_of_nat_less_iff take_bit_eq_mod)
  moreover have "be_bytes n x < be_bytes n y \<longleftrightarrow> x mod 256 ^ n < y mod 256 ^ n"
    using Suc.IH [of "x mod 256 ^ n" "y mod 256 ^ n"] by (simp add: be_bytes_mod)
  ultimately show ?case using div_mod_less [of x y "256 ^ n"] by simp
qed auto

lemma be_bytes_inj:
  "x < 256 ^ n \<Longrightarrow> y < 256 ^ n \<Longrightarrow> be_bytes n x = be_bytes n y \<longleftrightarrow> x = y"
  by (metis be_bytes_less less_irrefl linorder_neqE_nat)

lemma rev_upt_Suc: "rev [0..<Suc n] = n # rev [0..<n]"
  by simp

lemma be_bytes_map: "be_bytes n x = map (\<lambda>i. word_of_nat (x div 256 ^ i)) (rev [0..<n])"
  by (induction n) auto

lemma rev_store_word: "rev (store_word w) = be_bytes (LENGTH('a) div 8) (unat (w :: 'a::len word))"
proof -
  have "(ucast (drop_bit (8 * i) w) :: byte) = word_of_nat (unat w div 256 ^ i)" for i
  proof -
    have "unat (drop_bit (8 * i) w) = unat w div 256 ^ i"
      by (subst unat_drop_bit_eq) (simp add: drop_bit_eq_div power_mult)
    then show ?thesis by (metis of_nat_unat)
  qed
  then show ?thesis by (simp add: store_word_def be_bytes_map rev_map)
qed

lemma byte_masks:
  "(0xff00 :: 16 word) = push_bit 8 (mask 8)" "(0xff :: 16 word) = mask 8"
  "(0xff000000 :: 32 word) = push_bit 24 (mask 8)" "(0xff0000 :: 32 word) = push_bit 16 (mask 8)"
  "(0xff00 :: 32 word) = push_bit 8 (mask 8)" "(0xff :: 32 word) = mask 8"
  "(0xff00000000000000 :: 64 word) = push_bit 56 (mask 8)" "(0xff000000000000 :: 64 word) = push_bit 48 (mask 8)"
  "(0xff0000000000 :: 64 word) = push_bit 40 (mask 8)" "(0xff00000000 :: 64 word) = push_bit 32 (mask 8)"
  "(0xff000000 :: 64 word) = push_bit 24 (mask 8)" "(0xff0000 :: 64 word) = push_bit 16 (mask 8)"
  "(0xff00 :: 64 word) = push_bit 8 (mask 8)" "(0xff :: 64 word) = mask 8"
  by (simp_all add: mask_eq_exp_minus_1 push_bit_eq_mult)

lemma nth_store_word:
  "i < LENGTH('a) div 8 \<Longrightarrow> store_word (w :: 'a::len word) ! i = ucast (drop_bit (8 * i) w)"
  by (simp add: store_word_def)

lemma store_word_list:
  "store_word (a :: 8 word) = [a]"
  "store_word (b :: 16 word) = [ucast b, ucast (drop_bit 8 b)]"
  "store_word (c :: 32 word) = [ucast c, ucast (drop_bit 8 c), ucast (drop_bit 16 c), ucast (drop_bit 24 c)]"
  "store_word (d :: 64 word) = [ucast d, ucast (drop_bit 8 d), ucast (drop_bit 16 d), ucast (drop_bit 24 d),
     ucast (drop_bit 32 d), ucast (drop_bit 40 d), ucast (drop_bit 48 d), ucast (drop_bit 56 d)]"
  by (simp_all add: store_word_def upt_conv_Cons)

lemma store_bswap16: "store_word (bswap16 w) = rev (store_word w)"
  unfolding bswap16_def byte_masks store_word_list
  by (simp; intro conjI; intro bit_word_eqI; auto simp: bit_simps)

lemma store_bswap32: "store_word (bswap32 w) = rev (store_word w)"
  unfolding bswap32_def byte_masks store_word_list
  by (simp; intro conjI; intro bit_word_eqI; auto simp: bit_simps)

lemma store_bswap64: "store_word (bswap64 w) = rev (store_word w)"
  unfolding bswap64_def byte_masks store_word_list
  by (simp; intro conjI; intro bit_word_eqI; auto simp: bit_simps)

lemma flip_first_symbolic:
  assumes "m = 7" and "k = 15" and "l = 31" and "n = 63"
  shows "[a XOR push_bit m 1] = store_word ((a :: 8 word) XOR push_bit m 1)"
    "(rev (store_word b))[0 := rev (store_word b) ! 0 XOR push_bit m 1] = rev (store_word ((b :: 16 word) XOR push_bit k 1))"
    "(rev (store_word c))[0 := rev (store_word c) ! 0 XOR push_bit m 1] = rev (store_word ((c :: 32 word) XOR push_bit l 1))"
    "(rev (store_word d))[0 := rev (store_word d) ! 0 XOR push_bit m 1] = rev (store_word ((d :: 64 word) XOR push_bit n 1))"
  unfolding store_word_list
  by (simp; intro conjI bit_word_eqI; simp add: bit_simps; use assms in auto)+

lemma flip_first_rev:
  "flip_first (store_word (a :: 8 word)) = store_word (a XOR push_bit 7 1)"
  "flip_first (rev (store_word (b :: 16 word))) = rev (store_word (b XOR push_bit 15 1))"
  "flip_first (rev (store_word (c :: 32 word))) = rev (store_word (c XOR push_bit 31 1))"
  "flip_first (rev (store_word (d :: 64 word))) = rev (store_word (d XOR push_bit 63 1))"
  using flip_first_symbolic [OF refl refl refl refl] by (simp_all add: flip_first_def flip_sign_def store_word_list)

lemma uint_flip_sign:
  assumes "LENGTH('a) = Suc n"
  shows "uint (w XOR push_bit n 1) = sint (w :: 'a::len word) + 2 ^ n"
proof -
  have "w XOR push_bit n 1 = w + push_bit n 1"
  proof (cases "bit w n")
    case False
    then have "w AND push_bit n 1 = 0" by (auto intro!: bit_word_eqI simp: bit_simps)
    then show ?thesis by (simp only: disjunctive_add_eq_xor)
  next
    case True
    have z: "push_bit n 1 + push_bit n (1 :: 'a word) = 0"
      using assms by (simp add: push_bit_eq_mult flip: mult_2 power_Suc)
    have "(w XOR push_bit n 1) AND push_bit n 1 = 0" using True by (auto intro!: bit_word_eqI simp: bit_simps)
    then have "(w XOR push_bit n 1) + push_bit n 1 = (w XOR push_bit n 1) XOR push_bit n 1"
      by (simp only: disjunctive_add_eq_xor)
    also have "\<dots> = w" by (simp add: xor.assoc)
    finally have "w + push_bit n 1 = (w XOR push_bit n 1) + (push_bit n 1 + push_bit n 1)" by (metis add.assoc)
    then show ?thesis using z by (simp only: add_0_right)
  qed
  moreover have "uint (push_bit n 1 :: 'a word) = 2 ^ n"
    using assms by (subst unsigned_push_bit_eq) (simp add: take_bit_eq_mod)
  ultimately have "uint (w XOR push_bit n 1) = take_bit (Suc n) (uint w + 2 ^ n)"
    using assms by (simp only: uint_word_ariths(1) take_bit_eq_mod)
  also have "\<dots> = sint w + 2 ^ n"
    using assms by (simp add: sint_uint signed_take_bit_eq_take_bit_shift)
  finally show ?thesis .
qed

lemma unat_flip_sign:
  "LENGTH('a) = Suc n \<Longrightarrow> unat (w XOR push_bit n 1) = nat (sint (w :: 'a::len word) + 2 ^ n)"
  using uint_flip_sign [of n w] by (simp add: unat_eq_nat_uint del: push_bit_of_1)

lemma encode_signed:
  "encode_int8 a = be_bytes 1 (nat (sint a + 2 ^ 7))"
  "encode_int16 b = be_bytes 2 (nat (sint b + 2 ^ 15))"
  "encode_int32 c = be_bytes 4 (nat (sint c + 2 ^ 31))"
  "encode_int64 d = be_bytes 8 (nat (sint d + 2 ^ 63))"
proof -
  have "store_word (x :: 8 word) = rev (store_word x)" for x by (simp add: store_word_list)
  then show "encode_int8 a = be_bytes 1 (nat (sint a + 2 ^ 7))"
    unfolding encode_int8_def flip_first_rev using rev_store_word [of "a XOR push_bit 7 1"] unat_flip_sign [of 7 a]
    by (simp del: push_bit_of_1)
  show "encode_int16 b = be_bytes 2 (nat (sint b + 2 ^ 15))"
    unfolding encode_int16_def store_bswap16 flip_first_rev unfolding rev_store_word using unat_flip_sign [of 15 b]
    by (simp del: push_bit_of_1)
  show "encode_int32 c = be_bytes 4 (nat (sint c + 2 ^ 31))"
    unfolding encode_int32_def store_bswap32 flip_first_rev unfolding rev_store_word using unat_flip_sign [of 31 c]
    by (simp del: push_bit_of_1)
  show "encode_int64 d = be_bytes 8 (nat (sint d + 2 ^ 63))"
    unfolding encode_int64_def store_bswap64 flip_first_rev unfolding rev_store_word using unat_flip_sign [of 63 d]
    by (simp del: push_bit_of_1)
qed

lemma encode_unsigned:
  "encode_uint8 a = be_bytes 1 (unat a)"
  "encode_uint16 b = be_bytes 2 (unat b)"
  "encode_uint32 c = be_bytes 4 (unat c)"
  "encode_uint64 d = be_bytes 8 (unat d)"
proof -
  have "store_word (x :: 8 word) = rev (store_word x)" for x by (simp add: store_word_list)
  then show "encode_uint8 a = be_bytes 1 (unat a)"
    using rev_store_word [of a] by (simp add: encode_uint8_def)
qed (simp_all add: encode_uint16_def encode_uint32_def encode_uint64_def store_bswap16 store_bswap32 store_bswap64 rev_store_word)

section \<open>Floats\<close>

text \<open>
  What a float encoder promises: the unsigned image of a bit pattern as a function of its rank,
  for patterns that are not NaN.  The encoders of both widths satisfy it, and it makes the image
  strictly monotone and keeps it below the all-ones word.
\<close>

definition fp_image :: "nat \<Rightarrow> int \<Rightarrow> int \<Rightarrow> int" where
  "fp_image n lim r =
     (if r = lim then 2 ^ Suc n - 2 else if r = - lim then 0
      else if 0 \<le> r then 2 ^ n + r else 2 ^ n - 1 + r)"

locale float_encoder =
  fixes n :: nat and lim :: int and enc :: "'a::len word \<Rightarrow> 'a word"
  assumes width: "LENGTH('a) = Suc n"
    and lim_bounds: "0 < lim" "lim < 2 ^ n - 2"
    and image: "\<not> fp_nan lim w \<Longrightarrow> uint (enc w) = fp_image n lim (fp_rank w)"
begin

lemma image_mono: "- lim \<le> r \<Longrightarrow> r < s \<Longrightarrow> s \<le> lim \<Longrightarrow> fp_image n lim r < fp_image n lim s"
  using lim_bounds by (auto simp: fp_image_def)

lemma rank_bounds: "\<not> fp_nan lim w \<Longrightarrow> - lim \<le> fp_rank w \<and> fp_rank w \<le> lim"
  by (auto simp: fp_nan_def)

lemma enc_less:
  "\<not> fp_nan lim v \<Longrightarrow> \<not> fp_nan lim w \<Longrightarrow> enc v < enc w \<longleftrightarrow> fp_rank v < fp_rank w"
  using image_mono [of "fp_rank v" "fp_rank w"] image_mono [of "fp_rank w" "fp_rank v"]
  by (cases "fp_rank v" "fp_rank w" rule: linorder_cases) (auto simp: word_less_def image dest!: rank_bounds)

lemma enc_below: "\<not> fp_nan lim w \<Longrightarrow> uint (enc w) < 2 ^ LENGTH('a) - 1"
proof -
  assume w: "\<not> fp_nan lim w"
  have "fp_image n lim (fp_rank w) < 2 ^ Suc n - 1"
    using lim_bounds rank_bounds [OF w] by (auto simp: fp_image_def)
  then show ?thesis using image [OF w] width by simp
qed

end

lemma uint_split_top:
  "LENGTH('a) = Suc n \<Longrightarrow> uint (w :: 'a::len word) = uint (take_bit n w) + (if bit w n then 2 ^ n else 0)"
proof -
  assume a: "LENGTH('a) = Suc n"
  have "uint w = take_bit (Suc n) (uint w)" using a unsigned_less [of w] by (metis take_bit_int_eq_self unsigned_greater_eq)
  also have "\<dots> = take_bit n (uint w) + (if bit (uint w) n then 2 ^ n else 0)"
    by (simp add: take_bit_Suc_from_most of_bool_def)
  finally show ?thesis by (simp add: unsigned_take_bit_eq bit_unsigned_iff a)
qed

lemma fp_rank_alt:
  assumes "LENGTH('a) = Suc n"
  shows "fp_rank (w :: 'a::len word) = (if uint w < 2 ^ n then uint w else 2 ^ n - uint w)"
proof -
  have "uint (take_bit n w) < 2 ^ n" by (simp add: unsigned_take_bit_eq)
  then show ?thesis
    using uint_split_top [OF assms, of w] assms by (auto simp: fp_rank_def Let_def)
qed

lemma uint_less_top: "LENGTH('a) = Suc n \<Longrightarrow> uint (w :: 'a::len word) < 2 ^ n \<longleftrightarrow> \<not> bit w n"
proof -
  assume a: "LENGTH('a) = Suc n"
  have "0 \<le> uint (take_bit n w)" "uint (take_bit n w) < 2 ^ n" by (simp_all add: unsigned_take_bit_eq)
  then show ?thesis using uint_split_top [OF a, of w] by (simp split: if_splits)
qed

lemma uint_set_top:
  assumes "LENGTH('a) = Suc n" and "uint (w :: 'a::len word) < 2 ^ n"
  shows "uint (w OR push_bit n 1) = uint w + 2 ^ n" and "uint (w + push_bit n 1) = uint w + 2 ^ n"
    and "w AND push_bit n 1 = 0"
proof -
  have "\<not> bit w n" using assms uint_less_top by blast
  then show z: "w AND push_bit n 1 = 0" by (auto intro!: bit_word_eqI simp: bit_simps)
  have p: "uint (push_bit n 1 :: 'a word) = 2 ^ n"
    using assms(1) by (subst unsigned_push_bit_eq) (simp add: take_bit_eq_mod)
  have "uint (w + push_bit n 1) = (uint w + 2 ^ n) mod 2 ^ Suc n"
    using assms(1) p by (simp only: uint_word_ariths(1))
  also have "\<dots> = uint w + 2 ^ n" using assms(2) by (intro mod_pos_pos_trivial) auto
  finally show "uint (w + push_bit n 1) = uint w + 2 ^ n" .
  then show "uint (w OR push_bit n 1) = uint w + 2 ^ n" using z by (simp only: disjunctive_add_eq_or)
qed

lemma and_top_zero: "LENGTH('a) = Suc n \<Longrightarrow> (w :: 'a::len word) AND push_bit n 1 = 0 \<longleftrightarrow> uint w < 2 ^ n"
  by (metis uint_set_top(3) uint_less_top bit_iff_and_push_bit_not_eq_0)

lemma float_tests:
  assumes "LENGTH('a) = Suc n" and "\<not> fp_nan lim (w :: 'a::len word)" and "1 < lim"
    and "fp_rank (big :: 'a word) = lim - 1" and "fp_rank (small :: 'a word) = - (lim - 1)"
  shows "fp_eq lim w 0 \<longleftrightarrow> fp_rank w = 0" and "fp_less lim big w \<longleftrightarrow> fp_rank w = lim"
    and "fp_less lim w small \<longleftrightarrow> fp_rank w = - lim"
proof -
  have z: "fp_rank (0 :: 'a word) = 0" by (simp add: fp_rank_alt [OF assms(1)])
  then show "fp_eq lim w 0 \<longleftrightarrow> fp_rank w = 0" using assms(2,3) by (auto simp: fp_eq_def fp_nan_def)
  show "fp_less lim big w \<longleftrightarrow> fp_rank w = lim" "fp_less lim w small \<longleftrightarrow> fp_rank w = - lim"
    using assms(2-) by (auto simp: fp_less_def fp_nan_def)
qed

lemma encode_float_image:
  assumes "\<not> fp_nan FLT_INF w"
  shows "uint (encode_float w) = fp_image 31 FLT_INF (fp_rank w)"
proof -
  have "fp_rank FLT_MAX = FLT_INF - 1" "fp_rank NEG_FLT_MAX = - (FLT_INF - 1)"
    by (simp_all add: fp_rank_alt [where n = 31] FLT_MAX_def NEG_FLT_MAX_def FLT_INF_def)
  note t = float_tests [OF _ assms _ this]
  have r: "fp_rank w = (if uint w < 2 ^ 31 then uint w else 2 ^ 31 - uint w)" by (rule fp_rank_alt) simp
  have c: "uint (0 OR push_bit 31 (1 :: 32 word)) = 2 ^ 31" "uint (NOT 0 - 1 :: 32 word) = 2 ^ 32 - 2"
    "(1 :: int) < FLT_INF"
    by (simp_all add: FLT_INF_def)
  show ?thesis
  proof (cases "uint w < 2 ^ 31")
    case True
    then show ?thesis using r c uint_set_top(1,3) [of 31 w]
      by (simp add: encode_float_def t fp_image_def del: push_bit_of_1 or.left_neutral)
  next
    case False
    then have "w AND push_bit 31 1 \<noteq> 0" using and_top_zero [of 31 w] by simp
    then show ?thesis using False r c uint_not [of w]
      by (simp add: encode_float_def t fp_image_def del: push_bit_of_1 or.left_neutral)
  qed
qed

lemma encode_double_image:
  assumes "\<not> fp_nan DBL_INF w"
  shows "uint (encode_double w) = fp_image 63 DBL_INF (fp_rank w)"
proof -
  have "fp_rank DBL_MAX = DBL_INF - 1" "fp_rank NEG_DBL_MAX = - (DBL_INF - 1)"
    by (simp_all add: fp_rank_alt [where n = 63] DBL_MAX_def NEG_DBL_MAX_def DBL_INF_def)
  note t = float_tests [OF _ assms _ this]
  have r: "fp_rank w = (if uint w < 2 ^ 63 then uint w else 2 ^ 63 - uint w)" by (rule fp_rank_alt) simp
  have c: "uint (0 + push_bit 63 (1 :: 64 word)) = 2 ^ 63" "uint (NOT 0 - 1 :: 64 word) = 2 ^ 64 - 2"
    "(1 :: int) < DBL_INF"
    by (simp_all add: DBL_INF_def)
  have top: "w < push_bit 63 1 \<longleftrightarrow> uint w < 2 ^ 63" by (simp add: word_less_def)
  show ?thesis
  proof (cases "uint w < 2 ^ 63")
    case True
    then show ?thesis using r c uint_set_top(2) [of 63 w]
      by (simp add: encode_double_def t top fp_image_def del: push_bit_of_1 add_0)
  next
    case False
    then show ?thesis using r c uint_not [of w]
      by (simp add: encode_double_def t top fp_image_def del: push_bit_of_1 add_0)
  qed
qed

interpretation flt: float_encoder 31 FLT_INF encode_float
  by unfold_locales (simp_all add: FLT_INF_def encode_float_image [unfolded FLT_INF_def])

interpretation dbl: float_encoder 63 DBL_INF encode_double
  by unfold_locales (simp_all add: DBL_INF_def encode_double_image [unfolded DBL_INF_def])

end
