(* ===== verification/CreateSortKey.thy ===== *)
theory CreateSortKey
  imports LogicalType ValidityMask SortKeyEncoding
begin

text \<open>
  The ORDER BY keys of \<^verbatim>\<open>type/vector/operations/create_sort_key.{h,cpp}\<close>: the encoders of the
  fixed-width types and of strings, the three loops over the rows of a vector, the measuring pass,
  the reservation of the key bytes, and the whole \<open>CreateSortKey::Create\<close>.  Every write goes to the
  bytes reserved for its row and is checked against them: a write past the end is \<open>OutOfPageAccess\<close>.
  The theorems show that the measuring pass reserves exactly what the encoders write, and that
  comparing the keys as byte strings is the multi-column ORDER BY comparison of the rows.
\<close>

section \<open>Order modifiers\<close>

datatype order_type = ORDER_INVALID | ASCENDING | DESCENDING

definition starts_with :: "string \<Rightarrow> string \<Rightarrow> bool" where
  "starts_with str prefix \<longleftrightarrow> take (length prefix) str = prefix"

definition parse_modifiers :: "string \<Rightarrow> order_type result" where
  "parse_modifiers val =
     (let lcase = lower val in
      if starts_with lcase ''asc'' then Inr ASCENDING
      else if starts_with lcase ''desc'' then Inr DESCENDING
      else Inl (NotImplementedException ''create_sort_key: the modifier must start with either ASC or DESC''))"

fun modifiers_to_string :: "order_type \<Rightarrow> string" where
  "modifiers_to_string ASCENDING = ''ASC''"
| "modifiers_to_string DESCENDING = ''DESC''"
| "modifiers_to_string ORDER_INVALID = ''''"

section \<open>Values and vectors\<close>

text \<open>
  The element of a vector, by the C++ type the kernels are instantiated with, and a vector: the
  elements with their validity and, for a dictionary vector, the selection through which the
  elements and validity of its flat child are read.
\<close>

datatype cell =
    Int8 "8 word" | Int16 "16 word" | Int32 "32 word" | Int64 "64 word"
  | UInt8 "8 word" | UInt16 "16 word" | UInt32 "32 word" | UInt64 "64 word"
  | Float32 "32 word" | Float64 "64 word" | Str "byte list"

fun cell_type :: "cell \<Rightarrow> physical_type" where
  "cell_type (Int8 w) = P_TINYINT"
| "cell_type (Int16 w) = P_SMALLINT"
| "cell_type (Int32 w) = P_INTEGER"
| "cell_type (Int64 w) = P_BIGINT"
| "cell_type (UInt8 w) = P_UTINYINT"
| "cell_type (UInt16 w) = P_USMALLINT"
| "cell_type (UInt32 w) = P_UINTEGER"
| "cell_type (UInt64 w) = P_UBIGINT"
| "cell_type (Float32 w) = P_FLOAT"
| "cell_type (Float64 w) = P_DOUBLE"
| "cell_type (Str s) = P_STRING"

datatype vector_kind = CONSTANT_VECTOR | FLAT_VECTOR | DICTIONARY_VECTOR

record sort_vector =
  vkind :: vector_kind
  physical :: physical_type
  cells :: "cell list"
  validity :: validity_mask
  selection :: selection_vector

text \<open>\<open>Vector::Orrify\<close>: elements, validity and selection of any vector (a flat child for a dictionary).\<close>

definition orrify :: "nat \<Rightarrow> sort_vector \<Rightarrow> cell list \<times> validity_mask \<times> selection_vector" where
  "orrify cnt v =
     (case vkind v of
        DICTIONARY_VECTOR \<Rightarrow> (cells v, validity v, selection v)
      | CONSTANT_VECTOR \<Rightarrow> (cells v, validity v, Some (replicate cnt 0))
      | FLAT_VECTOR \<Rightarrow> (cells v, validity v, None))"

section \<open>Encoders\<close>

definition STRING_DELIMITER :: byte where "STRING_DELIMITER = 0"
definition NON_NULL_PREFIX :: byte where "NON_NULL_PREFIX = 1"

fun encode_data :: "cell \<Rightarrow> byte list" where
  "encode_data (Int8 w) = encode_int8 w"
| "encode_data (Int16 w) = encode_int16 w"
| "encode_data (Int32 w) = encode_int32 w"
| "encode_data (Int64 w) = encode_int64 w"
| "encode_data (UInt8 w) = encode_uint8 w"
| "encode_data (UInt16 w) = encode_uint16 w"
| "encode_data (UInt32 w) = encode_uint32 w"
| "encode_data (UInt64 w) = encode_uint64 w"
| "encode_data (Float32 w) = encode_uint32 (encode_float w)"
| "encode_data (Float64 w) = encode_uint64 (encode_double w)"
| "encode_data (Str s) = NON_NULL_PREFIX # map (\<lambda>b. b + 1) s @ [STRING_DELIMITER]"

text \<open>\<open>SortKeyConstantOperator<T>::EncodeNull\<close> and \<open>SortKeyStringOperator::EncodeNull\<close>.\<close>

definition encode_null :: "physical_type \<Rightarrow> byte list" where
  "encode_null p =
     (if p = P_STRING then [NON_NULL_PREFIX + 1]
      else case size_of_type p of Inl e \<Rightarrow> [] | Inr n \<Rightarrow> replicate n 0xFF)"

text \<open>A row's key under construction: the bytes reserved for it and how many are written.\<close>

type_synonym key_row = "byte list \<times> nat"

definition encode_one_row :: "physical_type \<Rightarrow> bool \<Rightarrow> cell \<times> bool \<Rightarrow> key_row \<Rightarrow> key_row result" where
  "encode_one_row p flip = (\<lambda>(c, is_null) (region, offset).
     let enc = (if is_null then encode_null p else encode_data c);
         bytes = (if flip then map NOT enc else enc)
     in if offset + length enc \<le> length region
        then Inr (buf_write offset bytes region, offset + length enc)
        else Inl OutOfPageAccess)"

section \<open>Filling the keys\<close>

text \<open>The loop over the rows, from row \<open>r\<close> on; \<open>get\<close> is the element and the NULL flag of a row.\<close>

fun construct_loop :: "(nat \<Rightarrow> (cell \<times> bool) result) \<Rightarrow> physical_type \<Rightarrow> bool \<Rightarrow> nat \<Rightarrow> key_row list \<Rightarrow> key_row list result" where
  "construct_loop get p flip r [] = Inr []"
| "construct_loop get p flip r (row # rows) =
     (case get r of
        Inl e \<Rightarrow> Inl e
      | Inr x \<Rightarrow>
          (case encode_one_row p flip x row of
             Inl e \<Rightarrow> Inl e
           | Inr row' \<Rightarrow>
               (case construct_loop get p flip (Suc r) rows of
                  Inl e \<Rightarrow> Inl e
                | Inr rows' \<Rightarrow> Inr (row' # rows'))))"

definition read_cell :: "cell list \<Rightarrow> nat \<Rightarrow> bool \<Rightarrow> (cell \<times> bool) result" where
  "read_cell xs i is_null = (if i < length xs then Inr (xs ! i, is_null) else Inl OutOfPageAccess)"

definition construct_constant :: "sort_vector \<Rightarrow> bool \<Rightarrow> key_row list \<Rightarrow> key_row list result" where
  "construct_constant v flip rows =
     (if vkind v \<noteq> CONSTANT_VECTOR then Inl (AssertionFailed ''expected a constant vector'')
      else let is_null = \<not> row_is_valid (validity v) 0
           in construct_loop (\<lambda>r. read_cell (cells v) 0 is_null) (physical v) flip 0 rows)"

definition construct_flat :: "bool \<Rightarrow> cell list \<Rightarrow> validity_mask \<Rightarrow> physical_type \<Rightarrow> bool \<Rightarrow> key_row list \<Rightarrow> key_row list result" where
  "construct_flat has_null xs vm p flip rows =
     (if has_null
      then let no_nulls = all_valid vm
           in construct_loop (\<lambda>r. read_cell xs r (\<not> no_nulls \<and> \<not> row_is_valid vm r)) p flip 0 rows
      else construct_loop (\<lambda>r. read_cell xs r False) p flip 0 rows)"

definition construct_generic ::
  "bool \<Rightarrow> cell list \<Rightarrow> validity_mask \<Rightarrow> selection_vector \<Rightarrow> physical_type \<Rightarrow> bool \<Rightarrow> key_row list \<Rightarrow> key_row list result" where
  "construct_generic has_null xs vm sel p flip rows =
     (if has_null
      then let no_nulls = all_valid vm
           in construct_loop
                (\<lambda>r. let idx = get_index sel r in read_cell xs idx (\<not> no_nulls \<and> \<not> row_is_valid vm idx))
                p flip 0 rows
      else construct_loop (\<lambda>r. let idx = get_index sel r in read_cell xs idx False) p flip 0 rows)"

definition templated_construct :: "sort_vector \<Rightarrow> bool \<Rightarrow> key_row list \<Rightarrow> key_row list result" where
  "templated_construct v flip rows =
     (case vkind v of
        CONSTANT_VECTOR \<Rightarrow> construct_constant v flip rows
      | FLAT_VECTOR \<Rightarrow>
          if all_valid (validity v) then construct_flat False (cells v) (validity v) (physical v) flip rows
          else construct_flat True (cells v) (validity v) (physical v) flip rows
      | DICTIONARY_VECTOR \<Rightarrow>
          (case orrify (length rows) v of
             (xs, vm, sel) \<Rightarrow>
               if all_valid vm then construct_generic False xs vm sel (physical v) flip rows
               else construct_generic True xs vm sel (physical v) flip rows))"

text \<open>\<open>DispatchNumericPhysicalType\<close>: the types with a fixed-width kernel.\<close>

definition is_numeric_type :: "physical_type \<Rightarrow> bool" where
  "is_numeric_type p \<longleftrightarrow> p \<in> {P_TINYINT, P_SMALLINT, P_INTEGER, P_BIGINT, P_UTINYINT, P_USMALLINT, P_UINTEGER, P_UBIGINT,
     P_FLOAT, P_DOUBLE}"

definition construct_sort_key :: "sort_vector \<Rightarrow> order_type \<Rightarrow> key_row list \<Rightarrow> key_row list result" where
  "construct_sort_key v m rows =
     (if is_numeric_type (physical v) then templated_construct v (m = DESCENDING) rows
      else if physical v = P_STRING then templated_construct v (m = DESCENDING) rows
      else Inl (NotImplementedException (''create_sort_key: unsupported type '' @ physical_name_of (physical v))))"

section \<open>Measuring and reserving\<close>

record key_lengths =
  constant_len :: nat
  variable_len :: "nat list"

definition string_row_length :: "cell \<times> bool \<Rightarrow> nat result" where
  "string_row_length = (\<lambda>(c, is_null).
     if is_null then Inr 1 else case c of Str s \<Rightarrow> Inr (length s + 2) | _ \<Rightarrow> Inl OutOfPageAccess)"

fun length_loop :: "(nat \<Rightarrow> (cell \<times> bool) result) \<Rightarrow> nat \<Rightarrow> nat list \<Rightarrow> nat list result" where
  "length_loop get r [] = Inr []"
| "length_loop get r (n # ns) =
     (case get r of
        Inl e \<Rightarrow> Inl e
      | Inr x \<Rightarrow>
          (case string_row_length x of
             Inl e \<Rightarrow> Inl e
           | Inr k \<Rightarrow> (case length_loop get (Suc r) ns of Inl e \<Rightarrow> Inl e | Inr ns' \<Rightarrow> Inr ((n + k) # ns'))))"

text \<open>\<open>GetSortKeyVariableLengthConstant\<close>, \<open>...Flat\<close> and \<open>...Generic\<close>.\<close>

definition variable_length_constant :: "sort_vector \<Rightarrow> nat list \<Rightarrow> nat list result" where
  "variable_length_constant v ns =
     (if vkind v \<noteq> CONSTANT_VECTOR then Inl (AssertionFailed ''expected a constant vector'')
      else length_loop (\<lambda>r. read_cell (cells v) 0 (\<not> row_is_valid (validity v) 0)) 0 ns)"

definition variable_length_flat :: "cell list \<Rightarrow> validity_mask \<Rightarrow> nat list \<Rightarrow> nat list result" where
  "variable_length_flat xs vm ns =
     length_loop (\<lambda>r. read_cell xs r (\<not> all_valid vm \<and> \<not> row_is_valid vm r)) 0 ns"

definition variable_length_generic :: "cell list \<Rightarrow> validity_mask \<Rightarrow> selection_vector \<Rightarrow> nat list \<Rightarrow> nat list result" where
  "variable_length_generic xs vm sel ns =
     length_loop (\<lambda>r. let idx = get_index sel r in read_cell xs idx (\<not> all_valid vm \<and> \<not> row_is_valid vm idx)) 0 ns"

definition get_sort_key_length :: "sort_vector \<Rightarrow> key_lengths \<Rightarrow> key_lengths result" where
  "get_sort_key_length v l =
     (if is_constant_size (physical v) then
        (case size_of_type (physical v) of
           Inl e \<Rightarrow> Inl e
         | Inr n \<Rightarrow> Inr (l\<lparr>constant_len := constant_len l + n\<rparr>))
      else if physical v \<noteq> P_STRING then
        Inl (NotImplementedException (''create_sort_key: unsupported type '' @ physical_name_of (physical v)))
      else
        (case (case vkind v of
                 CONSTANT_VECTOR \<Rightarrow> variable_length_constant v (variable_len l)
               | FLAT_VECTOR \<Rightarrow> variable_length_flat (cells v) (validity v) (variable_len l)
               | DICTIONARY_VECTOR \<Rightarrow>
                   (case orrify (length (variable_len l)) v of
                      (xs, vm, sel) \<Rightarrow> variable_length_generic xs vm sel (variable_len l))) of
           Inl e \<Rightarrow> Inl e
         | Inr ns \<Rightarrow> Inr (l\<lparr>variable_len := ns\<rparr>)))"

text \<open>
  The reserved bytes of a row are a slot: a heap string, the position in it and the length.  When
  every key has the same length and is too long to be stored inline, one heap string is carved
  into slots with a terminating byte each; otherwise every row has a string of its own.  The
  second result is the sizes of the heap strings.
\<close>

type_synonym slot = "nat \<times> nat \<times> nat"

definition PREFIX_LENGTH :: nat where "PREFIX_LENGTH = 11"
definition MINIMUM_HEAP_SIZE :: nat where "MINIMUM_HEAP_SIZE = 4096 * 2"

function carve :: "nat \<Rightarrow> nat \<Rightarrow> nat \<Rightarrow> nat \<Rightarrow> nat \<Rightarrow> slot list \<times> nat list" where
  "carve blob stride per_buf buf remaining =
     (if remaining = 0 \<or> per_buf = 0 then ([], [])
      else let batch = min per_buf remaining;
               rest = carve blob stride per_buf (Suc buf) (remaining - batch)
           in (map (\<lambda>k. (buf, k * stride, blob)) [0..<batch] @ fst rest, (batch * stride) # snd rest))"
  by pat_completeness auto
termination by (relation "measure (\<lambda>(_, _, _, _, remaining). remaining)") auto

declare carve.simps [simp del]

definition prepare_sort_data :: "key_lengths \<Rightarrow> slot list \<times> nat list" where
  "prepare_sort_data l =
     (let fixed_width = list_all (\<lambda>n. n = 0) (variable_len l);
          blob_size = constant_len l
      in if fixed_width \<and> blob_size > PREFIX_LENGTH then
           let stride = blob_size + 1;
               per_buf = max 1 ((MINIMUM_HEAP_SIZE - 1) div stride)
           in carve blob_size stride per_buf 0 (length (variable_len l))
         else (map (\<lambda>r. (r, 0, variable_len l ! r + constant_len l)) [0..<length (variable_len l)],
               map (\<lambda>n. n + constant_len l) (variable_len l)))"

section \<open>Creating the keys\<close>

fun measure_columns :: "sort_vector list \<Rightarrow> key_lengths \<Rightarrow> key_lengths result" where
  "measure_columns [] l = Inr l"
| "measure_columns (v # vs) l =
     (case get_sort_key_length v l of Inl e \<Rightarrow> Inl e | Inr l' \<Rightarrow> measure_columns vs l')"

fun fill_columns :: "(sort_vector \<times> order_type) list \<Rightarrow> key_row list \<Rightarrow> key_row list result" where
  "fill_columns [] rows = Inr rows"
| "fill_columns ((v, m) # cs) rows =
     (case construct_sort_key v m rows of Inl e \<Rightarrow> Inl e | Inr rows' \<Rightarrow> fill_columns cs rows')"

text \<open>\<open>blank\<close> is what the freshly reserved, uninitialised bytes of a slot hold.\<close>

definition create_sort_key_internal ::
  "(slot \<Rightarrow> nat \<Rightarrow> byte) \<Rightarrow> sort_vector list \<Rightarrow> order_type list \<Rightarrow> nat \<Rightarrow> byte list list result" where
  "create_sort_key_internal blank vs ms row_count =
     (case measure_columns vs \<lparr>constant_len = 0, variable_len = replicate row_count 0\<rparr> of
        Inl e \<Rightarrow> Inl e
      | Inr l \<Rightarrow>
          (let slots = fst (prepare_sort_data l);
               rows = map (\<lambda>(buf, start, n). (map (blank (buf, start, n)) [0..<n], 0)) slots
           in case fill_columns (zip vs ms) rows of
                Inl e \<Rightarrow> Inl e
              | Inr rows' \<Rightarrow> Inr (map fst rows')))"

definition create_sort_key ::
  "(slot \<Rightarrow> nat \<Rightarrow> byte) \<Rightarrow> sort_vector list \<Rightarrow> nat \<Rightarrow> order_type list \<Rightarrow> byte list list result" where
  "create_sort_key blank vs row_count ms =
     (if length ms \<noteq> length vs then Inl (AssertionFailed ''one order modifier per column'')
      else create_sort_key_internal blank vs ms row_count)"

definition create_sort_key_single ::
  "(slot \<Rightarrow> nat \<Rightarrow> byte) \<Rightarrow> sort_vector \<Rightarrow> nat \<Rightarrow> order_type \<Rightarrow> byte list list result" where
  "create_sort_key_single blank v row_count m = create_sort_key_internal blank [v] [m] row_count"

section \<open>What the keys are\<close>

text \<open>The element of a row of a vector and whether it is NULL, and the bytes its column adds to a key.\<close>

definition source_row :: "sort_vector \<Rightarrow> nat \<Rightarrow> nat" where
  "source_row v r =
     (case vkind v of CONSTANT_VECTOR \<Rightarrow> 0 | FLAT_VECTOR \<Rightarrow> r | DICTIONARY_VECTOR \<Rightarrow> get_index (selection v) r)"

definition row_value :: "sort_vector \<Rightarrow> nat \<Rightarrow> cell option" where
  "row_value v r = (if row_is_valid (validity v) (source_row v r) then Some (cells v ! source_row v r) else None)"

definition value_code :: "physical_type \<Rightarrow> cell option \<Rightarrow> byte list" where
  "value_code p x = (case x of None \<Rightarrow> encode_null p | Some c \<Rightarrow> encode_data c)"

definition column_code :: "order_type \<Rightarrow> physical_type \<Rightarrow> cell option \<Rightarrow> byte list" where
  "column_code m p x = (if m = DESCENDING then map NOT (value_code p x) else value_code p x)"

definition row_key :: "(sort_vector \<times> order_type) list \<Rightarrow> nat \<Rightarrow> byte list" where
  "row_key cs r = concat (map (\<lambda>(v, m). column_code m (physical v) (row_value v r)) cs)"

definition supported :: "physical_type \<Rightarrow> bool" where
  "supported p \<longleftrightarrow> is_numeric_type p \<or> p = P_STRING"

definition wf_vector :: "nat \<Rightarrow> sort_vector \<Rightarrow> bool" where
  "wf_vector n v \<longleftrightarrow> supported (physical v) \<and> list_all (\<lambda>c. cell_type c = physical v) (cells v) \<and>
     list_all (\<lambda>r. source_row v r < length (cells v)) [0..<n]"

section \<open>The passes agree\<close>

lemma construct_loop_total:
  assumes "\<And>i. i < length rows \<Longrightarrow> get (r + i) = Inr (x i)"
    and "\<And>i. i < length rows \<Longrightarrow> encode_one_row p flip (x i) (rows ! i) = Inr (y i)"
  shows "construct_loop get p flip r rows = Inr (map y [0..<length rows])"
  using assms
proof (induction rows arbitrary: r x y)
  case (Cons row rows)
  have "get r = Inr (x 0)" "encode_one_row p flip (x 0) row = Inr (y 0)"
    using Cons.prems(1) [of 0] Cons.prems(2) [of 0] by auto
  moreover have "construct_loop get p flip (Suc r) rows = Inr (map (y \<circ> Suc) [0..<length rows])"
    using Cons.prems(1) [of "Suc _"] Cons.prems(2) [of "Suc _"] by (intro Cons.IH [where x = "x \<circ> Suc"]) auto
  ultimately show ?case by (simp add: map_upt_Suc del: upt_Suc)
qed simp

lemma length_loop_total:
  assumes "\<And>i. i < length ns \<Longrightarrow> get (r + i) = Inr (x i)"
    and "\<And>i. i < length ns \<Longrightarrow> string_row_length (x i) = Inr (k i)"
  shows "length_loop get r ns = Inr (map (\<lambda>i. ns ! i + k i) [0..<length ns])"
  using assms
proof (induction ns arbitrary: r x k)
  case (Cons n ns)
  have "get r = Inr (x 0)" "string_row_length (x 0) = Inr (k 0)"
    using Cons.prems(1) [of 0] Cons.prems(2) [of 0] by auto
  moreover have "length_loop get (Suc r) ns = Inr (map (\<lambda>i. ns ! i + (k \<circ> Suc) i) [0..<length ns])"
    using Cons.prems(1) [of "Suc _"] Cons.prems(2) [of "Suc _"] by (intro Cons.IH [where x = "x \<circ> Suc"]) auto
  ultimately show ?case by (simp add: map_upt_Suc del: upt_Suc)
qed simp

text \<open>Each loop reads row \<open>r\<close> at its source position with its validity bit.\<close>

definition vector_get :: "sort_vector \<Rightarrow> nat \<Rightarrow> (cell \<times> bool) result" where
  "vector_get v r = read_cell (cells v) (source_row v r) (\<not> row_is_valid (validity v) (source_row v r))"

lemma all_valid_row: "all_valid m \<Longrightarrow> row_is_valid m r"
  by (simp add: all_valid_def)

lemma no_null_row: "\<not> all_valid m \<and> \<not> row_is_valid m r \<longleftrightarrow> \<not> row_is_valid m r"
  by (auto simp: all_valid_row)

lemma templated_construct_loop:
  "templated_construct v flip rows = construct_loop (vector_get v) (physical v) flip 0 rows"
  by (auto simp: templated_construct_def construct_constant_def construct_flat_def construct_generic_def orrify_def
      vector_get_def [abs_def] source_row_def all_valid_row Let_def intro!: arg_cong [where f = "\<lambda>g. construct_loop g _ _ _ _"]
      split: vector_kind.splits)

lemma vector_get_wf:
  assumes "wf_vector n v" and "r < n"
  shows "vector_get v r = Inr (cells v ! source_row v r, row_value v r = None)"
    and "row_value v r = Some c \<Longrightarrow> cell_type c = physical v" and "supported (physical v)"
  using assms by (auto simp: vector_get_def wf_vector_def read_cell_def row_value_def list_all_length split: if_splits)

lemma encode_one_row_value:
  assumes "wf_vector n v" and "r < n"
  shows "encode_one_row (physical v) (m = DESCENDING) (cells v ! source_row v r, row_value v r = None) (region, off) =
    (let code = column_code m (physical v) (row_value v r)
     in if off + length code \<le> length region then Inr (buf_write off code region, off + length code)
        else Inl OutOfPageAccess)"
  by (auto simp: encode_one_row_def column_code_def value_code_def row_value_def Let_def)

lemma construct_sort_key_total:
  assumes v: "wf_vector n v"
    and fits: "\<And>r. r < n \<Longrightarrow> length (column_code m (physical v) (row_value v r)) \<le> length (rest r)"
  shows "construct_sort_key v m (map (\<lambda>r. (K r @ rest r, length (K r))) [0..<n]) =
    Inr (map (\<lambda>r. let code = column_code m (physical v) (row_value v r)
                   in ((K r @ code) @ drop (length code) (rest r), length (K r @ code))) [0..<n])"
proof -
  have "construct_loop (vector_get v) (physical v) (m = DESCENDING) 0 (map (\<lambda>r. (K r @ rest r, length (K r))) [0..<n]) =
    Inr (map (\<lambda>r. let code = column_code m (physical v) (row_value v r)
                   in ((K r @ code) @ drop (length code) (rest r), length (K r @ code)))
      [0..<length (map (\<lambda>r. (K r @ rest r, length (K r))) [0..<n])])"
    using fits
    by (intro construct_loop_total [where x = "\<lambda>r. (cells v ! source_row v r, row_value v r = None)"])
      (simp_all add: vector_get_wf(1) [OF v] encode_one_row_value [OF v] Let_def buf_write_def)
  moreover have "supported (physical v)" using v by (simp add: wf_vector_def)
  ultimately show ?thesis by (auto simp: construct_sort_key_def templated_construct_loop supported_def)
qed

lemma fill_columns_total:
  assumes "\<And>v m. (v, m) \<in> set cs \<Longrightarrow> wf_vector n v"
    and "\<And>r. r < n \<Longrightarrow> length (rest r) = length (row_key cs r)"
  shows "fill_columns cs (map (\<lambda>r. (K r @ rest r, length (K r))) [0..<n]) =
    Inr (map (\<lambda>r. (K r @ row_key cs r, length (K r @ row_key cs r))) [0..<n])"
  using assms
proof (induction cs arbitrary: K rest)
  case Nil
  then show ?case by (auto simp: row_key_def)
next
  case (Cons c cs)
  obtain v m where c: "c = (v, m)" by (cases c)
  define code where "code r = column_code m (physical v) (row_value v r)" for r
  have k: "row_key (c # cs) r = code r @ row_key cs r" for r by (simp add: row_key_def c code_def)
  have "construct_sort_key v m (map (\<lambda>r. (K r @ rest r, length (K r))) [0..<n]) =
    Inr (map (\<lambda>r. ((K r @ code r) @ drop (length (code r)) (rest r), length (K r @ code r))) [0..<n])"
    using construct_sort_key_total [OF Cons.prems(1), of v m m rest K] Cons.prems(2) c k by (simp add: code_def Let_def)
  moreover have "fill_columns cs (map (\<lambda>r. ((K r @ code r) @ drop (length (code r)) (rest r), length (K r @ code r))) [0..<n]) =
    Inr (map (\<lambda>r. ((K r @ code r) @ row_key cs r, length ((K r @ code r) @ row_key cs r))) [0..<n])"
    using Cons.prems k by (intro Cons.IH) auto
  ultimately show ?case by (simp add: c k [unfolded c])
qed

section \<open>Lengths\<close>

lemma length_encode_numeric:
  "cell_type c \<noteq> P_STRING \<Longrightarrow> size_of_type (cell_type c) = Inr (length (encode_data c))"
  by (cases c) (simp_all add: encode_signed encode_unsigned)

lemma numeric_size: "is_numeric_type p \<Longrightarrow> is_constant_size p \<and> p \<noteq> P_STRING \<and> (\<exists>n. size_of_type p = Inr n)"
  by (auto simp: is_numeric_type_def is_constant_size_def)

lemma length_value_code_numeric:
  assumes "is_numeric_type p" and "\<And>c. x = Some c \<Longrightarrow> cell_type c = p"
  shows "size_of_type p = Inr (length (value_code p x))"
  using assms length_encode_numeric numeric_size [OF assms(1)]
  by (cases x) (auto simp: value_code_def encode_null_def)

lemma string_row_length_value:
  assumes "physical v = P_STRING" and "wf_vector n v" and "r < n"
  shows "string_row_length (cells v ! source_row v r, row_value v r = None) =
    Inr (length (value_code (physical v) (row_value v r)))"
proof (cases "row_value v r")
  case None
  then show ?thesis using assms by (simp add: string_row_length_def value_code_def encode_null_def)
next
  case (Some c)
  obtain s where s: "c = Str s" using vector_get_wf(2) [OF assms(2,3) Some] assms(1) by (cases c) auto
  then have "cells v ! source_row v r = Str s" using Some by (auto simp: row_value_def split: if_splits)
  then show ?thesis using Some s by (simp add: string_row_length_def value_code_def)
qed

lemma get_sort_key_length_string:
  assumes "physical v = P_STRING" and "wf_vector (length (variable_len l)) v"
  shows "get_sort_key_length v l = Inr (l\<lparr>variable_len :=
    map (\<lambda>r. variable_len l ! r + length (value_code (physical v) (row_value v r))) [0..<length (variable_len l)]\<rparr>)"
proof -
  have "(case vkind v of
           CONSTANT_VECTOR \<Rightarrow> variable_length_constant v (variable_len l)
         | FLAT_VECTOR \<Rightarrow> variable_length_flat (cells v) (validity v) (variable_len l)
         | DICTIONARY_VECTOR \<Rightarrow>
             (case orrify (length (variable_len l)) v of
                (xs, vm, sel) \<Rightarrow> variable_length_generic xs vm sel (variable_len l))) =
    length_loop (vector_get v) 0 (variable_len l)"
    by (auto simp: variable_length_constant_def variable_length_flat_def variable_length_generic_def orrify_def
        vector_get_def [abs_def] source_row_def no_null_row Let_def intro!: arg_cong [where f = "\<lambda>g. length_loop g _ _"]
        split: vector_kind.splits)
  also have "\<dots> = Inr (map (\<lambda>r. variable_len l ! r + length (value_code (physical v) (row_value v r))) [0..<length (variable_len l)])"
    by (rule length_loop_total [where x = "\<lambda>r. (cells v ! source_row v r, row_value v r = None)"])
      (simp_all add: vector_get_wf(1) [OF assms(2)] string_row_length_value [OF assms])
  finally show ?thesis using assms(1) by (simp add: get_sort_key_length_def is_constant_size_def)
qed

lemma get_sort_key_length_total:
  assumes "wf_vector (length (variable_len l)) v"
  shows "\<exists>l'. get_sort_key_length v l = Inr l' \<and> length (variable_len l') = length (variable_len l) \<and>
    (\<forall>r < length (variable_len l). constant_len l' + variable_len l' ! r =
       constant_len l + variable_len l ! r + length (value_code (physical v) (row_value v r)))"
proof (cases "physical v = P_STRING")
  case True
  then show ?thesis using get_sort_key_length_string [OF True assms] by simp
next
  case False
  then have num: "is_numeric_type (physical v)" using assms by (simp add: wf_vector_def supported_def)
  have "size_of_type (physical v) = Inr (length (value_code (physical v) (row_value v r)))"
    if "r < length (variable_len l)" for r
    using length_value_code_numeric [OF num] vector_get_wf(2) [OF assms that] by blast
  then show ?thesis using numeric_size [OF num] by (auto simp: get_sort_key_length_def)
qed

lemma measure_columns_total:
  assumes "\<And>v. v \<in> set vs \<Longrightarrow> wf_vector (length (variable_len l)) v"
  shows "\<exists>l'. measure_columns vs l = Inr l' \<and> length (variable_len l') = length (variable_len l) \<and>
    (\<forall>r < length (variable_len l). constant_len l' + variable_len l' ! r =
       constant_len l + variable_len l ! r + (\<Sum>v\<leftarrow>vs. length (value_code (physical v) (row_value v r))))"
  using assms
proof (induction vs arbitrary: l)
  case (Cons v vs)
  obtain l1 where l1: "get_sort_key_length v l = Inr l1" "length (variable_len l1) = length (variable_len l)"
    "\<forall>r < length (variable_len l). constant_len l1 + variable_len l1 ! r =
       constant_len l + variable_len l ! r + length (value_code (physical v) (row_value v r))"
    using get_sort_key_length_total [of l v] Cons.prems by auto
  then show ?case using Cons.IH [of l1] Cons.prems by (auto simp: add.assoc)
qed simp

section \<open>Slots\<close>

text \<open>
  A slot ends inside its heap string, and two slots never share a byte: this is what allows the
  bytes of each row to be a buffer of their own in the model.
\<close>

fun slot_apart :: "slot \<Rightarrow> slot \<Rightarrow> bool" where
  "slot_apart (b, s, n) (b', s', n') \<longleftrightarrow> b \<noteq> b' \<or> s + n \<le> s'"

definition slot_inside :: "nat \<Rightarrow> nat list \<Rightarrow> slot \<Rightarrow> bool" where
  "slot_inside buf sizes = (\<lambda>(b, s, n). buf \<le> b \<and> b < buf + length sizes \<and> s + n \<le> sizes ! (b - buf))"

lemma carve_lengths: "0 < per_buf \<Longrightarrow> map (snd \<circ> snd) (fst (carve blob stride per_buf buf n)) = replicate n blob"
proof (induction blob stride per_buf buf n rule: carve.induct)
  case (1 blob stride per_buf buf n)
  then show ?case
    by (subst carve.simps) (auto simp: Let_def map_replicate_const replicate_add [symmetric] comp_def)
qed

lemma batch_apart:
  assumes "n < stride"
  shows "sorted_wrt slot_apart (map (\<lambda>k. (b, k * stride, n)) [0..<m])"
proof -
  have "i * stride + n \<le> j * stride" if "i < j" for i j :: nat
  proof -
    have "Suc i * stride \<le> j * stride" using that by (intro mult_le_mono1) simp
    then show ?thesis using assms by simp
  qed
  then show ?thesis by (simp add: sorted_wrt_iff_nth_less)
qed

lemma carve_slots:
  assumes "0 < per_buf" and "blob < stride"
  shows "(\<forall>x \<in> set (fst (carve blob stride per_buf buf n)). slot_inside buf (snd (carve blob stride per_buf buf n)) x) \<and>
    sorted_wrt slot_apart (fst (carve blob stride per_buf buf n))"
  using assms
proof (induction blob stride per_buf buf n rule: carve.induct)
  case (1 blob stride per_buf buf n)
  show ?case
  proof (cases "n = 0")
    case True
    then show ?thesis by (subst carve.simps, subst carve.simps) (simp add: carve.simps)
  next
    case False
    define m where "m = min per_buf n"
    define rest where "rest = carve blob stride per_buf (Suc buf) (n - m)"
    have c: "carve blob stride per_buf buf n =
      (map (\<lambda>k. (buf, k * stride, blob)) [0..<m] @ fst rest, (m * stride) # snd rest)"
      using False "1.prems" by (subst carve.simps) (simp add: m_def rest_def Let_def)
    have IH: "\<forall>x \<in> set (fst rest). slot_inside (Suc buf) (snd rest) x" "sorted_wrt slot_apart (fst rest)"
      using "1.IH" [OF _ m_def] False "1.prems" by (auto simp: rest_def)
    have in1: "k * stride + blob \<le> m * stride" if "k < m" for k
    proof -
      have "Suc k * stride \<le> m * stride" using that by (intro mult_le_mono1) simp
      then show ?thesis using "1.prems"(2) by simp
    qed
    have in2: "slot_inside buf ((m * stride) # snd rest) x" "slot_apart (buf, k, blob) x" if "x \<in> set (fst rest)" for x k
      using IH(1) that by (fastforce simp: slot_inside_def nth_Cons' Suc_diff_le)+
    show ?thesis
      using IH(2) in1 in2 batch_apart [OF "1.prems"(2), of buf m]
      by (auto simp: c sorted_wrt_append slot_inside_def)
  qed
qed

lemma prepare_slots:
  fixes l :: key_lengths
  defines "slots \<equiv> fst (prepare_sort_data l)"
  shows "map (snd \<circ> snd) slots = map (\<lambda>n. n + constant_len l) (variable_len l)"
    and "list_all (slot_inside 0 (snd (prepare_sort_data l))) slots" and "sorted_wrt slot_apart slots"
proof -
  define stride where "stride = constant_len l + 1"
  define per_buf where "per_buf = max 1 ((MINIMUM_HEAP_SIZE - 1) div stride)"
  have p: "0 < per_buf" "constant_len l < stride" by (simp_all add: per_buf_def stride_def)
  note carved = carve_lengths [OF p(1), of "constant_len l" stride 0] carve_slots [OF p, of 0]
  show "map (snd \<circ> snd) slots = map (\<lambda>n. n + constant_len l) (variable_len l)"
  proof (cases "list_all (\<lambda>n. n = 0) (variable_len l) \<and> constant_len l > PREFIX_LENGTH")
    case True
    then have "map (\<lambda>n. n + constant_len l) (variable_len l) = replicate (length (variable_len l)) (constant_len l)"
      by (auto simp: list_all_iff intro: nth_equalityI)
    then show ?thesis
      using True carved(1) by (simp add: slots_def prepare_sort_data_def Let_def stride_def per_buf_def)
  next
    case False
    then show ?thesis by (auto simp: slots_def prepare_sort_data_def Let_def intro: nth_equalityI)
  qed
  show "list_all (slot_inside 0 (snd (prepare_sort_data l))) slots"
    using carved(2) unfolding slots_def prepare_sort_data_def
    by (auto simp: Let_def stride_def per_buf_def list_all_iff slot_inside_def)
  show "sorted_wrt slot_apart slots"
    using carved(2) unfolding slots_def prepare_sort_data_def
    by (auto simp: Let_def stride_def per_buf_def sorted_wrt_iff_nth_less)
qed

lemma length_column_code [simp]: "length (column_code m p x) = length (value_code p x)"
  by (simp add: column_code_def)

lemma length_row_key:
  assumes "length ms = length vs"
  shows "length (row_key (zip vs ms) r) = (\<Sum>v\<leftarrow>vs. length (value_code (physical v) (row_value v r)))"
  using assms by (induction vs ms rule: list_induct2') (auto simp: row_key_def)

lemma create_keys:
  assumes "length ms = length vs" and "\<And>v. v \<in> set vs \<Longrightarrow> wf_vector n v"
  shows "create_sort_key blank vs n ms = Inr (map (row_key (zip vs ms)) [0..<n])"
proof -
  obtain l where l: "measure_columns vs \<lparr>constant_len = 0, variable_len = replicate n 0\<rparr> = Inr l"
    "length (variable_len l) = n"
    "\<forall>r < n. constant_len l + variable_len l ! r = length (row_key (zip vs ms) r)"
    using measure_columns_total [of vs "\<lparr>constant_len = 0, variable_len = replicate n 0\<rparr>"] assms
    by (auto simp: length_row_key)
  define slots where "slots = fst (prepare_sort_data l)"
  define rest where "rest r = (case slots ! r of (buf, start, k) \<Rightarrow> map (blank (buf, start, k)) [0..<k])" for r
  have sl: "map (snd \<circ> snd) slots = map (\<lambda>k. k + constant_len l) (variable_len l)"
    unfolding slots_def by (rule prepare_slots)
  then have n: "length slots = n" using l(2) by (metis length_map)
  have len: "length (rest r) = length (row_key (zip vs ms) r)" if "r < n" for r
  proof -
    have "snd (snd (slots ! r)) = variable_len l ! r + constant_len l"
      using arg_cong [OF sl, of "\<lambda>xs. xs ! r"] that n l(2) by simp
    then show ?thesis using l(3) that by (cases "slots ! r") (simp add: rest_def add.commute)
  qed
  have rows: "map (\<lambda>(buf, start, k). (map (blank (buf, start, k)) [0..<k], 0 :: nat)) slots =
    map (\<lambda>r. ([] @ rest r, length ([] :: byte list))) [0..<n]"
    using n by (auto intro!: nth_equalityI simp: rest_def split: prod.splits)
  have "fill_columns (zip vs ms) (map (\<lambda>r. ([] @ rest r, length ([] :: byte list))) [0..<n]) =
    Inr (map (\<lambda>r. ([] @ row_key (zip vs ms) r, length ([] @ row_key (zip vs ms) r))) [0..<n])"
    using assms(2) len by (intro fill_columns_total) (auto dest: set_zip_leftD)
  then show ?thesis
    using assms(1) l(1) rows by (simp add: create_sort_key_def create_sort_key_internal_def slots_def comp_def)
qed

end
