(* ===== verification/SortKeyOrder.thy ===== *)
theory SortKeyOrder
  imports CreateSortKey
begin

text \<open>
  The order of the sort keys.  \<open>row_before\<close> is the ORDER BY order of two rows, independent of any
  encoding; the locale \<open>column_encoding\<close> is what a column's encoding has to promise for the
  concatenated keys to follow it; its interpretation shows that the encoders of
  \<^verbatim>\<open>create_sort_key.cpp\<close> keep the promise on the values named by \<open>comparable\<close>, and the last section
  shows what happens outside of them.
\<close>

section \<open>The order of the keys\<close>

text \<open>
  The order of two values of a column (C++ comparison of the elements; NULL is above every value),
  the order a column's modifier asks for, and the ORDER BY order of two rows.
\<close>

fun cell_less :: "cell \<Rightarrow> cell \<Rightarrow> bool" where
  "cell_less (Int8 a) y = (case y of Int8 b \<Rightarrow> sint a < sint b | _ \<Rightarrow> False)"
| "cell_less (Int16 a) y = (case y of Int16 b \<Rightarrow> sint a < sint b | _ \<Rightarrow> False)"
| "cell_less (Int32 a) y = (case y of Int32 b \<Rightarrow> sint a < sint b | _ \<Rightarrow> False)"
| "cell_less (Int64 a) y = (case y of Int64 b \<Rightarrow> sint a < sint b | _ \<Rightarrow> False)"
| "cell_less (UInt8 a) y = (case y of UInt8 b \<Rightarrow> a < b | _ \<Rightarrow> False)"
| "cell_less (UInt16 a) y = (case y of UInt16 b \<Rightarrow> a < b | _ \<Rightarrow> False)"
| "cell_less (UInt32 a) y = (case y of UInt32 b \<Rightarrow> a < b | _ \<Rightarrow> False)"
| "cell_less (UInt64 a) y = (case y of UInt64 b \<Rightarrow> a < b | _ \<Rightarrow> False)"
| "cell_less (Float32 a) y = (case y of Float32 b \<Rightarrow> fp_less FLT_INF a b | _ \<Rightarrow> False)"
| "cell_less (Float64 a) y = (case y of Float64 b \<Rightarrow> fp_less DBL_INF a b | _ \<Rightarrow> False)"
| "cell_less (Str a) y = (case y of Str b \<Rightarrow> string_less a b | _ \<Rightarrow> False)"

definition value_before :: "cell option \<Rightarrow> cell option \<Rightarrow> bool" where
  "value_before x y =
     (case x of
        None \<Rightarrow> False
      | Some a \<Rightarrow> (case y of None \<Rightarrow> True | Some b \<Rightarrow> cell_less a b))"

definition column_before :: "order_type \<Rightarrow> cell option \<Rightarrow> cell option \<Rightarrow> bool" where
  "column_before m x y = (if m = DESCENDING then value_before y x else value_before x y)"

fun row_before :: "order_type list \<Rightarrow> cell option list \<Rightarrow> cell option list \<Rightarrow> bool" where
  "row_before (m # ms) (x # xs) (y # ys) =
     (column_before m x y \<or> \<not> column_before m y x \<and> row_before ms xs ys)"
| "row_before ms xs ys = False"

text \<open>
  The values for which the encoding is faithful: no NaN, no string byte \<open>0xFF\<close> (which wraps to the
  delimiter), and no integer maximum next to a NULL (both are all-\<open>0xFF\<close> bytes).
\<close>

fun plain :: "cell \<Rightarrow> bool" where
  "plain (Float32 w) \<longleftrightarrow> \<not> fp_nan FLT_INF w"
| "plain (Float64 w) \<longleftrightarrow> \<not> fp_nan DBL_INF w"
| "plain (Str s) \<longleftrightarrow> 255 \<notin> set s"
| "plain c \<longleftrightarrow> True"

fun is_maximum :: "cell \<Rightarrow> bool" where
  "is_maximum (Int8 w) \<longleftrightarrow> w = 0x7F"
| "is_maximum (Int16 w) \<longleftrightarrow> w = 0x7FFF"
| "is_maximum (Int32 w) \<longleftrightarrow> w = 0x7FFFFFFF"
| "is_maximum (Int64 w) \<longleftrightarrow> w = 0x7FFFFFFFFFFFFFFF"
| "is_maximum (UInt8 w) \<longleftrightarrow> w = 0xFF"
| "is_maximum (UInt16 w) \<longleftrightarrow> w = 0xFFFF"
| "is_maximum (UInt32 w) \<longleftrightarrow> w = 0xFFFFFFFF"
| "is_maximum (UInt64 w) \<longleftrightarrow> w = 0xFFFFFFFFFFFFFFFF"
| "is_maximum c \<longleftrightarrow> False"

definition comparable :: "physical_type \<Rightarrow> cell option \<Rightarrow> cell option \<Rightarrow> bool" where
  "comparable p x y \<longleftrightarrow> supported p \<and> pred_option (\<lambda>c. cell_type c = p \<and> plain c) x \<and>
     pred_option (\<lambda>c. cell_type c = p \<and> plain c) y \<and>
     (x = None \<longrightarrow> pred_option (\<lambda>c. \<not> is_maximum c) y) \<and> (y = None \<longrightarrow> pred_option (\<lambda>c. \<not> is_maximum c) x)"

text \<open>
  What a column encoding has to promise for the concatenated keys to be ordered column by column:
  two encodings are equal or differ at a common position, and their byte order is the value order.
\<close>

locale column_encoding =
  fixes enc :: "'t \<Rightarrow> 'v \<Rightarrow> byte list" and before :: "'v \<Rightarrow> 'v \<Rightarrow> bool" and ok :: "'t \<Rightarrow> 'v \<Rightarrow> 'v \<Rightarrow> bool"
  assumes ok_sym: "ok t x y \<Longrightarrow> ok t y x"
    and enc_apart: "ok t x y \<Longrightarrow> enc t x = enc t y \<or> differ (enc t x) (enc t y)"
    and enc_less: "ok t x y \<Longrightarrow> enc t x < enc t y \<longleftrightarrow> before x y"
begin

lemma column_less:
  assumes "ok t x y"
  shows "(if d then map NOT (enc t x) else enc t x) @ xs < (if d then map NOT (enc t y) else enc t y) @ ys \<longleftrightarrow>
    (if d then before y x else before x y) \<or>
    \<not> (if d then before x y else before y x) \<and> xs < ys"
proof (cases "enc t x = enc t y")
  case True
  then have "\<not> before x y" "\<not> before y x" using assms ok_sym enc_less by (metis less_irrefl)+
  moreover have "zs @ xs < zs @ ys \<longleftrightarrow> xs < ys" for zs :: "byte list" by (induction zs) auto
  ultimately show ?thesis using True by simp
next
  case False
  then have d: "differ (enc t x) (enc t y)" using enc_apart [OF assms] by blast
  have b: "before x y \<longleftrightarrow> enc t x < enc t y" "before y x \<longleftrightarrow> enc t y < enc t x"
    using assms ok_sym enc_less by blast+
  have "differ (map NOT (enc t x)) (map NOT (enc t y))" using d by (simp add: differ_map_not)
  then show ?thesis using d differ_total [OF d] by (auto simp: b differ_append map_not_less)
qed

end

subsection \<open>The encoders promise it\<close>

text \<open>The number whose big-endian bytes a fixed-width encoding is.\<close>

fun cell_rank :: "cell \<Rightarrow> nat" where
  "cell_rank (Int8 w) = nat (sint w + 2 ^ 7)"
| "cell_rank (Int16 w) = nat (sint w + 2 ^ 15)"
| "cell_rank (Int32 w) = nat (sint w + 2 ^ 31)"
| "cell_rank (Int64 w) = nat (sint w + 2 ^ 63)"
| "cell_rank (UInt8 w) = unat w"
| "cell_rank (UInt16 w) = unat w"
| "cell_rank (UInt32 w) = unat w"
| "cell_rank (UInt64 w) = unat w"
| "cell_rank (Float32 w) = unat (encode_float w)"
| "cell_rank (Float64 w) = unat (encode_double w)"
| "cell_rank (Str s) = 0"

lemma encode_data_rank:
  assumes "cell_type c \<noteq> P_STRING" and "size_of_type (cell_type c) = Inr n"
  shows "encode_data c = be_bytes n (cell_rank c)"
  using assms by (cases c) (auto simp: encode_signed encode_unsigned)

lemma sint_range: "LENGTH('a) = Suc n \<Longrightarrow> - (2 ^ n) \<le> sint (w :: 'a::len word) \<and> sint w < 2 ^ n"
  using sint_ge [of w] sint_lt [of w] by simp

lemma cell_rank_bound:
  assumes "cell_type c \<noteq> P_STRING" and "size_of_type (cell_type c) = Inr n"
  shows "cell_rank c < 256 ^ n"
proof (cases c)
  case (Int8 w) then show ?thesis using assms sint_range [of 7 w] by auto
next
  case (Int16 w) then show ?thesis using assms sint_range [of 15 w] by auto
next
  case (Int32 w) then show ?thesis using assms sint_range [of 31 w] by auto
next
  case (Int64 w) then show ?thesis using assms sint_range [of 63 w] by auto
next
  case (UInt8 w) then show ?thesis using assms unsigned_less [of w] by auto
next
  case (UInt16 w) then show ?thesis using assms unsigned_less [of w] by auto
next
  case (UInt32 w) then show ?thesis using assms unsigned_less [of w] by auto
next
  case (UInt64 w) then show ?thesis using assms unsigned_less [of w] by auto
next
  case (Float32 w) then show ?thesis using assms unsigned_less [of "encode_float w"] by auto
next
  case (Float64 w) then show ?thesis using assms unsigned_less [of "encode_double w"] by auto
qed (use assms in auto)

lemma cell_rank_less:
  assumes "cell_type a = cell_type b" and "cell_type a \<noteq> P_STRING" and "plain a" and "plain b"
  shows "cell_less a b \<longleftrightarrow> cell_rank a < cell_rank b"
proof (cases a)
  case (Int8 v)
  then show ?thesis using assms sint_range [of 7 v] by (cases b) (auto simp: nat_less_eq_zless)
next
  case (Int16 v)
  then show ?thesis using assms sint_range [of 15 v] by (cases b) (auto simp: nat_less_eq_zless)
next
  case (Int32 v)
  then show ?thesis using assms sint_range [of 31 v] by (cases b) (auto simp: nat_less_eq_zless)
next
  case (Int64 v)
  then show ?thesis using assms sint_range [of 63 v] by (cases b) (auto simp: nat_less_eq_zless)
next
  case (Float32 v)
  then show ?thesis using assms by (cases b) (auto simp: fp_less_def flt.enc_less simp flip: word_less_nat_alt)
next
  case (Float64 v)
  then show ?thesis using assms by (cases b) (auto simp: fp_less_def dbl.enc_less simp flip: word_less_nat_alt)
qed (use assms in \<open>cases b; auto simp: word_less_nat_alt\<close>)+

lemma ones_div_mod: "0 < q \<Longrightarrow> (256 * q - 1) div q = 255 \<and> (256 * q - 1) mod q = q - (1 :: nat)"
proof -
  assume q: "0 < q"
  have d: "(256 * q - 1) div q = 255" using q by (intro div_nat_eqI) auto
  have "(256 * q - 1) mod q = 256 * q - 1 - (256 * q - 1) div q * q" by (simp only: minus_div_mult_eq_mod)
  then show ?thesis using q d by simp
qed

lemma be_bytes_ones: "be_bytes n (256 ^ n - 1) = replicate n 0xFF"
proof (induction n)
  case (Suc n)
  then show ?case using ones_div_mod [of "256 ^ n"] be_bytes_mod [of n n "256 ^ Suc n - 1"] by simp
qed simp

lemma encode_null_rank:
  assumes "p \<noteq> P_STRING" and "size_of_type p = Inr n"
  shows "encode_null p = be_bytes n (256 ^ n - 1)"
  using assms by (simp add: encode_null_def be_bytes_ones del: One_nat_def)

lemma sint_top:
  "(w = (0x7F :: 8 word)) = (sint w = 127)" "(x = (0x7FFF :: 16 word)) = (sint x = 32767)"
  "(y = (0x7FFFFFFF :: 32 word)) = (sint y = 2147483647)"
  "(z = (0x7FFFFFFFFFFFFFFF :: 64 word)) = (sint z = 9223372036854775807)"
proof -
  have "sint (0x7F :: 8 word) = 127" "sint (0x7FFF :: 16 word) = 32767" "sint (0x7FFFFFFF :: 32 word) = 2147483647"
    "sint (0x7FFFFFFFFFFFFFFF :: 64 word) = 9223372036854775807"
    by simp_all
  then show "(w = (0x7F :: 8 word)) = (sint w = 127)" "(x = (0x7FFF :: 16 word)) = (sint x = 32767)"
    "(y = (0x7FFFFFFF :: 32 word)) = (sint y = 2147483647)"
    "(z = (0x7FFFFFFFFFFFFFFF :: 64 word)) = (sint z = 9223372036854775807)"
    by (metis signed_word_eqI)+
qed

lemma unat_top:
  "(w = (0xFF :: 8 word)) = (unat w = 255)" "(x = (0xFFFF :: 16 word)) = (unat x = 65535)"
  "(y = (0xFFFFFFFF :: 32 word)) = (unat y = 4294967295)"
  "(z = (0xFFFFFFFFFFFFFFFF :: 64 word)) = (unat z = 18446744073709551615)"
  by (simp_all add: word_unat_eq_iff)

lemma unat_below: "uint x < 2 ^ n - 1 \<Longrightarrow> unat x < 2 ^ n - (1 :: nat)"
proof -
  assume a: "uint x < 2 ^ n - 1"
  have "int (unat x) = uint x" "int (2 ^ n - 1) = 2 ^ n - 1" by (simp_all add: of_nat_diff)
  then show ?thesis using a by (metis of_nat_less_iff)
qed

lemma cell_rank_max:
  assumes "cell_type c \<noteq> P_STRING" and "size_of_type (cell_type c) = Inr n" and "plain c"
  shows "cell_rank c = 256 ^ n - 1 \<longleftrightarrow> is_maximum c"
proof (cases c)
  case (Int8 w) then show ?thesis using assms sint_range [of 7 w] by (auto simp: sint_top)
next
  case (Int16 w) then show ?thesis using assms sint_range [of 15 w] by (auto simp: sint_top)
next
  case (Int32 w) then show ?thesis using assms sint_range [of 31 w] by (auto simp: sint_top)
next
  case (Int64 w) then show ?thesis using assms sint_range [of 63 w] by (auto simp: sint_top)
next
  case (Float32 w) then show ?thesis using assms unat_below [OF flt.enc_below, of w] by auto
next
  case (Float64 w) then show ?thesis using assms unat_below [OF dbl.enc_below, of w] by auto
qed (use assms in \<open>auto simp: unat_top\<close>)

lemma byte_succ:
  assumes "b \<noteq> (255 :: byte)"
  shows "b + 1 \<noteq> 0" and "0 < b + 1" and "c \<noteq> 255 \<Longrightarrow> b + 1 < c + 1 \<longleftrightarrow> b < c"
proof -
  have u: "unat (x + 1) = unat x + 1" if "x \<noteq> 255" for x :: byte
  proof -
    have "unat x < 256" "unat x \<noteq> 255" using that unsigned_less [where 'a = nat, of x] by (auto simp: unat_top)
    then show ?thesis by (simp add: unat_word_ariths)
  qed
  show "b + 1 \<noteq> 0" using u [OF assms] by (metis add_is_0 one_neq_zero unat_0)
  then show "0 < b + 1" by (simp add: word_gt_0)
  show "b + 1 < c + 1 \<longleftrightarrow> b < c" if "c \<noteq> 255"
    using u [OF assms] u [OF that] by (simp add: word_less_nat_alt)
qed

lemma shifted_string:
  assumes "255 \<notin> set s" and "255 \<notin> set t"
  shows "map (\<lambda>b. b + 1) s @ [0] < map (\<lambda>b. b + 1) t @ [0 :: byte] \<longleftrightarrow> s < t"
    and "s \<noteq> t \<Longrightarrow> differ (map (\<lambda>b. b + 1) s @ [0]) (map (\<lambda>b. b + 1) t @ [0])"
proof -
  have "(map (\<lambda>b. b + 1) s @ [0] < map (\<lambda>b. b + 1) t @ [0 :: byte] \<longleftrightarrow> s < t) \<and>
    (s \<noteq> t \<longrightarrow> differ (map (\<lambda>b. b + 1) s @ [0]) (map (\<lambda>b. b + 1) t @ [0]))"
    using assms
  proof (induction s t rule: list_induct2')
    case (2 x xs)
    then have "x \<noteq> 255" by auto
    then show ?case using byte_succ(1) [of x] by simp
  next
    case (3 y ys)
    then have "y \<noteq> 255" by auto
    then show ?case using byte_succ(1,2) [of y] by (simp add: eq_commute [of 0])
  next
    case (4 x xs y ys)
    then have "x \<noteq> 255" "y \<noteq> 255" by auto
    then show ?case using 4 byte_succ(3) [of x y] by auto
  qed simp
  then show "map (\<lambda>b. b + 1) s @ [0] < map (\<lambda>b. b + 1) t @ [0 :: byte] \<longleftrightarrow> s < t"
    and "s \<noteq> t \<Longrightarrow> differ (map (\<lambda>b. b + 1) s @ [0]) (map (\<lambda>b. b + 1) t @ [0])"
    by auto
qed

lemma numeric_codes:
  assumes "comparable p x y" and "p \<noteq> P_STRING"
  obtains n a b where "value_code p x = be_bytes n a" and "value_code p y = be_bytes n b"
    and "a < 256 ^ n" and "b < 256 ^ n" and "value_before x y \<longleftrightarrow> a < b"
proof -
  have "is_numeric_type p" using assms by (simp add: comparable_def supported_def)
  then obtain n where n: "size_of_type p = Inr n" using numeric_size by blast
  define rank where "rank z = (case z of None \<Rightarrow> 256 ^ n - 1 | Some c \<Rightarrow> cell_rank c)" for z
  have code: "value_code p z = be_bytes n (rank z) \<and> rank z < 256 ^ n"
    if "pred_option (\<lambda>c. cell_type c = p \<and> plain c) z" for z
    using that n assms(2) encode_data_rank cell_rank_bound encode_null_rank
    by (cases z) (auto simp: value_code_def rank_def)
  have top: "cell_rank c < 256 ^ n - 1" if "cell_type c = p" "plain c" "\<not> is_maximum c" for c
    using that n assms(2) cell_rank_bound [of c n] cell_rank_max [of c n] by auto
  have low: "\<not> 256 ^ n - 1 < cell_rank c" if "cell_type c = p" for c
    using that n assms(2) cell_rank_bound [of c n] by auto
  have "value_before x y \<longleftrightarrow> rank x < rank y"
    using assms top low by (cases x; cases y) (auto simp: value_before_def rank_def comparable_def cell_rank_less)
  then show ?thesis using that code [of x] code [of y] assms(1) by (auto simp: comparable_def)
qed

lemma string_codes:
  assumes "comparable P_STRING x y"
  shows "value_code P_STRING x = value_code P_STRING y \<or> differ (value_code P_STRING x) (value_code P_STRING y)"
    and "value_code P_STRING x < value_code P_STRING y \<longleftrightarrow> value_before x y"
proof -
  have s: "\<exists>s. c = Str s \<and> 255 \<notin> set s" if "cell_type c = P_STRING" "plain c" for c
    using that by (cases c) auto
  have "(value_code P_STRING x = value_code P_STRING y \<or> differ (value_code P_STRING x) (value_code P_STRING y)) \<and>
    (value_code P_STRING x < value_code P_STRING y \<longleftrightarrow> value_before x y)"
    using assms
    by (cases x; cases y)
      (auto simp: comparable_def value_code_def value_before_def encode_null_def NON_NULL_PREFIX_def STRING_DELIMITER_def
        string_less_iff shifted_string(1) dest!: s intro: shifted_string(2))
  then show "value_code P_STRING x = value_code P_STRING y \<or> differ (value_code P_STRING x) (value_code P_STRING y)"
    and "value_code P_STRING x < value_code P_STRING y \<longleftrightarrow> value_before x y"
    by blast+
qed

interpretation keys: column_encoding value_code value_before comparable
proof
  fix p x y
  assume c: "comparable p x y"
  then show "comparable p y x" by (auto simp: comparable_def)
  show "value_code p x = value_code p y \<or> differ (value_code p x) (value_code p y)"
  proof (cases "p = P_STRING")
    case False
    then show ?thesis using numeric_codes [OF c] by (metis differ_same_length length_be_bytes)
  qed (use c string_codes in auto)
  show "value_code p x < value_code p y \<longleftrightarrow> value_before x y"
  proof (cases "p = P_STRING")
    case False
    then show ?thesis using numeric_codes [OF c] by (metis be_bytes_less)
  qed (use c string_codes in auto)
qed

lemma column_code_less:
  "comparable p x y \<Longrightarrow>
   column_code m p x @ xs < column_code m p y @ ys \<longleftrightarrow>
     column_before m x y \<or> \<not> column_before m y x \<and> xs < ys"
  using keys.column_less [of p x y "m = DESCENDING" xs ys] by (simp add: column_code_def column_before_def)

lemma row_key_less:
  assumes "\<And>v m. (v, m) \<in> set cs \<Longrightarrow> comparable (physical v) (row_value v i) (row_value v j)"
  shows "row_key cs i < row_key cs j \<longleftrightarrow>
    row_before (map snd cs) (map (\<lambda>(v, m). row_value v i) cs) (map (\<lambda>(v, m). row_value v j) cs)"
  using assms
proof (induction cs)
  case (Cons c cs)
  obtain v m where c: "c = (v, m)" by (cases c)
  have k: "row_key (c # cs) r = column_code m (physical v) (row_value v r) @ row_key cs r" for r
    by (simp add: row_key_def c)
  have "comparable (physical v) (row_value v i) (row_value v j)" using Cons.prems [of v m] c by simp
  note this_column = column_code_less [OF this, of m]
  have "row_key cs i < row_key cs j \<longleftrightarrow>
    row_before (map snd cs) (map (\<lambda>(v, m). row_value v i) cs) (map (\<lambda>(v, m). row_value v j) cs)"
    by (rule Cons.IH) (use Cons.prems in auto)
  then show ?case by (simp add: k [unfolded c] c this_column)
qed (simp add: row_key_def)

text \<open>
  (C20) Comparing sort keys is comparing rows: for the keys \<open>CreateSortKey::Create\<close> builds, the
  \<^verbatim>\<open>operator<\<close> of the key strings (length-aware memcmp) holds for rows \<open>i\<close> and \<open>j\<close> exactly when row \<open>i\<close>
  comes before row \<open>j\<close> in the ORDER BY: column by column, each ascending or descending as its
  modifier says, with signed and unsigned integers, floats, doubles and strings in their own
  orders, NULL last in an ascending and first in a descending column.  The rows hold no NaN, no
  string byte \<open>0xFF\<close>, and no integer maximum opposite a NULL.
\<close>

theorem sort_key_order:
  assumes "length ms = length vs" and "\<And>v. v \<in> set vs \<Longrightarrow> wf_vector n v" and "i < n" and "j < n"
    and "\<And>v. v \<in> set vs \<Longrightarrow> comparable (physical v) (row_value v i) (row_value v j)"
    and "create_sort_key blank vs n ms = Inr keys"
  shows "string_less (keys ! i) (keys ! j) \<longleftrightarrow>
    row_before ms (map (\<lambda>v. row_value v i) vs) (map (\<lambda>v. row_value v j) vs)"
proof -
  have k: "keys ! i = row_key (zip vs ms) i" "keys ! j = row_key (zip vs ms) j"
    using create_keys [OF assms(1,2), of blank] assms(3,4,6) by auto
  have z: "map snd (zip vs ms) = ms" "map (\<lambda>(v, m). row_value v r) (zip vs ms) = map (\<lambda>v. row_value v r) vs" for r
    using assms(1) by (auto intro!: nth_equalityI)
  have "comparable (physical v) (row_value v i) (row_value v j)" if "(v, m) \<in> set (zip vs ms)" for v m
    using assms(5) set_zip_leftD [OF that] .
  from row_key_less [OF this] show ?thesis by (simp only: k z string_less_iff)
qed

section \<open>Examples and limits\<close>

definition demo_names :: sort_vector where
  "demo_names = \<lparr>vkind = DICTIONARY_VECTOR, physical = P_STRING, cells = [Str [104, 105]], validity = None, selection = Some [0, 0]\<rparr>"

definition demo_amounts :: sort_vector where
  "demo_amounts = \<lparr>vkind = FLAT_VECTOR, physical = P_INTEGER, cells = [Int32 (- 3), Int32 5], validity = None, selection = None\<rparr>"

lemma demo_wf: "wf_vector 2 demo_names" "wf_vector 2 demo_amounts"
  by code_simp+

lemma demo_rows:
  "row_value demo_names 0 = Some (Str [104, 105])" "row_value demo_names 1 = Some (Str [104, 105])"
  "row_value demo_amounts 0 = Some (Int32 (- 3))" "row_value demo_amounts 1 = Some (Int32 5)"
  by (simp_all add: row_value_def source_row_def demo_names_def demo_amounts_def get_index_def)

theorem sort_key_order_witness:
  "\<exists>ks. create_sort_key (\<lambda>_ _. 0) [demo_names, demo_amounts] 2 [ASCENDING, DESCENDING] = Inr ks \<and>
     string_less (ks ! 1) (ks ! 0)"
proof -
  let ?vs = "[demo_names, demo_amounts]" and ?ms = "[ASCENDING, DESCENDING]"
  have w: "\<And>v. v \<in> set ?vs \<Longrightarrow> wf_vector 2 v" using demo_wf by auto
  have p: "physical demo_names = P_STRING" "physical demo_amounts = P_INTEGER"
    by (simp_all add: demo_names_def demo_amounts_def)
  have c: "\<And>v. v \<in> set ?vs \<Longrightarrow> comparable (physical v) (row_value v 1) (row_value v 0)"
    by (auto simp: comparable_def demo_rows [unfolded One_nat_def] p supported_def is_numeric_type_def)
  obtain ks where ks: "create_sort_key (\<lambda>_ _. 0) ?vs 2 ?ms = Inr ks"
    using create_keys [of ?ms ?vs 2] w by auto
  have "string_less (ks ! 1) (ks ! 0)"
    using sort_key_order [OF _ w _ _ c ks]
    by (simp add: demo_rows [unfolded One_nat_def] column_before_def value_before_def string_less_def)
  then show ?thesis using ks by blast
qed



definition demo_null_max :: sort_vector where
  "demo_null_max = \<lparr>vkind = FLAT_VECTOR, physical = P_INTEGER, cells = [Int32 0, Int32 0x7FFFFFFF],
     validity = Some [NOT 1], selection = None\<rparr>"

definition demo_seconds :: sort_vector where
  "demo_seconds = \<lparr>vkind = FLAT_VECTOR, physical = P_UTINYINT, cells = [UInt8 1, UInt8 2], validity = None, selection = None\<rparr>"

lemma demo_null_rows:
  "row_value demo_null_max 0 = None" "row_value demo_null_max 1 = Some (Int32 0x7FFFFFFF)"
  "row_value demo_seconds 0 = Some (UInt8 1)" "row_value demo_seconds 1 = Some (UInt8 2)"
  by code_simp+


end
