(* ===== verification/IndexKey.thy ===== *)
theory IndexKey
  imports LogicalType SortKeyEncoding
begin

text \<open>
  Index keys and their comparison (\<^verbatim>\<open>storage/index/generic_key.h\<close>).  A key is a fixed number of raw
  bytes; a column of the key schema is its physical type and its offset, and lies inside the key.
  The locale \<open>key_order\<close> is what the B+ tree relies on: the comparator orders keys by a rank.  It is
  interpreted on \<open>GenericComparator\<close> for the integer columns of any schema; with a NaN a float column
  compares equal to everything and orders nothing.
\<close>

type_synonym key_column = "physical_type \<times> nat"

definition set_from_key :: "nat \<Rightarrow> byte list \<Rightarrow> byte list result" where
  "set_from_key KeySize data =
     (if length data \<le> KeySize then Inr (buf_write 0 data (replicate KeySize 0))
      else Inl (AssertionFailed ''GenericKey::SetFromKey: key longer than KeySize''))"

text \<open>\<^verbatim>\<open>Load<T>\<close> of a little-endian integer.\<close>

fun load_le :: "byte list \<Rightarrow> nat" where
  "load_le [] = 0"
| "load_le (b # bs) = unat b + 256 * load_le bs"

definition load_unsigned :: "nat \<Rightarrow> nat \<Rightarrow> byte list \<Rightarrow> int" where
  "load_unsigned n off key = int (load_le (buf_read off n key))"

definition load_signed :: "nat \<Rightarrow> nat \<Rightarrow> byte list \<Rightarrow> int" where
  "load_signed n off key =
     (let u = load_unsigned n off key in if u \<ge> 2 ^ (8 * n - 1) then u - 2 ^ (8 * n) else u)"

definition compare_int :: "int \<Rightarrow> int \<Rightarrow> int" where
  "compare_int lhs rhs = (if lhs < rhs then - 1 else if lhs > rhs then 1 else 0)"

definition compare_float :: "int \<Rightarrow> 'a::len word \<Rightarrow> 'a word \<Rightarrow> int" where
  "compare_float lim lhs rhs = (if fp_less lim lhs rhs then - 1 else if fp_less lim rhs lhs then 1 else 0)"

fun compare_column :: "physical_type \<Rightarrow> nat \<Rightarrow> byte list \<Rightarrow> byte list \<Rightarrow> int result" where
  "compare_column P_TINYINT off a b = Inr (compare_int (load_signed 1 off a) (load_signed 1 off b))"
| "compare_column P_SMALLINT off a b = Inr (compare_int (load_signed 2 off a) (load_signed 2 off b))"
| "compare_column P_INTEGER off a b = Inr (compare_int (load_signed 4 off a) (load_signed 4 off b))"
| "compare_column P_BIGINT off a b = Inr (compare_int (load_signed 8 off a) (load_signed 8 off b))"
| "compare_column P_UTINYINT off a b = Inr (compare_int (load_unsigned 1 off a) (load_unsigned 1 off b))"
| "compare_column P_USMALLINT off a b = Inr (compare_int (load_unsigned 2 off a) (load_unsigned 2 off b))"
| "compare_column P_UINTEGER off a b = Inr (compare_int (load_unsigned 4 off a) (load_unsigned 4 off b))"
| "compare_column P_UBIGINT off a b = Inr (compare_int (load_unsigned 8 off a) (load_unsigned 8 off b))"
| "compare_column P_FLOAT off a b =
     Inr (compare_float FLT_INF (word_of_int (load_unsigned 4 off a) :: 32 word) (word_of_int (load_unsigned 4 off b)))"
| "compare_column P_DOUBLE off a b =
     Inr (compare_float DBL_INF (word_of_int (load_unsigned 8 off a) :: 64 word) (word_of_int (load_unsigned 8 off b)))"
| "compare_column p off a b =
     Inl (NotImplementedException ''GenericComparator: variable-length key columns are not supported'')"

fun generic_comparator :: "key_column list \<Rightarrow> byte list \<Rightarrow> byte list \<Rightarrow> int result" where
  "generic_comparator [] a b = Inr 0"
| "generic_comparator ((p, off) # cs) a b =
     (case compare_column p off a b of
        Inl e \<Rightarrow> Inl e
      | Inr c \<Rightarrow> if c \<noteq> 0 then Inr c else generic_comparator cs a b)"

section \<open>The order of the keys\<close>

locale key_order =
  fixes cmp :: "'k \<Rightarrow> 'k \<Rightarrow> int" and rank :: "'k \<Rightarrow> 'r::linorder"
  assumes cmp_less: "cmp a b < 0 \<longleftrightarrow> rank a < rank b"
    and cmp_equal: "cmp a b = 0 \<longleftrightarrow> rank a = rank b"
begin

lemma cmp_le: "cmp a b \<le> 0 \<longleftrightarrow> rank a \<le> rank b"
  using cmp_less [of a b] cmp_equal [of a b] by (auto simp: order_le_less)

end

definition is_integer_column :: "key_column \<Rightarrow> bool" where
  "is_integer_column c \<longleftrightarrow> fst c \<in> {P_TINYINT, P_SMALLINT, P_INTEGER, P_BIGINT, P_UTINYINT, P_USMALLINT, P_UINTEGER, P_UBIGINT}"

text \<open>The comparator over the integer columns of a schema, and the rank it orders by.\<close>

definition key_cmp :: "key_column list \<Rightarrow> byte list \<Rightarrow> byte list \<Rightarrow> int" where
  "key_cmp cs a b = (case generic_comparator (filter is_integer_column cs) a b of Inl e \<Rightarrow> 0 | Inr c \<Rightarrow> c)"

fun column_value :: "byte list \<Rightarrow> key_column \<Rightarrow> int" where
  "column_value a (P_TINYINT, off) = load_signed 1 off a"
| "column_value a (P_SMALLINT, off) = load_signed 2 off a"
| "column_value a (P_INTEGER, off) = load_signed 4 off a"
| "column_value a (P_BIGINT, off) = load_signed 8 off a"
| "column_value a (P_UTINYINT, off) = load_unsigned 1 off a"
| "column_value a (P_USMALLINT, off) = load_unsigned 2 off a"
| "column_value a (P_UINTEGER, off) = load_unsigned 4 off a"
| "column_value a (P_UBIGINT, off) = load_unsigned 8 off a"
| "column_value a (p, off) = 0"

definition key_rank :: "key_column list \<Rightarrow> byte list \<Rightarrow> int list" where
  "key_rank cs a = map (column_value a) (filter is_integer_column cs)"

lemma compare_int_sign [simp]:
  "compare_int x y < 0 \<longleftrightarrow> x < y" "compare_int x y = 0 \<longleftrightarrow> x = y" "0 < compare_int x y \<longleftrightarrow> y < x"
  by (auto simp: compare_int_def)

lemma compare_integer_column:
  "is_integer_column (p, off) \<Longrightarrow>
   compare_column p off a b = Inr (compare_int (column_value a (p, off)) (column_value b (p, off)))"
  by (cases p) (auto simp: is_integer_column_def)

lemma generic_comparator_integers:
  assumes "list_all is_integer_column cs"
  shows "\<exists>c. generic_comparator cs a b = Inr c \<and>
    (c < 0 \<longleftrightarrow> map (column_value a) cs < map (column_value b) cs) \<and>
    (c = 0 \<longleftrightarrow> map (column_value a) cs = map (column_value b) cs)"
  using assms
proof (induction cs)
  case (Cons x cs)
  obtain p off where x: "x = (p, off)" by (cases x)
  then have "compare_column p off a b = Inr (compare_int (column_value a x) (column_value b x))"
    using Cons.prems compare_integer_column by auto
  then show ?case using Cons x by (cases "column_value a x" "column_value b x" rule: linorder_cases) auto
qed simp

interpretation index_key: key_order "key_cmp cs" "key_rank cs" for cs
proof
  fix a b
  have "list_all is_integer_column (filter is_integer_column cs)" by (simp add: list_all_iff)
  then obtain c where "generic_comparator (filter is_integer_column cs) a b = Inr c"
    "c < 0 \<longleftrightarrow> key_rank cs a < key_rank cs b" "c = 0 \<longleftrightarrow> key_rank cs a = key_rank cs b"
    unfolding key_rank_def using generic_comparator_integers by blast
  then show "key_cmp cs a b < 0 \<longleftrightarrow> key_rank cs a < key_rank cs b"
    and "key_cmp cs a b = 0 \<longleftrightarrow> key_rank cs a = key_rank cs b"
    by (simp_all add: key_cmp_def)
qed

text \<open>
  (C24) Index keys are ordered by their columns: over integer key columns \<open>GenericComparator\<close> never
  throws and orders two keys by the values of the columns in schema order, as a total order.
\<close>

theorem generic_comparator_orders:
  assumes "list_all is_integer_column cs"
  shows "\<exists>c. generic_comparator cs a b = Inr c \<and>
    (c < 0 \<longleftrightarrow> map (column_value a) cs < map (column_value b) cs) \<and>
    (c = 0 \<longleftrightarrow> map (column_value a) cs = map (column_value b) cs)"
  using assms by (rule generic_comparator_integers)

theorem generic_comparator_orders_witness:
  "\<exists>c. generic_comparator [(P_INTEGER, 0), (P_UTINYINT, 4)] [255, 255, 255, 255, 7] [0, 0, 0, 0, 3] = Inr c \<and> c < 0"
proof -
  have h: "list_all is_integer_column [(P_INTEGER, 0), (P_UTINYINT, 4)]" by (simp add: is_integer_column_def)
  have v: "map (column_value [255, 255, 255, 255, 7]) [(P_INTEGER, 0), (P_UTINYINT, 4)] = [- 1, 7]"
    "map (column_value [0, 0, 0, 0, 3]) [(P_INTEGER, 0), (P_UTINYINT, 4)] = [0, 3]"
    by (simp_all add: load_signed_def load_unsigned_def buf_read_def)
  show ?thesis
    using generic_comparator_orders [OF h, of "[255, 255, 255, 255, 7]" "[0, 0, 0, 0, 3]"] unfolding v by auto
qed

text \<open>A float key that is a NaN compares equal to every other key.\<close>

lemma nan_key_ties: "generic_comparator [(P_FLOAT, 0)] [0, 0, 0xC0, 0x7F] [b0, b1, b2, b3] = Inr 0"
proof -
  have "fp_nan FLT_INF (0x7FC00000 :: 32 word)"
    by (simp add: fp_nan_def fp_rank_alt [where n = 31] FLT_INF_def)
  moreover have "word_of_int (load_unsigned 4 0 [0, 0, 0xC0, 0x7F]) = (0x7FC00000 :: 32 word)"
    by (simp add: load_unsigned_def buf_read_def)
  ultimately show ?thesis by (simp add: compare_float_def fp_less_def)
qed

end
