(* ===== verification/BPlusPage.thy ===== *)
theory BPlusPage
  imports IndexKey
begin

text \<open>
  The pages of a B+ tree (\<^verbatim>\<open>storage/page/b_plus_tree_page.h\<close>, \<^verbatim>\<open>b_plus_tree_leaf_page.cpp\<close>,
  \<^verbatim>\<open>b_plus_tree_internal_page.cpp\<close>).  A page is its maximum size and its entries in array order; the
  size of the page is the number of entries.  The key of the first entry of an internal page is
  unused by the searches.  Reading past the size is undefined in the source and \<open>OutOfPageAccess\<close>
  here.
\<close>

type_synonym pid = nat

datatype ('k, 'v) bpage =
    LeafPage (max_size: nat) (next_leaf: "pid option") (leaf_entries: "('k \<times> 'v) list")
  | InternalPage (max_size: nat) (child_entries: "('k \<times> pid) list")

fun page_size :: "('k, 'v) bpage \<Rightarrow> nat" where
  "page_size (LeafPage n nxt es) = length es"
| "page_size (InternalPage n es) = length es"

definition min_size :: "('k, 'v) bpage \<Rightarrow> nat" where
  "min_size p = max_size p div 2"

fun is_leaf_page :: "('k, 'v) bpage \<Rightarrow> bool" where
  "is_leaf_page (LeafPage n nxt es) = True"
| "is_leaf_page (InternalPage n es) = False"

definition entry_at :: "'a list \<Rightarrow> nat \<Rightarrow> 'a result" where
  "entry_at es i = (if i < length es then Inr (es ! i) else Inl OutOfPageAccess)"

text \<open>\<open>BisectRight\<close>: the first index from \<open>lo\<close> on whose key is greater than \<open>key\<close>.\<close>

function bisect_loop :: "('k \<Rightarrow> 'k \<Rightarrow> int) \<Rightarrow> 'k list \<Rightarrow> 'k \<Rightarrow> nat \<Rightarrow> nat \<Rightarrow> nat" where
  "bisect_loop cmp keys key lo hi =
     (if lo < hi then
        let mid = (lo + hi) div 2 in
        if cmp (keys ! mid) key \<le> 0 then bisect_loop cmp keys key (mid + 1) hi
        else bisect_loop cmp keys key lo mid
      else lo)"
  by pat_completeness auto
termination by (relation "measure (\<lambda>(cmp, keys, key, lo, hi). hi - lo)") auto

declare bisect_loop.simps [simp del]

definition bisect_right :: "('k \<Rightarrow> 'k \<Rightarrow> int) \<Rightarrow> ('k \<times> 'a) list \<Rightarrow> 'k \<Rightarrow> nat \<Rightarrow> nat" where
  "bisect_right cmp es key offset = bisect_loop cmp (map fst es) key offset (length es)"

section \<open>Leaf pages\<close>

definition leaf_init :: "nat \<Rightarrow> ('k, 'v) bpage" where
  "leaf_init n = LeafPage n None []"

text \<open>\<open>ContainsKey\<close> at the index a search returned (the default argument searches itself).\<close>

definition contains_key :: "('k \<Rightarrow> 'k \<Rightarrow> int) \<Rightarrow> ('k \<times> 'v) list \<Rightarrow> 'k \<Rightarrow> int \<Rightarrow> bool" where
  "contains_key cmp es key key_idx =
     (let idx = (if key_idx = - 1 then int (bisect_right cmp es key 0) - 1 else key_idx)
      in idx \<ge> 0 \<and> cmp (fst (es ! nat idx)) key = 0)"

definition leaf_insert_at :: "nat \<Rightarrow> 'k \<Rightarrow> 'v \<Rightarrow> ('k, 'v) bpage \<Rightarrow> ('k, 'v) bpage result" where
  "leaf_insert_at idx key v p =
     (case p of
        LeafPage n nxt es \<Rightarrow>
          if length es < n then Inr (LeafPage n nxt (take idx es @ (key, v) # drop idx es))
          else Inl (AssertionFailed ''leaf is full'')
      | InternalPage n es \<Rightarrow> Inl OutOfPageAccess)"

definition leaf_insert :: "('k \<Rightarrow> 'k \<Rightarrow> int) \<Rightarrow> 'k \<Rightarrow> 'v \<Rightarrow> ('k, 'v) bpage \<Rightarrow> ('k, 'v) bpage result" where
  "leaf_insert cmp key v p = leaf_insert_at (bisect_right cmp (leaf_entries p) key 0) key v p"

definition leaf_split :: "('k, 'v) bpage \<Rightarrow> ('k, 'v) bpage \<Rightarrow> pid \<Rightarrow> (('k, 'v) bpage \<times> ('k, 'v) bpage) result" where
  "leaf_split p node page_id =
     (if page_size p \<noteq> max_size p then Inl (AssertionFailed ''Split called on a non-full node'')
      else if page_size node \<noteq> 0 then Inl (AssertionFailed ''Split target must be empty'')
      else let mid = page_size p div 2
           in Inr (LeafPage (max_size p) (Some page_id) (take mid (leaf_entries p)),
                   LeafPage (max_size node) (next_leaf p) (drop mid (leaf_entries p))))"

definition remove_at :: "nat \<Rightarrow> 'a list \<Rightarrow> 'a list" where
  "remove_at idx es = take idx es @ drop (idx + 1) es"

definition leaf_remove_at :: "nat \<Rightarrow> ('k, 'v) bpage \<Rightarrow> ('k, 'v) bpage" where
  "leaf_remove_at idx p = LeafPage (max_size p) (next_leaf p) (remove_at idx (leaf_entries p))"

definition leaf_remove :: "('k \<Rightarrow> 'k \<Rightarrow> int) \<Rightarrow> 'k \<Rightarrow> int \<Rightarrow> ('k, 'v) bpage \<Rightarrow> bool \<times> ('k, 'v) bpage" where
  "leaf_remove cmp key key_idx p =
     (let idx = (if key_idx < 0 then int (bisect_right cmp (leaf_entries p) key 0) - 1 else key_idx)
      in if idx < 0 \<or> cmp (fst (leaf_entries p ! nat idx)) key \<noteq> 0 then (False, p)
         else (True, leaf_remove_at (nat idx) p))"

text \<open>\<open>StealValues\<close>: \<open>None\<close> when the page does not need an entry or the sibling cannot spare one.\<close>

definition leaf_steal :: "bool \<Rightarrow> ('k, 'v) bpage \<Rightarrow> ('k, 'v) bpage \<Rightarrow>
    ('k \<times> ('k, 'v) bpage \<times> ('k, 'v) bpage) option result" where
  "leaf_steal sib_left p sib =
     (if page_size p \<ge> min_size p then Inr None
      else if int (page_size sib) - 1 < int (min_size sib) then Inr None
      else if sib_left then
        (let lst = page_size sib - 1 in
         case entry_at (leaf_entries sib) lst of
           Inl e \<Rightarrow> Inl e
         | Inr (k, v) \<Rightarrow>
             (case leaf_insert_at 0 k v p of
                Inl e \<Rightarrow> Inl e
              | Inr p' \<Rightarrow> Inr (Some (fst (leaf_entries p' ! 0), p', leaf_remove_at lst sib))))
      else
        (case entry_at (leaf_entries sib) 0 of
           Inl e \<Rightarrow> Inl e
         | Inr (k, v) \<Rightarrow>
             (case leaf_insert_at (page_size p) k v p of
                Inl e \<Rightarrow> Inl e
              | Inr p' \<Rightarrow>
                  (let sib' = leaf_remove_at 0 sib in
                   case entry_at (leaf_entries sib') 0 of
                     Inl e \<Rightarrow> Inl e
                   | Inr (k', v') \<Rightarrow> Inr (Some (k', p', sib'))))))"

definition leaf_insert_all :: "('k, 'v) bpage \<Rightarrow> ('k, 'v) bpage \<Rightarrow> ('k, 'v) bpage result" where
  "leaf_insert_all p sib =
     (if page_size p + page_size sib \<le> max_size p
      then Inr (LeafPage (max_size p) (next_leaf sib) (leaf_entries p @ leaf_entries sib))
      else Inl (AssertionFailed ''InsertAllValues: merged size exceeds max''))"

section \<open>Internal pages\<close>

definition internal_init :: "nat \<Rightarrow> ('k, 'v) bpage" where
  "internal_init n = InternalPage n []"

definition internal_insert_at :: "nat \<Rightarrow> 'k \<Rightarrow> pid \<Rightarrow> ('k, 'v) bpage \<Rightarrow> ('k, 'v) bpage result" where
  "internal_insert_at idx key c p =
     (case p of
        InternalPage n es \<Rightarrow>
          if length es < n then Inr (InternalPage n (take idx es @ (key, c) # drop idx es))
          else Inl (AssertionFailed ''internal page is full'')
      | LeafPage n nxt es \<Rightarrow> Inl OutOfPageAccess)"

definition internal_insert :: "('k \<Rightarrow> 'k \<Rightarrow> int) \<Rightarrow> 'k \<Rightarrow> pid \<Rightarrow> ('k, 'v) bpage \<Rightarrow> ('k, 'v) bpage result" where
  "internal_insert cmp key c p = internal_insert_at (bisect_right cmp (child_entries p) key 1) key c p"

definition internal_remove :: "nat \<Rightarrow> ('k, 'v) bpage \<Rightarrow> ('k, 'v) bpage" where
  "internal_remove idx p = InternalPage (max_size p) (remove_at idx (child_entries p))"

definition set_key_at :: "nat \<Rightarrow> 'k \<Rightarrow> ('k, 'v) bpage \<Rightarrow> ('k, 'v) bpage" where
  "set_key_at idx key p =
     InternalPage (max_size p) ((child_entries p)[idx := (key, snd (child_entries p ! idx))])"

definition internal_split :: "('k, 'v) bpage \<Rightarrow> ('k, 'v) bpage \<Rightarrow> (('k, 'v) bpage \<times> ('k, 'v) bpage) result" where
  "internal_split p node =
     (if page_size p \<noteq> max_size p then Inl (AssertionFailed ''Split called on a non-full node'')
      else if page_size node \<noteq> 0 then Inl (AssertionFailed ''Split target must be empty'')
      else let mid = page_size p div 2
           in Inr (InternalPage (max_size p) (take mid (child_entries p)),
                   InternalPage (max_size node) (drop mid (child_entries p))))"

text \<open>
  Stealing from the left shifts the keys but leaves the unused first key where it is, and the old
  first child gets the separator of the parent.
\<close>

definition internal_steal :: "bool \<Rightarrow> 'k \<Rightarrow> ('k, 'v) bpage \<Rightarrow> ('k, 'v) bpage \<Rightarrow>
    ('k \<times> ('k, 'v) bpage \<times> ('k, 'v) bpage) option result" where
  "internal_steal sib_left parent_sep p sib =
     (if int (page_size sib) - 1 < int (min_size sib) then Inr None
      else if sib_left then
        (let lst = page_size sib - 1 in
         case entry_at (child_entries sib) lst of
           Inl e \<Rightarrow> Inl e
         | Inr (k, c) \<Rightarrow>
             (case entry_at (child_entries p) 0 of
                Inl e \<Rightarrow> Inl e
              | Inr (k0, c0) \<Rightarrow>
                  Inr (Some (k, InternalPage (max_size p) ((k0, c) # (parent_sep, c0) # tl (child_entries p)),
                    internal_remove lst sib))))
      else
        (case entry_at (child_entries sib) 0 of
           Inl e \<Rightarrow> Inl e
         | Inr (k0, c0) \<Rightarrow>
             (case internal_insert_at (page_size p) parent_sep c0 p of
                Inl e \<Rightarrow> Inl e
              | Inr p' \<Rightarrow>
                  (case entry_at (child_entries sib) 1 of
                     Inl e \<Rightarrow> Inl e
                   | Inr (k1, c1) \<Rightarrow> Inr (Some (k1, p', internal_remove 0 sib))))))"

definition internal_insert_all :: "'k \<Rightarrow> ('k, 'v) bpage \<Rightarrow> ('k, 'v) bpage \<Rightarrow> ('k, 'v) bpage result" where
  "internal_insert_all parent_sep p sib =
     (if page_size p + page_size sib \<le> max_size p then
        (case entry_at (child_entries sib) 0 of
           Inl e \<Rightarrow> Inl e
         | Inr (k0, c0) \<Rightarrow>
             Inr (InternalPage (max_size p) (child_entries p @ (parent_sep, c0) # tl (child_entries sib))))
      else Inl (AssertionFailed ''InsertAllValues: merged size exceeds max''))"

section \<open>Either kind\<close>

text \<open>The templates \<open>InsertAfterSplit\<close> and \<open>StealOrMergeNodes\<close> at their two instances.\<close>

definition leaf_insert_after_split :: "('k \<Rightarrow> 'k \<Rightarrow> int) \<Rightarrow> 'k \<Rightarrow> 'v \<Rightarrow> ('k, 'v) bpage \<Rightarrow> ('k, 'v) bpage \<Rightarrow>
    (('k, 'v) bpage \<times> ('k, 'v) bpage) result" where
  "leaf_insert_after_split cmp key v page1 page2 =
     (case entry_at (leaf_entries page2) 0 of
        Inl e \<Rightarrow> Inl e
      | Inr (k, w) \<Rightarrow>
          if cmp k key < 0
          then (case leaf_insert cmp key v page2 of Inl e \<Rightarrow> Inl e | Inr page2' \<Rightarrow> Inr (page1, page2'))
          else (case leaf_insert cmp key v page1 of Inl e \<Rightarrow> Inl e | Inr page1' \<Rightarrow> Inr (page1', page2)))"

definition internal_insert_after_split :: "('k \<Rightarrow> 'k \<Rightarrow> int) \<Rightarrow> 'k \<Rightarrow> pid \<Rightarrow> ('k, 'v) bpage \<Rightarrow> ('k, 'v) bpage \<Rightarrow>
    (('k, 'v) bpage \<times> ('k, 'v) bpage) result" where
  "internal_insert_after_split cmp key c page1 page2 =
     (case entry_at (child_entries page2) 0 of
        Inl e \<Rightarrow> Inl e
      | Inr (k, w) \<Rightarrow>
          if cmp k key < 0
          then (case internal_insert cmp key c page2 of Inl e \<Rightarrow> Inl e | Inr page2' \<Rightarrow> Inr (page1, page2'))
          else (case internal_insert cmp key c page1 of Inl e \<Rightarrow> Inl e | Inr page1' \<Rightarrow> Inr (page1', page2)))"

definition steal_values :: "bool \<Rightarrow> 'k \<Rightarrow> ('k, 'v) bpage \<Rightarrow> ('k, 'v) bpage \<Rightarrow>
    ('k \<times> ('k, 'v) bpage \<times> ('k, 'v) bpage) option result" where
  "steal_values sib_left parent_sep p sib =
     (if is_leaf_page p \<noteq> is_leaf_page sib then Inl OutOfPageAccess
      else if is_leaf_page p then leaf_steal sib_left p sib else internal_steal sib_left parent_sep p sib)"

definition insert_all_values :: "'k \<Rightarrow> ('k, 'v) bpage \<Rightarrow> ('k, 'v) bpage \<Rightarrow> ('k, 'v) bpage result" where
  "insert_all_values parent_sep p sib =
     (if is_leaf_page p then leaf_insert_all p sib else internal_insert_all parent_sep p sib)"

text \<open>
  The result is the page that died (\<open>None\<close> after a steal) with the page, the parent and the sibling.
\<close>

definition steal_or_merge :: "('k, 'v) bpage \<Rightarrow> pid \<Rightarrow> ('k, 'v) bpage \<Rightarrow> ('k, 'v) bpage \<Rightarrow> pid \<Rightarrow> nat \<Rightarrow> bool \<Rightarrow>
    (pid option \<times> ('k, 'v) bpage \<times> ('k, 'v) bpage \<times> ('k, 'v) bpage) result" where
  "steal_or_merge page page_id parent sib sib_id pidx sib_left =
     (let sep_idx = (if sib_left then pidx else pidx + 1) in
      case entry_at (child_entries parent) sep_idx of
        Inl e \<Rightarrow> Inl e
      | Inr (parent_sep, c) \<Rightarrow>
          (case steal_values sib_left parent_sep page sib of
             Inl e \<Rightarrow> Inl e
           | Inr (Some (new_sep, page', sib')) \<Rightarrow> Inr (None, page', set_key_at sep_idx new_sep parent, sib')
           | Inr None \<Rightarrow>
               if sib_left
               then (case insert_all_values parent_sep sib page of
                       Inl e \<Rightarrow> Inl e
                     | Inr sib' \<Rightarrow> Inr (Some page_id, page, internal_remove sep_idx parent, sib'))
               else (case insert_all_values parent_sep page sib of
                       Inl e \<Rightarrow> Inl e
                     | Inr page' \<Rightarrow> Inr (Some sib_id, page', internal_remove sep_idx parent, sib))))"

end
