(* ===== verification/BPlusTree.thy ===== *)
theory BPlusTree
  imports BPlusPage
begin

text \<open>
  The B+ tree over its pages (\<^verbatim>\<open>storage/index/b_plus_tree.{h,cpp}\<close>, \<^verbatim>\<open>index_iterator.cpp\<close>), as one thread
  runs it.  The state is the page table of the tree, the root recorded in the header page, the ids
  the buffer pool may hand out again and the next fresh one.  The guards an insertion holds are the
  list \<open>write_set\<close>, front to back, because the code decides by it how far to unwind: \<open>Some p\<close> is the
  guard of page \<open>p\<close>, \<open>None\<close> the guard of the header page.
  Every page access goes through the page table; an id that names no page, or a page of the other
  kind, is \<open>OutOfPageAccess\<close>.  Descents and recursion follow stored links and are
  \<open>partial_function (option)\<close>.
\<close>

record ('k, 'v) btree =
  tree_pages :: "pid \<rightharpoonup> ('k, 'v) bpage"
  header_id :: pid
  root_page :: "pid option"
  leaf_max :: nat
  internal_max :: nat
  free_ids :: "pid list"
  next_id :: pid
  stale_key :: 'k

text \<open>\<open>BufferPoolManager::NewPage\<close> and \<open>DeletePage\<close> as the tree sees them.\<close>

definition alloc_page :: "('k, 'v) btree \<Rightarrow> pid \<times> ('k, 'v) btree" where
  "alloc_page st =
     (if free_ids st \<noteq> [] then (last (free_ids st), st\<lparr>free_ids := butlast (free_ids st)\<rparr>)
      else (next_id st, st\<lparr>next_id := next_id st + 1\<rparr>))"

definition read_node :: "pid \<Rightarrow> ('k, 'v) btree \<Rightarrow> ('k, 'v) bpage result" where
  "read_node p st = (case tree_pages st p of None \<Rightarrow> Inl OutOfPageAccess | Some x \<Rightarrow> Inr x)"

definition write_node :: "pid \<Rightarrow> ('k, 'v) bpage \<Rightarrow> ('k, 'v) btree \<Rightarrow> ('k, 'v) btree" where
  "write_node p x st = st\<lparr>tree_pages := (tree_pages st)(p \<mapsto> x)\<rparr>"

definition drop_page :: "pid \<Rightarrow> ('k, 'v) btree \<Rightarrow> ('k, 'v) btree" where
  "drop_page p st = st\<lparr>tree_pages := (tree_pages st)(p := None), free_ids := free_ids st @ [p]\<rparr>"

text \<open>The constructor of a new tree; \<open>stale_key\<close> is what an unwritten key slot of a page holds.\<close>

definition btree_new :: "pid \<Rightarrow> nat \<Rightarrow> nat \<Rightarrow> 'k \<Rightarrow> pid list \<Rightarrow> pid \<Rightarrow> ('k, 'v) btree" where
  "btree_new header lmax imax k free nxt =
     \<lparr>tree_pages = Map.empty, header_id = header, root_page = None, leaf_max = lmax, internal_max = imax, free_ids = free, next_id = nxt, stale_key = k\<rparr>"

definition btree_is_empty :: "('k, 'v) btree \<Rightarrow> bool result" where
  "btree_is_empty st =
     (case root_page st of
        None \<Rightarrow> Inr True
      | Some r \<Rightarrow> (case read_node r st of Inl e \<Rightarrow> Inl e | Inr p \<Rightarrow> Inr (page_size p = 0)))"

section \<open>Search\<close>

text \<open>The child an internal page sends a key to.\<close>

definition child_for :: "('k \<Rightarrow> 'k \<Rightarrow> int) \<Rightarrow> 'k \<Rightarrow> ('k \<times> pid) list \<Rightarrow> pid result" where
  "child_for cmp key es =
     (case entry_at es (bisect_right cmp es key 1 - 1) of Inl e \<Rightarrow> Inl e | Inr (k, c) \<Rightarrow> Inr c)"

partial_function (option) find_leaf :: "('k \<Rightarrow> 'k \<Rightarrow> int) \<Rightarrow> 'k \<Rightarrow> ('k, 'v) btree \<Rightarrow> pid \<Rightarrow> pid result option" where
  "find_leaf cmp key st p =
     (case read_node p st of
        Inl e \<Rightarrow> Some (Inl e)
      | Inr (LeafPage n nxt es) \<Rightarrow> Some (Inr p)
      | Inr (InternalPage n es) \<Rightarrow>
          (case child_for cmp key es of Inl e \<Rightarrow> Some (Inl e) | Inr c \<Rightarrow> find_leaf cmp key st c))"

definition get_value :: "('k \<Rightarrow> 'k \<Rightarrow> int) \<Rightarrow> 'k \<Rightarrow> ('k, 'v) btree \<Rightarrow> 'v option result option" where
  "get_value cmp key st =
     (case root_page st of
        None \<Rightarrow> Some (Inr None)
      | Some r \<Rightarrow>
          Option.bind (find_leaf cmp key st r) (\<lambda>res.
            case res of
              Inl e \<Rightarrow> Some (Inl e)
            | Inr p \<Rightarrow>
                (case read_node p st of
                   Inl e \<Rightarrow> Some (Inl e)
                 | Inr page \<Rightarrow>
                     (let es = leaf_entries page;
                          idx = int (bisect_right cmp es key 0) - 1
                      in if idx < 0 \<or> cmp (fst (es ! nat idx)) key \<noteq> 0 then Some (Inr None)
                         else Some (Inr (Some (snd (es ! nat idx))))))))"

section \<open>Insertion\<close>

definition init_btree :: "'k \<Rightarrow> 'v \<Rightarrow> ('k, 'v) btree \<Rightarrow> (pid \<times> ('k, 'v) btree) result" where
  "init_btree key v st =
     (case alloc_page st of
        (q, st1) \<Rightarrow>
          (case leaf_insert_at 0 key v (leaf_init (leaf_max st)) of
             Inl e \<Rightarrow> Inl e
           | Inr leaf \<Rightarrow> Inr (q, write_node q leaf st1)))"

text \<open>\<open>InsertInternalResult\<close>: the new separator and page, if any, and whether the key was inserted.\<close>

type_synonym 'k insert_result = "('k \<times> pid) option \<times> bool"

type_synonym write_set = "pid option list"

text \<open>The page under the last guard; the header page is no tree page.\<close>

definition back_page :: "write_set \<Rightarrow> pid result" where
  "back_page ws = (if ws = [] then Inl OutOfPageAccess else case last ws of None \<Rightarrow> Inl OutOfPageAccess | Some p \<Rightarrow> Inr p)"

text \<open>
  A leaf with room releases the guards above it before it is changed; every path of the function
  then clears the write set or ends in the split of a full leaf, so the release is not visible.
\<close>

definition recursive_insert_leaf :: "('k \<Rightarrow> 'k \<Rightarrow> int) \<Rightarrow> 'k \<Rightarrow> 'v \<Rightarrow> write_set \<Rightarrow> ('k, 'v) btree \<Rightarrow>
    ('k insert_result \<times> write_set \<times> ('k, 'v) btree) result" where
  "recursive_insert_leaf cmp key v ws st =
     (if ws = [] then Inl (AssertionFailed ''write set empty in RecursiveInsertLeaf'')
      else case back_page ws of Inl e \<Rightarrow> Inl e | Inr p \<Rightarrow>
        (case read_node p st of
          Inl e \<Rightarrow> Inl e
        | Inr leaf \<Rightarrow>
            if contains_key cmp (leaf_entries leaf) key (- 1) then Inr ((None, False), [], st)
            else let idx = bisect_right cmp (leaf_entries leaf) key 0 in
              if page_size leaf < max_size leaf then
                (case leaf_insert_at idx key v leaf of
                   Inl e \<Rightarrow> Inl e
                 | Inr leaf' \<Rightarrow> Inr ((None, True), [], write_node p leaf' st))
              else
                (case alloc_page st of
                   (q, st1) \<Rightarrow>
                     (case leaf_split leaf (leaf_init (leaf_max st)) q of
                        Inl e \<Rightarrow> Inl e
                      | Inr (page1, page2) \<Rightarrow>
                          (case leaf_insert_after_split cmp key v page1 page2 of
                             Inl e \<Rightarrow> Inl e
                           | Inr (page1', page2') \<Rightarrow>
                               (case entry_at (leaf_entries page2') 0 of
                                  Inl e \<Rightarrow> Inl e
                                | Inr (k, w) \<Rightarrow>
                                    Inr ((Some (k, q), True), butlast ws,
                                      write_node q page2' (write_node p page1' st1))))))))"

text \<open>
  The part of \<open>RecursiveInsert\<close> after the recursive call, at an internal page whose child was split.
\<close>

definition insert_separator :: "('k \<Rightarrow> 'k \<Rightarrow> int) \<Rightarrow> 'k \<Rightarrow> pid \<Rightarrow> bool \<Rightarrow> pid \<Rightarrow> write_set \<Rightarrow> ('k, 'v) btree \<Rightarrow>
    ('k insert_result \<times> write_set \<times> ('k, 'v) btree) result" where
  "insert_separator cmp new_key new_page ins p ws st =
     (if ws = [] \<or> last ws \<noteq> Some p then Inl (AssertionFailed ''guard chain corrupted during insert'')
      else if \<not> ins then Inl (AssertionFailed ''new page created but insert reported false'')
      else case read_node p st of
        Inl e \<Rightarrow> Inl e
      | Inr internal \<Rightarrow>
          if page_size internal < max_size internal then
            (case internal_insert cmp new_key new_page internal of
               Inl e \<Rightarrow> Inl e
             | Inr internal' \<Rightarrow> Inr ((None, True), [], write_node p internal' st))
          else
            (case alloc_page st of
               (q, st1) \<Rightarrow>
                 (case internal_split internal (internal_init (internal_max st)) of
                    Inl e \<Rightarrow> Inl e
                  | Inr (page1, page2) \<Rightarrow>
                      (case internal_insert_after_split cmp new_key new_page page1 page2 of
                         Inl e \<Rightarrow> Inl e
                       | Inr (page1', page2') \<Rightarrow>
                           (case entry_at (child_entries page2') 0 of
                              Inl e \<Rightarrow> Inl e
                            | Inr (k, w) \<Rightarrow>
                                Inr ((Some (k, q), True), butlast ws,
                                  write_node q page2' (write_node p page1' st1)))))))"

text \<open>An internal page with room releases the guards above it.\<close>

definition release_above :: "('k, 'v) bpage \<Rightarrow> write_set \<Rightarrow> write_set" where
  "release_above page ws = (if page_size page < max_size page then [last ws] else ws)"

partial_function (option) recursive_insert :: "('k \<Rightarrow> 'k \<Rightarrow> int) \<Rightarrow> 'k \<Rightarrow> 'v \<Rightarrow> write_set \<Rightarrow> ('k, 'v) btree \<Rightarrow>
    ('k insert_result \<times> write_set \<times> ('k, 'v) btree) result option" where
  "recursive_insert cmp key v ws st =
     (case back_page ws of Inl e \<Rightarrow> Some (Inl e) | Inr p \<Rightarrow>
      (case read_node p st of
        Inl e \<Rightarrow> Some (Inl e)
      | Inr (LeafPage n nxt es) \<Rightarrow> Some (recursive_insert_leaf cmp key v ws st)
      | Inr (InternalPage n es) \<Rightarrow>
          (case child_for cmp key es of
             Inl e \<Rightarrow> Some (Inl e)
           | Inr c \<Rightarrow>
               Option.bind (recursive_insert cmp key v (release_above (InternalPage n es :: ('k, 'v) bpage) ws @ [Some c]) st) (\<lambda>res.
                 case res of
                   Inl e \<Rightarrow> Some (Inl e)
                 | Inr ((None, ins), ws1, st1) \<Rightarrow> Some (Inr ((None, ins), ws1, st1))
                 | Inr ((Some (nk, np), ins), ws1, st1) \<Rightarrow> Some (insert_separator cmp nk np ins p ws1 st1)))))"

text \<open>
  The fast path: \<open>None\<close> when the tree is empty or the leaf would split.
\<close>

definition try_optimistic_insert :: "('k \<Rightarrow> 'k \<Rightarrow> int) \<Rightarrow> 'k \<Rightarrow> 'v \<Rightarrow> ('k, 'v) btree \<Rightarrow>
    (bool \<times> ('k, 'v) btree) option result option" where
  "try_optimistic_insert cmp key v st =
     (case root_page st of
        None \<Rightarrow> Some (Inr None)
      | Some r \<Rightarrow>
          Option.bind (find_leaf cmp key st r) (\<lambda>res.
            case res of
              Inl e \<Rightarrow> Some (Inl e)
            | Inr p \<Rightarrow>
                (case read_node p st of
                   Inl e \<Rightarrow> Some (Inl e)
                 | Inr leaf \<Rightarrow>
                     if page_size leaf \<ge> max_size leaf then Some (Inr None)
                     else (case recursive_insert_leaf cmp key v [Some p] st of
                             Inl e \<Rightarrow> Some (Inl e)
                           | Inr ((np, ins), ws, st') \<Rightarrow> Some (Inr (Some (ins, st')))))))"

text \<open>
  The tail of \<open>Insert\<close> after a root split needs the header guard at the front of the write set.
\<close>

definition insert_new_root :: "write_set \<Rightarrow> pid \<Rightarrow> 'k \<Rightarrow> pid \<Rightarrow> ('k, 'v) btree \<Rightarrow> ('k, 'v) btree result" where
  "insert_new_root ws r k np st =
     (if ws = [] then Inl (AssertionFailed ''header guard lost during root split'')
      else if hd ws \<noteq> None then Inl OutOfPageAccess
      else case alloc_page st of
        (q, st1) \<Rightarrow>
          if 0 < internal_max st
          then Inr ((write_node q (InternalPage (internal_max st) [(stale_key st, r), (k, np)]) st1)\<lparr>root_page := Some q\<rparr>)
          else Inl (AssertionFailed ''internal page is full''))"

definition btree_insert :: "('k \<Rightarrow> 'k \<Rightarrow> int) \<Rightarrow> 'k \<Rightarrow> 'v \<Rightarrow> ('k, 'v) btree \<Rightarrow>
    (bool \<times> ('k, 'v) btree) result option" where
  "btree_insert cmp key v st =
     Option.bind (try_optimistic_insert cmp key v st) (\<lambda>fast.
       case fast of
         Inl e \<Rightarrow> Some (Inl e)
       | Inr (Some (ins, st')) \<Rightarrow> Some (Inr (ins, st'))
       | Inr None \<Rightarrow>
           (case root_page st of
              None \<Rightarrow>
                (case init_btree key v st of
                   Inl e \<Rightarrow> Some (Inl e)
                 | Inr (q, st') \<Rightarrow> Some (Inr (True, st'\<lparr>root_page := Some q\<rparr>)))
            | Some r \<Rightarrow>
                Option.bind (recursive_insert cmp key v [None, Some r] st) (\<lambda>res.
                  case res of
                    Inl e \<Rightarrow> Some (Inl e)
                  | Inr ((None, ins), ws, st') \<Rightarrow> Some (Inr (ins, st'))
                  | Inr ((Some (k, np), ins), ws, st') \<Rightarrow>
                      if \<not> ins then Some (Inr (False, st'))
                      else (case insert_new_root ws r k np st' of Inl e \<Rightarrow> Some (Inl e) | Inr st'' \<Rightarrow> Some (Inr (True, st''))))))"

section \<open>Removal\<close>

definition get_best_sibling :: "('k, 'v) bpage \<Rightarrow> nat \<Rightarrow> ('k, 'v) btree \<Rightarrow> (nat \<times> pid) result" where
  "get_best_sibling parent pidx st =
     (let es = child_entries parent in
      if \<not> page_size parent > 1 then Inl (AssertionFailed ''GetBestSiblingForMerge needs >= 2 children'')
      else if pidx = 0 then Inr (1, snd (es ! 1))
      else if pidx \<ge> page_size parent - 1 then Inr (pidx - 1, snd (es ! (pidx - 1)))
      else
        (case read_node (snd (es ! (pidx + 1))) st of
           Inl e \<Rightarrow> Inl e
         | Inr right \<Rightarrow>
             (case read_node (snd (es ! (pidx - 1))) st of
                Inl e \<Rightarrow> Inl e
              | Inr left \<Rightarrow>
                  if page_size right > page_size left then Inr (pidx + 1, snd (es ! (pidx + 1)))
                  else Inr (pidx - 1, snd (es ! (pidx - 1))))))"

text \<open>
  The repair of an underfull page that both \<open>RecursiveDeleteLeaf\<close> and \<open>RecursiveDelete\<close> end with: take an
  entry from a sibling or merge with it, and delete the page that became empty.
\<close>

definition repair_page :: "pid \<Rightarrow> ('k, 'v) bpage \<Rightarrow> pid \<Rightarrow> ('k, 'v) bpage \<Rightarrow> nat \<Rightarrow> ('k, 'v) btree \<Rightarrow> ('k, 'v) btree result" where
  "repair_page p page pp parent pidx st =
     (case get_best_sibling parent pidx st of
        Inl e \<Rightarrow> Inl e
      | Inr (sib_idx, sib_id) \<Rightarrow>
          (case read_node sib_id st of
             Inl e \<Rightarrow> Inl e
           | Inr sib \<Rightarrow>
               (case steal_or_merge page p parent sib sib_id pidx (sib_idx < pidx) of
                  Inl e \<Rightarrow> Inl e
                | Inr (dead, page', parent', sib') \<Rightarrow>
                    (let st1 = write_node pp parent' (write_node sib_id sib' (write_node p page' st))
                     in Inr (case dead of None \<Rightarrow> st1 | Some d \<Rightarrow> drop_page d st1)))))"

text \<open>
  The result is whether the key was removed, the remaining write set, whether the header guard is
  still held, and the tree.  \<open>root_id\<close> is \<^verbatim>\<open>ctx.root_page_id_\<close>, invalid (\<open>None\<close>) on the fast path.
\<close>

definition recursive_delete_leaf :: "('k \<Rightarrow> 'k \<Rightarrow> int) \<Rightarrow> 'k \<Rightarrow> pid option \<Rightarrow> pid list \<Rightarrow> bool \<Rightarrow> ('k, 'v) btree \<Rightarrow>
    (bool \<times> pid list \<times> bool \<times> ('k, 'v) btree) result" where
  "recursive_delete_leaf cmp key root_id ws hdr st =
     (if ws = [] then Inl (AssertionFailed ''write set empty in RecursiveDeleteLeaf'')
      else let p = last ws; ws1 = butlast ws in
        case read_node p st of
          Inl e \<Rightarrow> Inl e
        | Inr leaf \<Rightarrow>
            (let kidx = int (bisect_right cmp (leaf_entries leaf) key 0) - 1 in
             if \<not> contains_key cmp (leaf_entries leaf) key kidx then Inr (False, [], False, st)
             else
               (let leaf1 = snd (leaf_remove cmp key kidx leaf);
                    st1 = write_node p leaf1 st
                in if page_size leaf1 \<ge> min_size leaf1 \<or> ws1 = [] \<or> Some p = root_id
                   then Inr (True, [], (if Some p \<noteq> root_id then False else hdr), st1)
                   else
                     (case read_node (last ws1) st1 of
                        Inl e \<Rightarrow> Inl e
                      | Inr parent \<Rightarrow>
                          (let pidx = bisect_right cmp (child_entries parent) key 1 - 1 in
                           if page_size parent \<le> 1 then
                             Inr (True, ws1, hdr,
                               if page_size leaf1 = 0
                               then drop_page p (write_node (last ws1) (internal_remove pidx parent) st1) else st1)
                           else
                             (case repair_page p leaf1 (last ws1) parent pidx st1 of
                                Inl e \<Rightarrow> Inl e
                              | Inr st2 \<Rightarrow> Inr (True, ws1, hdr, st2)))))))"

text \<open>The part of \<open>RecursiveDelete\<close> after the recursive call.\<close>

definition unwind_delete :: "('k \<Rightarrow> 'k \<Rightarrow> int) \<Rightarrow> 'k \<Rightarrow> pid option \<Rightarrow> bool \<times> pid list \<times> bool \<times> ('k, 'v) btree \<Rightarrow>
    (bool \<times> pid list \<times> bool \<times> ('k, 'v) btree) result" where
  "unwind_delete cmp key root_id = (\<lambda>(res, ws, hdr, st).
     if ws = [] then Inr (res, ws, hdr, st)
     else let p = last ws; ws1 = butlast ws in
       case read_node p st of
         Inl e \<Rightarrow> Inl e
       | Inr internal \<Rightarrow>
           if page_size internal \<ge> min_size internal \<or> ws1 = [] \<or> Some p = root_id
           then Inr (res, [], (if Some p \<noteq> root_id then False else hdr), st)
           else
             (case read_node (last ws1) st of
                Inl e \<Rightarrow> Inl e
              | Inr parent \<Rightarrow>
                  (let pidx = bisect_right cmp (child_entries parent) key 1 - 1 in
                   if page_size internal = 0 then
                     Inr (res, ws1, hdr, drop_page p (write_node (last ws1) (internal_remove pidx parent) st))
                   else if page_size parent \<le> 1 then Inr (res, ws1, hdr, st)
                   else
                     (case repair_page p internal (last ws1) parent pidx st of
                        Inl e \<Rightarrow> Inl e
                      | Inr st2 \<Rightarrow> Inr (res, ws1, hdr, st2)))))"

partial_function (option) recursive_delete :: "('k \<Rightarrow> 'k \<Rightarrow> int) \<Rightarrow> 'k \<Rightarrow> pid option \<Rightarrow> pid list \<Rightarrow> bool \<Rightarrow> ('k, 'v) btree \<Rightarrow>
    (bool \<times> pid list \<times> bool \<times> ('k, 'v) btree) result option" where
  "recursive_delete cmp key root_id ws hdr st =
     (let p = last ws in
      case read_node p st of
        Inl e \<Rightarrow> Some (Inl e)
      | Inr (LeafPage n nxt es) \<Rightarrow> Some (recursive_delete_leaf cmp key root_id ws hdr st)
      | Inr (InternalPage n es) \<Rightarrow>
          (let safe = length es > n div 2;
               ws1 = (if safe then [p] else ws);
               hdr1 = (if safe \<and> Some p \<noteq> root_id then False else hdr)
           in case child_for cmp key es of
                Inl e \<Rightarrow> Some (Inl e)
              | Inr c \<Rightarrow>
                  Option.bind (recursive_delete cmp key root_id (ws1 @ [c]) hdr1 st) (\<lambda>res.
                    case res of Inl e \<Rightarrow> Some (Inl e) | Inr r \<Rightarrow> Some (unwind_delete cmp key root_id r))))"

text \<open>The fast path: \<open>None\<close> when the deletion has to be retried on the slow path.\<close>

definition try_optimistic_delete :: "('k \<Rightarrow> 'k \<Rightarrow> int) \<Rightarrow> 'k \<Rightarrow> ('k, 'v) btree \<Rightarrow> ('k, 'v) btree option result option" where
  "try_optimistic_delete cmp key st =
     (case root_page st of
        None \<Rightarrow> Some (Inr (Some st))
      | Some r \<Rightarrow>
          Option.bind (find_leaf cmp key st r) (\<lambda>res.
            case res of
              Inl e \<Rightarrow> Some (Inl e)
            | Inr p \<Rightarrow>
                (case read_node p st of
                   Inl e \<Rightarrow> Some (Inl e)
                 | Inr leaf \<Rightarrow>
                     if (if p = r then page_size leaf \<le> 1 else page_size leaf \<le> min_size leaf) then Some (Inr None)
                     else
                       (case recursive_delete_leaf cmp key None [p] False st of
                          Inl e \<Rightarrow> Some (Inl e)
                        | Inr (True, ws, hdr, st') \<Rightarrow> Some (Inr (Some st'))
                        | Inr (False, ws, hdr, st') \<Rightarrow> Some (Inr None)))))"

partial_function (option) collapse_root :: "('k, 'v) btree \<Rightarrow> ('k, 'v) btree result option" where
  "collapse_root st =
     (case root_page st of
        None \<Rightarrow> Some (Inr st)
      | Some r \<Rightarrow>
          (case read_node r st of
             Inl e \<Rightarrow> Some (Inl e)
           | Inr (InternalPage n es) \<Rightarrow>
               if length es = 1 then collapse_root (drop_page r (st\<lparr>root_page := Some (snd (es ! 0))\<rparr>))
               else Some (Inr st)
           | Inr (LeafPage n nxt es) \<Rightarrow>
               if length es = 0 then Some (Inr (drop_page r (st\<lparr>root_page := None\<rparr>))) else Some (Inr st)))"

definition btree_remove :: "('k \<Rightarrow> 'k \<Rightarrow> int) \<Rightarrow> 'k \<Rightarrow> ('k, 'v) btree \<Rightarrow> ('k, 'v) btree result option" where
  "btree_remove cmp key st =
     Option.bind (try_optimistic_delete cmp key st) (\<lambda>fast.
       case fast of
         Inl e \<Rightarrow> Some (Inl e)
       | Inr (Some st') \<Rightarrow> Some (Inr st')
       | Inr None \<Rightarrow>
           (case root_page st of
              None \<Rightarrow> Some (Inr st)
            | Some r \<Rightarrow>
                Option.bind (recursive_delete cmp key (Some r) [r] True st) (\<lambda>res.
                  case res of
                    Inl e \<Rightarrow> Some (Inl e)
                  | Inr (removed, ws, hdr, st') \<Rightarrow> if hdr then collapse_root st' else Some (Inr st'))))"

section \<open>Iteration\<close>

text \<open>An iterator is the leaf it holds and its offset; \<open>None\<close> is the end iterator.\<close>

type_synonym index_iterator = "(pid \<times> nat) option"

definition iterator_at :: "pid \<Rightarrow> ('k, 'v) btree \<Rightarrow> index_iterator result" where
  "iterator_at p st =
     (case read_node p st of
        Inl e \<Rightarrow> Inl e
      | Inr page \<Rightarrow> Inr (if page_size page > 0 then Some (p, 0) else None))"

definition iterator_get :: "pid \<times> nat \<Rightarrow> ('k, 'v) btree \<Rightarrow> ('k \<times> 'v) result" where
  "iterator_get it st =
     (case read_node (fst it) st of Inl e \<Rightarrow> Inl e | Inr page \<Rightarrow> entry_at (leaf_entries page) (snd it))"

definition iterator_next :: "pid \<times> nat \<Rightarrow> ('k, 'v) btree \<Rightarrow> index_iterator result" where
  "iterator_next it st =
     (case read_node (fst it) st of
        Inl e \<Rightarrow> Inl e
      | Inr leaf \<Rightarrow>
          if snd it + 1 < page_size leaf then Inr (Some (fst it, snd it + 1))
          else (case next_leaf leaf of None \<Rightarrow> Inr None | Some q \<Rightarrow> iterator_at q st))"

partial_function (option) leftmost_leaf :: "('k, 'v) btree \<Rightarrow> pid \<Rightarrow> pid result option" where
  "leftmost_leaf st p =
     (case read_node p st of
        Inl e \<Rightarrow> Some (Inl e)
      | Inr (LeafPage n nxt es) \<Rightarrow> Some (Inr p)
      | Inr (InternalPage n es) \<Rightarrow>
          (case entry_at es 0 of Inl e \<Rightarrow> Some (Inl e) | Inr (k, c) \<Rightarrow> leftmost_leaf st c))"

definition btree_begin :: "('k, 'v) btree \<Rightarrow> index_iterator result option" where
  "btree_begin st =
     (case root_page st of
        None \<Rightarrow> Some (Inr None)
      | Some r \<Rightarrow>
          Option.bind (leftmost_leaf st r) (\<lambda>res.
            case res of Inl e \<Rightarrow> Some (Inl e) | Inr p \<Rightarrow> Some (iterator_at p st)))"

partial_function (option) skip_below :: "('k \<Rightarrow> 'k \<Rightarrow> int) \<Rightarrow> 'k \<Rightarrow> ('k, 'v) btree \<Rightarrow> index_iterator \<Rightarrow> index_iterator result option" where
  "skip_below cmp key st it =
     (case it of
        None \<Rightarrow> Some (Inr None)
      | Some x \<Rightarrow>
          (case iterator_get x st of
             Inl e \<Rightarrow> Some (Inl e)
           | Inr (k, v) \<Rightarrow>
               if cmp k key < 0
               then (case iterator_next x st of Inl e \<Rightarrow> Some (Inl e) | Inr it' \<Rightarrow> skip_below cmp key st it')
               else Some (Inr (Some x))))"

definition btree_begin_at :: "('k \<Rightarrow> 'k \<Rightarrow> int) \<Rightarrow> 'k \<Rightarrow> ('k, 'v) btree \<Rightarrow> index_iterator result option" where
  "btree_begin_at cmp key st =
     (case root_page st of
        None \<Rightarrow> Some (Inr None)
      | Some r \<Rightarrow>
          Option.bind (find_leaf cmp key st r) (\<lambda>res.
            case res of
              Inl e \<Rightarrow> Some (Inl e)
            | Inr p \<Rightarrow> (case iterator_at p st of Inl e \<Rightarrow> Some (Inl e) | Inr it \<Rightarrow> skip_below cmp key st it)))"

text \<open>What a client reads that advances an iterator to the end.\<close>

partial_function (option) iterate :: "('k, 'v) btree \<Rightarrow> index_iterator \<Rightarrow> ('k \<times> 'v) list result option" where
  "iterate st it =
     (case it of
        None \<Rightarrow> Some (Inr [])
      | Some x \<Rightarrow>
          (case iterator_get x st of
             Inl e \<Rightarrow> Some (Inl e)
           | Inr kv \<Rightarrow>
               (case iterator_next x st of
                  Inl e \<Rightarrow> Some (Inl e)
                | Inr it' \<Rightarrow>
                    Option.bind (iterate st it') (\<lambda>res.
                      case res of Inl e \<Rightarrow> Some (Inl e) | Inr kvs \<Rightarrow> Some (Inr (kv # kvs))))))"

section \<open>Dropping the tree\<close>

text \<open>\<open>FreeSubtree\<close> on each page of a list: the children first, then the page.\<close>

partial_function (option) free_subtrees :: "pid list \<Rightarrow> ('k, 'v) btree \<Rightarrow> ('k, 'v) btree result option" where
  "free_subtrees ps st =
     (case ps of
        [] \<Rightarrow> Some (Inr st)
      | p # rest \<Rightarrow>
          (case read_node p st of
             Inl e \<Rightarrow> Some (Inl e)
           | Inr page \<Rightarrow>
               Option.bind (free_subtrees (if is_leaf_page page then [] else map snd (child_entries page)) st) (\<lambda>res.
                 case res of
                   Inl e \<Rightarrow> Some (Inl e)
                 | Inr st1 \<Rightarrow> free_subtrees rest (drop_page p st1))))"

definition btree_free_all_pages :: "('k, 'v) btree \<Rightarrow> ('k, 'v) btree result option" where
  "btree_free_all_pages st =
     Option.bind (case root_page st of None \<Rightarrow> Some (Inr st) | Some r \<Rightarrow> free_subtrees [r] st) (\<lambda>res.
       case res of
         Inl e \<Rightarrow> Some (Inl e)
       | Inr st1 \<Rightarrow> Some (Inr (st1\<lparr>free_ids := free_ids st1 @ [header_id st1]\<rparr>)))"

end
