(* ===== verification/BPlusInvariant.thy ===== *)
theory BPlusInvariant
  imports BPlusTree "HOL-Library.Product_Lexorder"
begin

text \<open>
  The shape of a B+ tree.  A \<open>shape\<close> is the tree a root id spans, with the ids and contents of its
  pages.  \<open>spine\<close> lists, in tree order, the separators (tagged False) and the keys of the entries
  (tagged True) by rank: the tree is ordered exactly when its spine is strictly increasing, and splits, merges
  and rotations of internal pages leave the spine as it is.  \<open>flat\<close> is the entries in order.
\<close>

datatype ('k, 'v) shape = Lf pid "('k \<times> 'v) list" | Nd pid "('k \<times> ('k, 'v) shape) list"

fun root_pid :: "('k, 'v) shape \<Rightarrow> pid" where
  "root_pid (Lf p es) = p"
| "root_pid (Nd p cs) = p"

primrec flat :: "('k, 'v) shape \<Rightarrow> ('k \<times> 'v) list" where
  "flat (Lf p es) = es"
| "flat (Nd p cs) = concat (map snd (map (map_prod (\<lambda>k. k) flat) cs))"

primrec pids :: "('k, 'v) shape \<Rightarrow> pid list" where
  "pids (Lf p es) = [p]"
| "pids (Nd p cs) = p # concat (map snd (map (map_prod (\<lambda>k. k) pids) cs))"

primrec leaf_pids :: "('k, 'v) shape \<Rightarrow> pid list" where
  "leaf_pids (Lf p es) = [p]"
| "leaf_pids (Nd p cs) = concat (map snd (map (map_prod (\<lambda>k. k) leaf_pids) cs))"

primrec spine :: "('k \<Rightarrow> 'r) \<Rightarrow> ('k, 'v) shape \<Rightarrow> ('r \<times> bool) list" where
  "spine rank (Lf p es) = map (\<lambda>(k, v). (rank k, True)) es"
| "spine rank (Nd p cs) = tl (concat (map (\<lambda>(k, s). (rank k, False) # s) (map (map_prod (\<lambda>k. k) (spine rank)) cs)))"

definition seps :: "('k \<Rightarrow> 'r) \<Rightarrow> ('k \<times> ('k, 'v) shape) list \<Rightarrow> ('r \<times> bool) list" where
  "seps rank cs = concat (map (\<lambda>(k, t). (rank k, False) # spine rank t) cs)"

definition kids :: "(('k, 'v) shape \<Rightarrow> 'a list) \<Rightarrow> ('k \<times> ('k, 'v) shape) list \<Rightarrow> 'a list" where
  "kids f cs = concat (map (\<lambda>(k, t). f t) cs)"

lemma kids_simps [simp]:
  "kids f [] = []" "kids f ((k, t) # cs) = f t @ kids f cs" "kids f (as @ bs) = kids f as @ kids f bs"
  by (simp_all add: kids_def)

lemma seps_simps [simp]:
  "seps rank [] = []" "seps rank ((k, t) # cs) = (rank k, False) # spine rank t @ seps rank cs"
  "seps rank (as @ bs) = seps rank as @ seps rank bs"
  by (simp_all add: seps_def)

lemma map_seps: "concat (map (\<lambda>(k, s). (rank k, False) # s) (map (map_prod (\<lambda>k. k) (spine rank)) cs)) = seps rank cs"
  by (induction cs) auto

lemma map_snd_kids: "concat (map snd (map (map_prod (\<lambda>k. k) f) cs)) = kids f cs"
  by (induction cs) auto

lemma shape_Nd [simp]:
  "flat (Nd p cs) = kids flat cs" "pids (Nd p cs) = p # kids pids cs" "leaf_pids (Nd p cs) = kids leaf_pids cs"
  "spine rank (Nd p cs) = tl (seps rank cs)"
  by (simp_all only: flat.simps pids.simps leaf_pids.simps spine.simps map_snd_kids map_seps)

declare flat.simps(2) [simp del] pids.simps(2) [simp del] leaf_pids.simps(2) [simp del] spine.simps(2) [simp del]

text \<open>Every leaf at depth \<open>h\<close>; the sizes, where the root may have fewer entries.\<close>

primrec balanced :: "nat \<Rightarrow> ('k, 'v) shape \<Rightarrow> bool" where
  "balanced 0 t = (\<exists>p es. t = Lf p es)"
| "balanced (Suc h) t = (\<exists>p cs. t = Nd p cs \<and> cs \<noteq> [] \<and> (\<forall>c \<in> set cs. balanced h (snd c)))"

primrec sized :: "nat \<Rightarrow> nat \<Rightarrow> bool \<Rightarrow> nat \<Rightarrow> ('k, 'v) shape \<Rightarrow> bool" where
  "sized lmax imax is_root 0 t =
     (\<exists>p es. t = Lf p es \<and> (if is_root then 1 else lmax div 2) \<le> length es \<and> length es \<le> lmax)"
| "sized lmax imax is_root (Suc h) t =
     (\<exists>p cs. t = Nd p cs \<and> (if is_root then 2 else imax div 2) \<le> length cs \<and> length cs \<le> imax \<and>
        (\<forall>c \<in> set cs. sized lmax imax False h (snd c)))"

text \<open>The pages hold the shape; \<open>link\<close> says that the leaves are chained in order, ending in \<open>nxt\<close>.\<close>

primrec holds :: "nat \<Rightarrow> nat \<Rightarrow> (pid \<rightharpoonup> ('k, 'v) bpage) \<Rightarrow> ('k, 'v) shape \<Rightarrow> bool" where
  "holds lmax imax m (Lf p es) = (\<exists>nxt. m p = Some (LeafPage lmax nxt es))"
| "holds lmax imax m (Nd p cs) =
     (m p = Some (InternalPage imax (map (\<lambda>(k, t). (k, root_pid t)) cs)) \<and>
      (\<forall>x \<in> set (map (map_prod (\<lambda>k. k) (holds lmax imax m)) cs). snd x))"

lemma holds_Nd [simp]:
  "holds lmax imax m (Nd p cs) \<longleftrightarrow>
     m p = Some (InternalPage imax (map (\<lambda>(k, t). (k, root_pid t)) cs)) \<and> (\<forall>c \<in> set cs. holds lmax imax m (snd c))"
  by simp

declare holds.simps(2) [simp del]

definition first_of :: "pid list \<Rightarrow> pid option \<Rightarrow> pid option" where
  "first_of ps nxt = (case ps of [] \<Rightarrow> nxt | q # qs \<Rightarrow> Some q)"

definition next_of :: "(pid \<rightharpoonup> ('k, 'v) bpage) \<Rightarrow> pid \<Rightarrow> pid option" where
  "next_of m p = (case m p of Some (LeafPage n nxt es) \<Rightarrow> nxt | _ \<Rightarrow> None)"

primrec link :: "(pid \<rightharpoonup> ('k, 'v) bpage) \<Rightarrow> pid list \<Rightarrow> pid option \<Rightarrow> bool" where
  "link m [] nxt = True"
| "link m (p # ps) nxt = (next_of m p = first_of ps nxt \<and> link m ps nxt)"

lemma first_of_simps [simp]: "first_of [] nxt = nxt" "first_of (q # qs) nxt = Some q"
  "first_of (xs @ ys) nxt = first_of xs (first_of ys nxt)"
  by (simp_all add: first_of_def split: list.splits)

lemma link_append [simp]: "link m (xs @ ys) nxt \<longleftrightarrow> link m xs (first_of ys nxt) \<and> link m ys nxt"
  by (induction xs) auto

lemma link_cong: "(\<And>p. p \<in> set ps \<Longrightarrow> m p = m' p) \<Longrightarrow> link m ps nxt = link m' ps nxt"
  by (induction ps) (auto simp: next_of_def)

lemma root_in_pids [simp]: "root_pid t \<in> set (pids t)"
  by (cases t) auto

lemma shape_induct [case_names Lf Nd, induct type: shape]:
  assumes "\<And>p es. P (Lf p es)" and "\<And>p cs. (\<And>k t. (k, t) \<in> set cs \<Longrightarrow> P t) \<Longrightarrow> P (Nd p cs)"
  shows "P (t :: ('a, 'b) shape)"
proof (rule shape.induct)
  fix p and cs :: "('a \<times> ('a, 'b) shape) list"
  assume IH: "\<And>x y. x \<in> set cs \<Longrightarrow> y \<in> Basic_BNFs.snds x \<Longrightarrow> P y"
  show "P (Nd p cs)" by (rule assms(2)) (use IH in \<open>force simp: snds.simps\<close>)
qed (rule assms(1))

lemma in_kids: "x \<in> set (kids f cs) \<longleftrightarrow> (\<exists>k t. (k, t) \<in> set cs \<and> x \<in> set (f t))"
  by (auto simp: kids_def)

lemma leaf_pids_subset: "set (leaf_pids t) \<subseteq> set (pids t)"
proof (induction t)
  case (Nd p cs)
  then show ?case unfolding shape_Nd by (fastforce simp: in_kids)
qed simp

lemma holds_cong: "(\<And>p. p \<in> set (pids t) \<Longrightarrow> m p = m' p) \<Longrightarrow> holds lmax imax m t = holds lmax imax m' t"
proof (induction t)
  case (Nd p cs)
  have "holds lmax imax m t = holds lmax imax m' t" if "(k, t) \<in> set cs" for k t
    using that by (intro Nd.IH [OF that] Nd.prems) (auto simp: in_kids)
  then show ?case using Nd.prems [of p] by auto
qed simp

lemma holds_pids: "holds lmax imax m t \<Longrightarrow> set (pids t) \<subseteq> dom m"
proof (induction t)
  case (Nd p cs)
  have "set (pids t) \<subseteq> dom m" if "(k, t) \<in> set cs" for k t
    using that Nd.prems by (intro Nd.IH [OF that]) auto
  then show ?case using Nd.prems by (fastforce simp: in_kids)
qed auto

section \<open>Searching a page\<close>

context key_order begin

text \<open>The binary search, on keys that increase from \<open>off\<close> on.\<close>

lemma bisect_loop_bounds: "lo \<le> hi \<Longrightarrow> lo \<le> bisect_loop cmp keys key lo hi \<and> bisect_loop cmp keys key lo hi \<le> hi"
proof (induction "hi - lo" arbitrary: lo hi rule: less_induct)
  case less
  show ?case
  proof (cases "lo < hi")
    case True
    then show ?thesis
      using less.hyps [of hi "(lo + hi) div 2 + 1"] less.hyps [of "(lo + hi) div 2" lo]
      by (subst (1 2) bisect_loop.simps) (simp add: Let_def, linarith)
  next
    case False
    then show ?thesis using less.prems by (simp add: bisect_loop.simps)
  qed
qed

lemma bisect_loop_split:
  fixes keys :: "'k list" and key :: 'k
  assumes "\<And>i j. off \<le> i \<Longrightarrow> i < j \<Longrightarrow> j < length keys \<Longrightarrow> rank (keys ! i) < rank (keys ! j)"
    and "off \<le> lo" and "lo \<le> hi" and "hi \<le> length keys"
    and "\<And>i. off \<le> i \<Longrightarrow> i < lo \<Longrightarrow> rank (keys ! i) \<le> rank key"
    and "\<And>i. hi \<le> i \<Longrightarrow> i < length keys \<Longrightarrow> rank key < rank (keys ! i)"
  defines "r \<equiv> bisect_loop cmp keys key lo hi"
  shows "(\<forall>i. off \<le> i \<longrightarrow> i < r \<longrightarrow> rank (keys ! i) \<le> rank key) \<and>
    (\<forall>i. r \<le> i \<longrightarrow> i < length keys \<longrightarrow> rank key < rank (keys ! i))"
  using assms(2-6) unfolding r_def
proof (induction "hi - lo" arbitrary: lo hi rule: less_induct)
  case less
  show ?case
  proof (cases "lo < hi")
    case True
    define mid where "mid = (lo + hi) div 2"
    have mid: "lo \<le> mid" "mid < hi" using True by (auto simp: mid_def)
    have step: "bisect_loop cmp keys key lo hi =
      (if rank (keys ! mid) \<le> rank key then bisect_loop cmp keys key (mid + 1) hi else bisect_loop cmp keys key lo mid)"
      using True by (subst bisect_loop.simps) (simp add: mid_def Let_def cmp_le)
    show ?thesis
    proof (cases "rank (keys ! mid) \<le> rank key")
      case le: True
      have low: "rank (keys ! i) \<le> rank key" if "off \<le> i" "i < mid + 1" for i
      proof (cases "i = mid")
        case False
        then have "rank (keys ! i) < rank (keys ! mid)" using that mid less.prems by (intro assms(1)) auto
        then show ?thesis using le by (meson order.trans less_imp_le)
      qed (use le in simp)
      have "(\<forall>i. off \<le> i \<longrightarrow> i < bisect_loop cmp keys key (mid + 1) hi \<longrightarrow> rank (keys ! i) \<le> rank key) \<and>
        (\<forall>i. bisect_loop cmp keys key (mid + 1) hi \<le> i \<longrightarrow> i < length keys \<longrightarrow> rank key < rank (keys ! i))"
        by (rule less.hyps) (use less.prems(1,3,5) mid low in \<open>simp_all\<close>)
      then show ?thesis using step le by simp
    next
      case gt: False
      have high: "rank key < rank (keys ! i)" if "mid \<le> i" "i < length keys" for i
      proof (cases "i = mid")
        case False
        then have "rank (keys ! mid) < rank (keys ! i)" using that mid less.prems by (intro assms(1)) auto
        then show ?thesis using gt by (meson not_le order.strict_trans)
      qed (use gt in simp)
      have "(\<forall>i. off \<le> i \<longrightarrow> i < bisect_loop cmp keys key lo mid \<longrightarrow> rank (keys ! i) \<le> rank key) \<and>
        (\<forall>i. bisect_loop cmp keys key lo mid \<le> i \<longrightarrow> i < length keys \<longrightarrow> rank key < rank (keys ! i))"
        by (rule less.hyps) (use less.prems(1,3,4) mid high in \<open>simp_all\<close>)
      then show ?thesis using step gt by simp
    qed
  next
    case False
    then have "lo = hi" using less.prems by simp
    then show ?thesis using False less.prems by (simp add: bisect_loop.simps)
  qed
qed

lemma bisect_right_split:
  fixes es :: "('k \<times> 'a) list" and key :: 'k
  assumes "sorted_wrt (\<lambda>a b. rank (fst a) < rank (fst b)) (drop off es)" and "off \<le> length es"
  defines "r \<equiv> bisect_right cmp es key off"
  shows "off \<le> r" and "r \<le> length es"
    and "\<And>i. off \<le> i \<Longrightarrow> i < r \<Longrightarrow> rank (fst (es ! i)) \<le> rank key"
    and "\<And>i. r \<le> i \<Longrightarrow> i < length es \<Longrightarrow> rank key < rank (fst (es ! i))"
proof -
  have inc: "rank (map fst es ! i) < rank (map fst es ! j)" if "off \<le> i" "i < j" "j < length (map fst es)" for i j
  proof -
    have "rank (fst (drop off es ! (i - off))) < rank (fst (drop off es ! (j - off)))"
      using sorted_wrt_nth_less [OF assms(1), of "i - off" "j - off"] that by simp
    then show ?thesis using that by simp
  qed
  have b: "off \<le> r \<and> r \<le> length es"
    unfolding r_def bisect_right_def by (rule bisect_loop_bounds) (use assms(2) in simp)
  then show "off \<le> r" "r \<le> length es" by simp_all
  have s: "(\<forall>i. off \<le> i \<longrightarrow> i < r \<longrightarrow> rank (map fst es ! i) \<le> rank key) \<and>
    (\<forall>i. r \<le> i \<longrightarrow> i < length (map fst es) \<longrightarrow> rank key < rank (map fst es ! i))"
    unfolding r_def bisect_right_def by (rule bisect_loop_split [OF inc]) (use assms(2) in auto)
  show "rank (fst (es ! i)) \<le> rank key" if "off \<le> i" "i < r" for i
    using s b that by (metis length_map nth_map order_less_le_trans)
  show "rank key < rank (fst (es ! i))" if "r \<le> i" "i < length es" for i
    using s that by (metis length_map nth_map)
qed

lemma bisect_entries:
  assumes "sorted_wrt (\<lambda>a b. rank (fst a) < rank (fst b)) es"
  obtains xs ys where "es = xs @ ys" and "bisect_right cmp es key 0 = length xs"
    and "\<And>e. e \<in> set xs \<Longrightarrow> rank (fst e) \<le> rank key" and "\<And>e. e \<in> set ys \<Longrightarrow> rank key < rank (fst e)"
proof
  let ?r = "bisect_right cmp es key 0"
  have "sorted_wrt (\<lambda>a b. rank (fst a) < rank (fst b)) (drop 0 es)" using assms by simp
  note b = bisect_right_split [OF this le0, where key = key]
  show "es = take ?r es @ drop ?r es" by simp
  show "?r = length (take ?r es)" using b(2) by simp
  show "rank (fst e) \<le> rank key" if "e \<in> set (take ?r es)" for e
    using that b by (auto simp: in_set_conv_nth)
  show "rank key < rank (fst e)" if "e \<in> set (drop ?r es)" for e
    using that b by (auto simp: in_set_conv_nth)
qed

lemma bisect_children:
  assumes "sorted_wrt (\<lambda>a b. rank (fst a) < rank (fst b)) (tl es)" and "es \<noteq> []"
  obtains xs e ys where "es = xs @ e # ys" and "bisect_right cmp es key 1 - 1 = length xs"
    and "bisect_right cmp es key 1 = Suc (length xs)"
    and "xs \<noteq> [] \<Longrightarrow> rank (fst e) \<le> rank key" and "\<And>y. y \<in> set ys \<Longrightarrow> rank key < rank (fst y)"
proof
  let ?r = "bisect_right cmp es key 1"
  have "sorted_wrt (\<lambda>a b. rank (fst a) < rank (fst b)) (drop 1 es)" "1 \<le> length es"
    using assms by (simp_all add: drop_Suc Suc_le_eq)
  note b = bisect_right_split [OF this, where key = key]
  have r: "?r - 1 < length es" "Suc (?r - 1) = ?r" using b(1,2) by auto
  show "es = take (?r - 1) es @ es ! (?r - 1) # drop ?r es" using r id_take_nth_drop [OF r(1)] by simp
  show "?r - 1 = length (take (?r - 1) es)" "?r = Suc (length (take (?r - 1) es))" using r by auto
  show "rank (fst (es ! (?r - 1))) \<le> rank key" if "take (?r - 1) es \<noteq> []" using that b r by (auto intro: b(3))
  show "rank key < rank (fst y)" if "y \<in> set (drop ?r es)" for y
    using that b(4) by (auto simp: in_set_conv_nth)
qed

end

section \<open>Changes of the page table\<close>

definition alloc_ok :: "('k, 'v) btree \<Rightarrow> bool" where
  "alloc_ok st \<longleftrightarrow> distinct (free_ids st) \<and> (\<forall>p \<in> set (free_ids st). tree_pages st p = None) \<and>
     tree_pages st (header_id st) = None \<and> header_id st \<notin> set (free_ids st) \<and>
     header_id st < next_id st \<and> (\<forall>p x. tree_pages st p = Some x \<longrightarrow> p < next_id st) \<and>
     (\<forall>p \<in> set (free_ids st). p < next_id st)"

definition same_params :: "('k, 'v) btree \<Rightarrow> ('k, 'v) btree \<Rightarrow> bool" where
  "same_params st st' \<longleftrightarrow> leaf_max st' = leaf_max st \<and> internal_max st' = internal_max st \<and>
     root_page st' = root_page st \<and> header_id st' = header_id st \<and> stale_key st' = stale_key st"

text \<open>
  \<open>evolves st st' Old New\<close>: the pages \<open>Old\<close> were replaced by the pages \<open>New\<close>; every other page is as
  before, and the ids in \<open>New\<close> that are not in \<open>Old\<close> are fresh.
\<close>

definition evolves :: "('k, 'v) btree \<Rightarrow> ('k, 'v) btree \<Rightarrow> pid set \<Rightarrow> pid set \<Rightarrow> bool" where
  "evolves st st' Old New \<longleftrightarrow> same_params st st' \<and> alloc_ok st' \<and> Old \<subseteq> dom (tree_pages st) \<and>
     dom (tree_pages st') = dom (tree_pages st) - Old \<union> New \<and> (\<forall>p \<in> New - Old. tree_pages st p = None) \<and>
     (\<forall>p. p \<notin> Old \<union> New \<longrightarrow> tree_pages st' p = tree_pages st p)"

lemma write_node_simps [simp]:
  "tree_pages (write_node p x st) = (tree_pages st)(p \<mapsto> x)" "root_page (write_node p x st) = root_page st"
  "leaf_max (write_node p x st) = leaf_max st" "internal_max (write_node p x st) = internal_max st"
  "free_ids (write_node p x st) = free_ids st" "next_id (write_node p x st) = next_id st"
  "header_id (write_node p x st) = header_id st" "stale_key (write_node p x st) = stale_key st"
  by (simp_all add: write_node_def)

lemma drop_page_simps [simp]:
  "tree_pages (drop_page p st) = (tree_pages st)(p := None)" "root_page (drop_page p st) = root_page st"
  "leaf_max (drop_page p st) = leaf_max st" "internal_max (drop_page p st) = internal_max st"
  "free_ids (drop_page p st) = free_ids st @ [p]" "next_id (drop_page p st) = next_id st"
  "header_id (drop_page p st) = header_id st" "stale_key (drop_page p st) = stale_key st"
  by (simp_all add: drop_page_def)

lemma read_node_iff: "read_node p st = Inr x \<longleftrightarrow> tree_pages st p = Some x"
  by (simp add: read_node_def split: option.splits)

lemma read_write [simp]: "read_node q (write_node p x st) = (if q = p then Inr x else read_node q st)"
  by (simp add: read_node_def)

lemma evolves_refl: "alloc_ok st \<Longrightarrow> S \<subseteq> dom (tree_pages st) \<Longrightarrow> evolves st st S S"
  by (auto simp: evolves_def same_params_def)

lemma evolves_params: "evolves st st' Old New \<Longrightarrow> same_params st st' \<and> alloc_ok st'"
  by (simp add: evolves_def)

lemma evolves_write:
  assumes "evolves st st1 Old New" and "p \<in> New"
  shows "evolves st (write_node p x st1) Old New"
proof -
  have d: "p \<in> dom (tree_pages st1)" using assms by (auto simp: evolves_def)
  then have "alloc_ok st1 \<Longrightarrow> alloc_ok (write_node p x st1)" by (auto simp: alloc_ok_def)
  then show ?thesis using assms d by (auto simp: evolves_def same_params_def)
qed

lemma evolves_more:
  assumes "evolves st st1 Old New" and "S \<subseteq> dom (tree_pages st)" and "S \<inter> Old = {}"
  shows "evolves st st1 (S \<union> Old) (S \<union> New)"
  using assms by (auto simp: evolves_def)

lemma alloc_page_fresh:
  assumes "alloc_page st = (q, st1)" and "alloc_ok st"
  shows "q \<notin> dom (tree_pages st)" and "tree_pages st1 = tree_pages st" and "same_params st st1"
    and "alloc_ok (write_node q x st1)"
proof -
  have f: "set (butlast (free_ids st)) \<subseteq> set (free_ids st)" by (auto dest: in_set_butlastD)
  have d: "free_ids st \<noteq> [] \<Longrightarrow> distinct (free_ids st) \<Longrightarrow>
    distinct (butlast (free_ids st)) \<and> last (free_ids st) \<notin> set (butlast (free_ids st)) \<and> last (free_ids st) \<in> set (free_ids st)"
    by (metis append_butlast_last_id distinct_append distinct_butlast disjoint_insert(1) last_in_set list.simps(15) not_distinct_conv_prefix)
  show "q \<notin> dom (tree_pages st)" "tree_pages st1 = tree_pages st" "same_params st st1"
    using assms d by (auto simp: alloc_page_def alloc_ok_def same_params_def split: if_splits)
  show "alloc_ok (write_node q x st1)"
    using assms d f by (auto simp: alloc_page_def alloc_ok_def less_SucI split: if_splits)
qed

lemma evolves_alloc:
  assumes "evolves st st1 Old New" and "alloc_page st1 = (q, st2)" and "q \<notin> dom (tree_pages st)"
  shows "evolves st (write_node q x st2) Old (insert q New)"
proof -
  have "alloc_ok st1" using assms(1) by (simp add: evolves_def)
  note a = alloc_page_fresh [OF assms(2) this]
  show ?thesis
    using assms(1,3) a by (auto simp: evolves_def same_params_def)
qed

lemma alloc_page_same: "alloc_page st = (q, st1) \<Longrightarrow> same_params st st1 \<and> tree_pages st1 = tree_pages st"
  by (auto simp: alloc_page_def same_params_def split: if_splits)

lemma evolves_drop:
  assumes "evolves st st1 Old New" and "d \<in> New" and "d \<in> Old"
  shows "evolves st (drop_page d st1) Old (New - {d})"
proof -
  obtain x where x: "tree_pages st1 d = Some x" using assms by (auto simp: evolves_def)
  have "alloc_ok st1" using assms(1) by (simp add: evolves_def)
  then have "alloc_ok (drop_page d st1)" using x by (auto simp: alloc_ok_def)
  then show ?thesis using assms by (auto simp: evolves_def same_params_def)
qed

section \<open>Good subtrees\<close>

definition good_list :: "('k, 'v) btree \<Rightarrow> nat \<Rightarrow> pid option \<Rightarrow> ('k \<times> ('k, 'v) shape) list \<Rightarrow> bool" where
  "good_list st h nxt cs \<longleftrightarrow>
     (\<forall>c \<in> set cs. holds (leaf_max st) (internal_max st) (tree_pages st) (snd c) \<and> balanced h (snd c)) \<and>
     distinct (kids pids cs) \<and> link (tree_pages st) (kids leaf_pids cs) nxt"

definition good :: "('k, 'v) btree \<Rightarrow> nat \<Rightarrow> pid option \<Rightarrow> ('k, 'v) shape \<Rightarrow> bool" where
  "good st h nxt t \<longleftrightarrow> holds (leaf_max st) (internal_max st) (tree_pages st) t \<and> balanced h t \<and>
     distinct (pids t) \<and> link (tree_pages st) (leaf_pids t) nxt"

lemma good_Nd:
  "good st (Suc h) nxt (Nd p cs) \<longleftrightarrow>
     tree_pages st p = Some (InternalPage (internal_max st) (map (\<lambda>(k, t). (k, root_pid t)) cs)) \<and>
     p \<notin> set (kids pids cs) \<and> cs \<noteq> [] \<and> good_list st h nxt cs"
  by (auto simp: good_def good_list_def)

lemma good_list_simps [simp]:
  "good_list st h nxt []"
  "good_list st h nxt (xs @ ys) \<longleftrightarrow>
     good_list st h (first_of (kids leaf_pids ys) nxt) xs \<and> good_list st h nxt ys \<and>
     set (kids pids xs) \<inter> set (kids pids ys) = {}"
  "good_list st h nxt ((k, t) # ys) \<longleftrightarrow>
     good st h (first_of (kids leaf_pids ys) nxt) t \<and> good_list st h nxt ys \<and> set (pids t) \<inter> set (kids pids ys) = {}"
  by (auto simp: good_list_def good_def)

lemma good_list_dom: "good_list st h nxt cs \<Longrightarrow> set (kids pids cs) \<subseteq> dom (tree_pages st)"
  using holds_pids by (fastforce simp: good_list_def in_kids)

lemma good_dom: "good st h nxt t \<Longrightarrow> set (pids t) \<subseteq> dom (tree_pages st)"
  using holds_pids by (fastforce simp: good_def)

lemma kids_leaf_subset: "set (kids leaf_pids cs) \<subseteq> set (kids pids cs)"
  using leaf_pids_subset by (fastforce simp: in_kids)

lemma evolves_same:
  "evolves st st' Old New \<Longrightarrow> p \<in> dom (tree_pages st) \<Longrightarrow> p \<notin> Old \<Longrightarrow> tree_pages st' p = tree_pages st p"
  by (cases "p \<in> New") (auto simp: evolves_def)

lemma good_list_frame:
  assumes "good_list st h nxt cs" and "evolves st st' Old New" and "set (kids pids cs) \<inter> Old = {}"
  shows "good_list st' h nxt cs"
proof -
  have same: "tree_pages st' p = tree_pages st p" if "p \<in> set (kids pids cs)" for p
    using that assms(3) good_list_dom [OF assms(1)] by (intro evolves_same [OF assms(2)]) blast+
  have "holds (leaf_max st) (internal_max st) (tree_pages st') (snd c) =
    holds (leaf_max st) (internal_max st) (tree_pages st) (snd c)" if "c \<in> set cs" for c
    using that by (intro holds_cong same) (cases c, auto simp: in_kids)
  moreover have "link (tree_pages st') (kids leaf_pids cs) nxt = link (tree_pages st) (kids leaf_pids cs) nxt"
    using kids_leaf_subset by (intro link_cong same) blast
  moreover have "leaf_max st' = leaf_max st" "internal_max st' = internal_max st"
    using assms(2) by (auto simp: evolves_def same_params_def)
  ultimately show ?thesis using assms(1) by (simp add: good_list_def)
qed

lemma good_frame:
  assumes "good st h nxt t" and "evolves st st' Old New" and "set (pids t) \<inter> Old = {}"
  shows "good st' h nxt t"
  using good_list_frame [of st h nxt "[(undefined, t)]" st' Old New] assms by simp

end
