(* ===== verification/BPlusSearch.thy ===== *)
theory BPlusSearch
  imports BPlusInvariant
begin

text \<open>
  Searching the tree.  \<open>btree_rep\<close> is the invariant of a whole tree: the pages are exactly those of a
  balanced, ordered, half-full shape whose leaves are chained, and the allocator hands out no page
  in use.  A descent reaches the leaf around the key, and \<open>GetValue\<close> is the lookup in the finite map the
  tree stands for.
\<close>

section \<open>Order\<close>

abbreviation kid_entries :: "('k \<times> ('k, 'v) shape) list \<Rightarrow> ('k \<times> pid) list" where
  "kid_entries cs \<equiv> map (\<lambda>(k, t). (k, root_pid t)) cs"

definition between :: "'a::order list \<Rightarrow> 'a \<Rightarrow> 'a list \<Rightarrow> bool" where
  "between A x B \<longleftrightarrow> (\<forall>a \<in> set A. a < x) \<and> (\<forall>b \<in> set B. x < b)"

lemma between_extend: "between A x B \<Longrightarrow> between A' x [] \<Longrightarrow> between [] x B' \<Longrightarrow> between (A @ A') x (B' @ B)"
  by (auto simp: between_def)

lemma between_parts: "between (A @ A') x (B' @ B) \<Longrightarrow> between A x B \<and> between A' x [] \<and> between [] x B'"
  by (auto simp: between_def)

lemma sorted_insert: "sorted_wrt (<) (P @ Q) \<Longrightarrow> between P x Q \<Longrightarrow> sorted_wrt (<) (P @ x # Q)"
  by (auto simp: sorted_wrt_append between_def)

text \<open>What precedes the spine of a child among its siblings.\<close>

definition lead :: "('k \<Rightarrow> 'r) \<Rightarrow> ('k \<times> ('k, 'v) shape) list \<Rightarrow> 'k \<Rightarrow> ('r \<times> bool) list" where
  "lead rank xs k = (if xs = [] then [] else tl (seps rank xs) @ [(rank k, False)])"

lemma seps_nonempty: "seps rank cs = [] \<longleftrightarrow> cs = []"
  by (cases cs) (auto simp: seps_def)

lemma tl_seps: "tl (seps rank (xs @ (k, c) # ys)) = lead rank xs k @ spine rank c @ seps rank ys"
  by (simp add: lead_def seps_nonempty)

lemma spine_kid: "spine rank (Nd p (xs @ (k, c) # ys)) = lead rank xs k @ spine rank c @ seps rank ys"
  by (simp only: shape_Nd tl_seps)

lemma flat_in_spine: "(k, v) \<in> set (flat t) \<Longrightarrow> (rank k, True) \<in> set (spine rank t)"
proof (induction t)
  case (Lf p es)
  then show ?case by force
next
  case (Nd p cs)
  then obtain j t where t: "(j, t) \<in> set cs" "(k, v) \<in> set (flat t)" by (auto simp: in_kids)
  then obtain xs ys where cs: "cs = xs @ (j, t) # ys" by (meson split_list)
  show ?case unfolding cs spine_kid using Nd.IH [OF t] by simp
qed

lemma spine_in_flat: "(r, True) \<in> set (spine rank t) \<Longrightarrow> \<exists>k v. (k, v) \<in> set (flat t) \<and> rank k = r"
proof (induction t)
  case (Nd p cs)
  have "(r, True) \<in> set (seps rank cs)" using Nd.prems by (cases "seps rank cs") auto
  then obtain j t where "(j, t) \<in> set cs" "(r, True) \<in> set (spine rank t)" by (auto simp: seps_def)
  then show ?case using Nd.IH by (fastforce simp: in_kids)
qed auto

lemma kids_flat_in_seps:
  "(k, v) \<in> set (kids flat cs) \<Longrightarrow> (rank k, True) \<in> set (seps rank cs)"
  using flat_in_spine by (fastforce simp: in_kids seps_def)

lemma kids_flat_in_lead: "(k, v) \<in> set (kids flat xs) \<Longrightarrow> (rank k, True) \<in> set (lead rank xs j)"
  using kids_flat_in_seps [of k v xs rank] by (cases xs) (auto simp: lead_def)

lemma sep_in_seps: "y \<in> set cs \<Longrightarrow> (rank (fst y), False) \<in> set (seps rank cs)"
  by (induction cs) auto

text \<open>The finite map a list of entries stands for, by the rank of the keys.\<close>

definition lookup_entry :: "('k \<Rightarrow> 'r) \<Rightarrow> ('k \<times> 'v) list \<Rightarrow> 'k \<Rightarrow> 'v option" where
  "lookup_entry rank es key = map_of (map (\<lambda>(k, v). (rank k, v)) es) (rank key)"

definition btree_rep :: "('k \<Rightarrow> 'r::linorder) \<Rightarrow> ('k, 'v) btree \<Rightarrow> ('k \<times> 'v) list \<Rightarrow> bool" where
  "btree_rep rank st es \<longleftrightarrow> alloc_ok st \<and> 2 \<le> leaf_max st \<and> 2 \<le> internal_max st \<and>
     (case root_page st of
        None \<Rightarrow> tree_pages st = Map.empty \<and> es = []
      | Some r \<Rightarrow> \<exists>h t. root_pid t = r \<and> flat t = es \<and> good st h None t \<and>
          sized (leaf_max st) (internal_max st) True h t \<and> sorted_wrt (<) (spine rank t) \<and>
          dom (tree_pages st) = set (pids t))"

lemma btree_repI:
  assumes "alloc_ok st" and "2 \<le> leaf_max st" and "2 \<le> internal_max st" and "root_page st = Some (root_pid t)"
    and "good st h None t" and "sized (leaf_max st) (internal_max st) True h t" and "sorted_wrt (<) (spine rank t)"
    and "dom (tree_pages st) = set (pids t)"
  shows "btree_rep rank st (flat t)"
  unfolding btree_rep_def assms(4) option.case using assms by (intro conjI exI [of _ h] exI [of _ t]) simp_all

lemma lookup_append [simp]: "lookup_entry rank (xs @ ys) key =
    (case lookup_entry rank xs key of None \<Rightarrow> lookup_entry rank ys key | Some v \<Rightarrow> Some v)"
  by (simp add: lookup_entry_def map_add_def map_of_append split: option.splits)

lemma lookup_Cons [simp]: "lookup_entry rank ((k, v) # es) key = (if rank k = rank key then Some v else lookup_entry rank es key)"
  by (simp add: lookup_entry_def)

lemma lookup_Nil [simp]: "lookup_entry rank [] key = None"
  by (simp add: lookup_entry_def)

lemma lookup_same_rank: "rank a = rank b \<Longrightarrow> lookup_entry rank es a = lookup_entry rank es b"
  by (simp add: lookup_entry_def)

lemma lookup_None: "(\<And>e. e \<in> set es \<Longrightarrow> rank (fst e) \<noteq> rank key) \<Longrightarrow> lookup_entry rank es key = None"
  by (force simp: lookup_entry_def map_of_eq_None_iff)

lemma lookup_NoneD: "lookup_entry rank es key = None \<Longrightarrow> e \<in> set es \<Longrightarrow> rank (fst e) \<noteq> rank key"
  by (cases e) (force simp: lookup_entry_def map_of_eq_None_iff)

lemma lookup_None_iff: "lookup_entry rank es key = None \<longleftrightarrow> (\<forall>e \<in> set es. rank (fst e) \<noteq> rank key)"
  using lookup_NoneD lookup_None by metis

context key_order begin

abbreviation entry_less :: "'k \<times> 'a \<Rightarrow> 'k \<times> 'b \<Rightarrow> bool" where
  "entry_less a b \<equiv> rank (fst a) < rank (fst b)"

lemma sorted_leaf: "sorted_wrt (<) (map (\<lambda>(k, v). (rank k, True)) es) \<longleftrightarrow> sorted_wrt entry_less es"
  by (simp add: sorted_wrt_map case_prod_beta less_prod_def)

lemma sorted_seps: "sorted_wrt (<) (seps rank cs) \<Longrightarrow> sorted_wrt entry_less cs"
proof (induction cs)
  case (Cons c cs)
  obtain k t where c: "c = (k, t)" by (cases c)
  have "rank k < rank (fst y)" if "y \<in> set cs" for y
  proof -
    have "(rank (fst y), False) \<in> set (seps rank cs)" using that by (rule sep_in_seps)
    moreover have "\<forall>x \<in> set (seps rank cs). (rank k, False) < x" using Cons.prems c by (simp add: sorted_wrt_append)
    ultimately have "(rank k, False) < (rank (fst y), False)" by blast
    then show ?thesis by simp
  qed
  then show ?case using Cons c by (simp add: sorted_wrt_append)
qed simp

lemma sorted_kids: "sorted_wrt (<) (tl (seps rank cs)) \<Longrightarrow> sorted_wrt entry_less (tl cs)"
  using sorted_seps by (cases cs) (auto simp: sorted_wrt_append)

lemma sorted_kid_entries: "sorted_wrt entry_less (tl cs) \<Longrightarrow> sorted_wrt entry_less (tl (kid_entries cs))"
  by (cases cs) (auto simp: sorted_wrt_map case_prod_beta)

text \<open>The child a key belongs to, and that the siblings' separators and entries are around the key.\<close>

lemma select_child:
  assumes s: "sorted_wrt (<) (A @ spine rank (Nd p cs) @ B)" and b: "between A (rank key, True) B" and "cs \<noteq> []"
  obtains xs k c ys where "cs = xs @ (k, c) # ys"
    and "bisect_right cmp (kid_entries cs) key 1 = Suc (length xs)"
    and "xs \<noteq> [] \<Longrightarrow> rank k \<le> rank key" and "\<And>y. y \<in> set ys \<Longrightarrow> rank key < rank (fst y)"
    and "sorted_wrt (<) ((A @ lead rank xs k) @ spine rank c @ (seps rank ys @ B))"
    and "between (A @ lead rank xs k) (rank key, True) (seps rank ys @ B)"
proof -
  have so: "sorted_wrt (<) (tl (seps rank cs))" using s by (simp add: sorted_wrt_append)
  have ne: "kid_entries cs \<noteq> []" using \<open>cs \<noteq> []\<close> by simp
  obtain us e vs where u: "kid_entries cs = us @ e # vs" "bisect_right cmp (kid_entries cs) key 1 = Suc (length us)"
    "us \<noteq> [] \<Longrightarrow> rank (fst e) \<le> rank key" "\<And>y. y \<in> set vs \<Longrightarrow> rank key < rank (fst y)"
    by (rule bisect_children [OF sorted_kid_entries [OF sorted_kids [OF so]] ne, of key]) blast
  obtain xs k c ys where c: "cs = xs @ (k, c) # ys" "us = kid_entries xs" "e = (k, root_pid c)" "vs = kid_entries ys"
    using u(1) by (auto simp: map_eq_append_conv map_eq_Cons_conv)
  have le: "xs \<noteq> [] \<Longrightarrow> rank k \<le> rank key" using u(3) c by simp
  have gt: "rank key < rank (fst y)" if "y \<in> set ys" for y using u(4) [of "(fst y, root_pid (snd y))"] that c by force
  have s': "sorted_wrt (<) ((A @ lead rank xs k) @ spine rank c @ (seps rank ys @ B))"
    using s unfolding c(1) by (simp only: spine_kid append_assoc)
  have l: "between (lead rank xs k) (rank key, True) []"
  proof (cases "xs = []")
    case False
    have "sorted_wrt (<) (tl (seps rank xs) @ [(rank k, False)])"
      using s' False by (simp add: lead_def sorted_wrt_append)
    then have "\<forall>a \<in> set (lead rank xs k). a < (rank k, False) \<or> a = (rank k, False)"
      using False by (auto simp: lead_def sorted_wrt_append)
    moreover have "(rank k, False) < (rank key, True)" using le [OF False] by (auto simp: less_prod_def)
    ultimately have "\<forall>a \<in> set (lead rank xs k). a < (rank key, True)" by (metis less_trans)
    then show ?thesis unfolding between_def by simp
  qed (simp add: lead_def between_def)
  have r: "between [] (rank key, True) (seps rank ys)"
  proof (cases ys)
    case (Cons y ys')
    have "(rank key, True) < (rank (fst y), False)" using gt [of y] Cons by (simp add: less_prod_def)
    moreover have "sorted_wrt (<) (seps rank ys)" using s' by (simp add: sorted_wrt_append)
    then have "\<forall>x \<in> set (seps rank ys). (rank (fst y), False) = x \<or> (rank (fst y), False) < x"
      using Cons by (cases y) simp
    ultimately have "\<forall>x \<in> set (seps rank ys). (rank key, True) < x" by (metis less_trans)
    then show ?thesis unfolding between_def by simp
  qed (simp add: between_def)
  have b': "between (A @ lead rank xs k) (rank key, True) (seps rank ys @ B)" by (rule between_extend [OF b l r])
  have u': "bisect_right cmp (kid_entries cs) key 1 = Suc (length xs)" using u(2) c(2) by simp
  show ?thesis by (rule that [OF c(1) u' le gt s' b'])
qed

lemma child_for_selected:
  assumes "cs = xs @ (k, c) # ys" and "bisect_right cmp (kid_entries cs) key 1 = Suc (length xs)"
  shows "child_for cmp key (kid_entries cs) = Inr (root_pid c)"
  using assms by (simp add: child_for_def entry_at_def nth_append)

lemma before_kids: "between (lead rank xs j) (rank key, True) [] \<Longrightarrow> e \<in> set (kids flat xs) \<Longrightarrow> rank (fst e) < rank key"
  using kids_flat_in_lead [of "fst e" "snd e" xs rank j] by (fastforce simp: between_def less_prod_def)

lemma after_kids: "between [] (rank key, True) (seps rank ys) \<Longrightarrow> e \<in> set (kids flat ys) \<Longrightarrow> rank key < rank (fst e)"
  using kids_flat_in_seps [of "fst e" "snd e" ys rank] by (fastforce simp: between_def less_prod_def)

lemma find_leaf_correct:
  assumes "good st h nxt t" and "sorted_wrt (<) (A @ spine rank t @ B)" and "between A (rank key, True) B"
  shows "\<exists>p nx es us vs. find_leaf cmp key st (root_pid t) = Some (Inr p) \<and>
    tree_pages st p = Some (LeafPage (leaf_max st) nx es) \<and> flat t = us @ es @ vs \<and>
    sorted_wrt entry_less es \<and>
    (\<forall>e \<in> set us. rank (fst e) < rank key) \<and> (\<forall>e \<in> set vs. rank key < rank (fst e))"
  using assms
proof (induction h arbitrary: t nxt A B)
  case 0
  then obtain p es where t: "t = Lf p es" by (auto simp: good_def)
  then obtain nx where "tree_pages st p = Some (LeafPage (leaf_max st) nx es)" using 0 by (auto simp: good_def)
  moreover from this have "find_leaf cmp key st p = Some (Inr p)" by (subst find_leaf.simps) (simp add: read_node_def)
  ultimately show ?case
    using t 0 by (intro exI [of _ p] exI [of _ nx] exI [of _ es] exI [of _ "[]"]) (simp add: sorted_wrt_append sorted_leaf)
next
  case (Suc h)
  then obtain p cs where t: "t = Nd p cs" by (auto simp: good_def)
  have pg: "tree_pages st p = Some (InternalPage (internal_max st) (kid_entries cs))" "cs \<noteq> []" "good_list st h nxt cs"
    using Suc.prems(1) unfolding t good_Nd by auto
  obtain xs k c ys where c: "cs = xs @ (k, c) # ys" "bisect_right cmp (kid_entries cs) key 1 = Suc (length xs)"
    "sorted_wrt (<) ((A @ lead rank xs k) @ spine rank c @ (seps rank ys @ B))"
    "between (A @ lead rank xs k) (rank key, True) (seps rank ys @ B)"
    using select_child [of A p cs B key] Suc.prems pg(2) t by metis
  have gc: "good st h (first_of (kids leaf_pids ys) nxt) c" using pg(3) c(1) by simp
  have "find_leaf cmp key st p = find_leaf cmp key st (root_pid c)"
    using pg(1) child_for_selected [OF c(1,2)] by (subst find_leaf.simps) (simp add: read_node_def)
  moreover obtain q nx es us vs where q: "find_leaf cmp key st (root_pid c) = Some (Inr q)"
    "tree_pages st q = Some (LeafPage (leaf_max st) nx es)" "flat c = us @ es @ vs" "sorted_wrt entry_less es"
    "\<forall>e \<in> set us. rank (fst e) < rank key" "\<forall>e \<in> set vs. rank key < rank (fst e)"
    using Suc.IH [OF gc c(3,4)] by blast
  moreover have "flat t = (kids flat xs @ us) @ es @ (vs @ kids flat ys)" using q(3) by (simp add: t c(1))
  moreover have "\<forall>e \<in> set (kids flat xs @ us). rank (fst e) < rank key" "\<forall>e \<in> set (vs @ kids flat ys). rank key < rank (fst e)"
    using q(5,6) between_parts [OF c(4)] before_kids after_kids by auto
  ultimately show ?case unfolding t by (metis root_pid.simps(2))
qed

text \<open>The last entry before the insertion point of a key is the entry of the key, if there is one.\<close>

lemma lookup_leaf:
  fixes es :: "('k \<times> 'v) list"
  assumes "sorted_wrt entry_less es"
  shows "lookup_entry rank es key =
    (let idx = int (bisect_right cmp es key 0) - 1
     in if idx < 0 \<or> cmp (fst (es ! nat idx)) key \<noteq> 0 then None else Some (snd (es ! nat idx)))"
proof -
  obtain xs ys where x: "es = xs @ ys" "bisect_right cmp es key 0 = length xs"
    "\<And>e. e \<in> set xs \<Longrightarrow> rank (fst e) \<le> rank key" "\<And>e. e \<in> set ys \<Longrightarrow> rank key < rank (fst e)"
    by (rule bisect_entries [OF assms, of key]) blast
  have ys: "lookup_entry rank ys key = None" by (rule lookup_None) (use x(4) in force)
  show ?thesis
  proof (cases xs rule: rev_cases)
    case Nil
    then show ?thesis using x(1,2) ys by simp
  next
    case (snoc us e)
    obtain k v where e: "e = (k, v)" by (cases e)
    have lt: "rank (fst u) < rank k" if "u \<in> set us" for u
      using assms that by (auto simp: x(1) snoc e sorted_wrt_append)
    have le: "rank k \<le> rank key" using x(3) [of e] snoc e by simp
    have us: "lookup_entry rank us key = None" by (rule lookup_None) (use lt le in force)
    have at: "es ! length us = (k, v)" by (simp add: x(1) snoc e)
    show ?thesis unfolding x(2) using ys us at by (simp add: x(1) snoc e cmp_equal)
  qed
qed

lemma contains_key_leaf:
  assumes "sorted_wrt entry_less es"
  shows "contains_key cmp es key (- 1) \<longleftrightarrow> lookup_entry rank es key \<noteq> None"
  using lookup_leaf [OF assms, of key] by (auto simp: contains_key_def Let_def)

lemma get_value_correct:
  assumes "btree_rep rank st es"
  shows "get_value cmp key st = Some (Inr (lookup_entry rank es key))"
proof (cases "root_page st")
  case None
  then show ?thesis using assms by (simp add: get_value_def btree_rep_def)
next
  case (Some r)
  then obtain h t where t: "root_pid t = r" "flat t = es" "good st h None t" "sorted_wrt (<) (spine rank t)"
    using assms by (auto simp: btree_rep_def)
  obtain p nx ls us vs where p: "find_leaf cmp key st r = Some (Inr p)"
    "tree_pages st p = Some (LeafPage (leaf_max st) nx ls)" "es = us @ ls @ vs" "sorted_wrt entry_less ls"
    "\<forall>e \<in> set us. rank (fst e) < rank key" "\<forall>e \<in> set vs. rank key < rank (fst e)"
    using find_leaf_correct [of st h None t "[]" "[]" key] t by (auto simp: between_def)
  have "lookup_entry rank us key = None" "lookup_entry rank vs key = None"
    using p(5,6) by (auto intro!: lookup_None)
  then have "lookup_entry rank es key = lookup_entry rank ls key" by (simp add: p(3) split: option.splits)
  then show ?thesis
    using Some p(1,2) lookup_leaf [OF p(4), of key] by (simp add: get_value_def read_node_def Let_def)
qed

end

section \<open>Lookups in an index\<close>

text \<open>A tree of two leaves, for the concrete instances.\<close>

definition demo_shape :: "(byte list, nat) shape" where
  "demo_shape = Nd 3 [([0], Lf 1 [([1], 10)]), ([2], Lf 2 [([2], 20), ([4], 40)])]"

definition demo_tree :: "(byte list, nat) btree" where
  "demo_tree = \<lparr>tree_pages = [1 \<mapsto> LeafPage 2 (Some 2) [([1], 10)], 2 \<mapsto> LeafPage 2 None [([2], 20), ([4], 40)],
       3 \<mapsto> InternalPage 4 [([0], 1), ([2], 2)]],
     header_id = 0, root_page = Some 3, leaf_max = 2, internal_max = 4, free_ids = [], next_id = 4, stale_key = [0]\<rparr>"

definition demo_schema :: "key_column list" where
  "demo_schema = [(P_UTINYINT, 0)]"

lemma demo_rank [simp]: "key_rank demo_schema [b] = [int (unat b)]"
  by (simp add: key_rank_def demo_schema_def is_integer_column_def load_unsigned_def buf_read_def)

lemma demo_rep: "btree_rep (key_rank demo_schema) demo_tree [([1], 10), ([2], 20), ([4], 40)]"
proof -
  have g: "good demo_tree (Suc 0) None demo_shape"
    by (simp add: good_def demo_shape_def demo_tree_def next_of_def)
  have s: "sized 2 4 True (Suc 0) demo_shape" by (simp add: demo_shape_def)
  have o: "sorted_wrt (<) (spine (key_rank demo_schema) demo_shape)" by (simp add: demo_shape_def)
  have a: "alloc_ok demo_tree" by (auto simp: alloc_ok_def demo_tree_def split: if_splits)
  have d: "dom (tree_pages demo_tree) = set (pids demo_shape)" by (auto simp: demo_tree_def demo_shape_def split: if_splits)
  have f: "flat demo_shape = [([1], 10), ([2], 20), ([4], 40)]" "root_pid demo_shape = 3" by (simp_all add: demo_shape_def)
  have p: "leaf_max demo_tree = 2" "internal_max demo_tree = 4" "root_page demo_tree = Some 3" by (simp_all add: demo_tree_def)
  show ?thesis using btree_repI [of demo_tree demo_shape "Suc 0" "key_rank demo_schema"] g s o a d f p by simp
qed



end
