(* ===== verification/BPlusSplit.thy ===== *)
theory BPlusSplit
  imports BPlusSearch
begin

text \<open>
  Splitting pages and replacing subtrees.  Splitting a full page and inserting into one half is
  inserting and splitting.  \<open>grown\<close> says that a subtree was replaced by one or more subtrees of the same
  height whose entries are those of the old one with one new entry, and \<open>packs\<close> that children were put
  under one page or divided between two; both keep what the pages around them rely on.
\<close>

section \<open>Inserting by position\<close>

abbreviation insert_at :: "nat \<Rightarrow> 'a \<Rightarrow> 'a list \<Rightarrow> 'a list" where
  "insert_at i x es \<equiv> take i es @ x # drop i es"

lemma take_insert_after: "m \<le> r \<Longrightarrow> r \<le> length es \<Longrightarrow> take m (insert_at r x es) = take m es"
  by (simp add: min_def)

lemma drop_insert_after: "m \<le> r \<Longrightarrow> r \<le> length es \<Longrightarrow> drop m (insert_at r x es) = insert_at (r - m) x (drop m es)"
  by (simp add: drop_take)

lemma take_insert_before: "r \<le> m \<Longrightarrow> m \<le> length es \<Longrightarrow> take (Suc m) (insert_at r x es) = insert_at r x (take m es)"
  by (simp add: Suc_diff_le min_def drop_take)

lemma drop_insert_before: "r \<le> m \<Longrightarrow> m \<le> length es \<Longrightarrow> drop (Suc m) (insert_at r x es) = drop m es"
  by (simp add: Suc_diff_le)

context key_order begin

lemma bisect_right_eqI:
  assumes "sorted_wrt entry_less (drop off es)" and "off \<le> r" and "r \<le> length es"
    and "\<And>i. off \<le> i \<Longrightarrow> i < r \<Longrightarrow> rank (fst (es ! i)) \<le> rank key"
    and "\<And>i. r \<le> i \<Longrightarrow> i < length es \<Longrightarrow> rank key < rank (fst (es ! i))"
  shows "bisect_right cmp es key off = r"
proof -
  have "off \<le> length es" using assms(2,3) by simp
  note b = bisect_right_split [OF assms(1) this, where key = key]
  show ?thesis
  proof (rule ccontr)
    assume "bisect_right cmp es key off \<noteq> r"
    then consider "bisect_right cmp es key off < r" | "r < bisect_right cmp es key off" by linarith
    then show False
    proof cases
      case 1
      then show ?thesis using b(4) [OF order_refl] assms(4) [OF b(1) 1] assms(3) by fastforce
    next
      case 2
      then show ?thesis using b(3) [OF assms(2) 2] assms(5) [OF order_refl] b(2) by fastforce
    qed
  qed
qed

text \<open>Where the split halves of a page are searched, compared with the whole page.\<close>

lemma split_position:
  fixes es :: "('k \<times> 'a) list"
  assumes s: "sorted_wrt entry_less (drop off es)" and off: "off \<le> mid" and mid: "mid < length es" and "off \<le> 1"
    and neq: "\<And>i. off \<le> i \<Longrightarrow> i < length es \<Longrightarrow> rank (fst (es ! i)) \<noteq> rank key"
  defines "r \<equiv> bisect_right cmp es key off"
  shows "rank (fst (es ! mid)) < rank key \<Longrightarrow> mid < r \<and> bisect_right cmp (drop mid es) key off = r - mid"
    and "\<not> rank (fst (es ! mid)) < rank key \<Longrightarrow> r \<le> mid \<and> bisect_right cmp (take mid es) key off = r"
    and "r \<le> length es"
proof -
  have "off \<le> length es" using off mid by simp
  note b = bisect_right_split [OF s this, where key = key, folded r_def]
  show "r \<le> length es" by (rule b(2))
  show "mid < r \<and> bisect_right cmp (drop mid es) key off = r - mid" if lt: "rank (fst (es ! mid)) < rank key"
  proof
    show m: "mid < r" using b(4) [of mid] lt mid by fastforce
    have "sorted_wrt entry_less (drop (mid - off) (drop off es))" by (intro sorted_wrt_drop s)
    then have "sorted_wrt entry_less (drop off (drop mid es))"
      using off by (metis drop_drop le_add_diff_inverse2 sorted_wrt_drop add.commute)
    then show "bisect_right cmp (drop mid es) key off = r - mid"
      by (rule bisect_right_eqI) (use m b off \<open>off \<le> 1\<close> in \<open>auto simp: less_diff_conv add.commute\<close>)
  qed
  show "r \<le> mid \<and> bisect_right cmp (take mid es) key off = r" if nl: "\<not> rank (fst (es ! mid)) < rank key"
  proof
    show m: "r \<le> mid" using b(3) [of mid] nl neq [OF off mid] off by (metis not_le order_le_less)
    have "sorted_wrt entry_less (drop off (take mid es))" using s by (metis drop_take sorted_wrt_take)
    then show "bisect_right cmp (take mid es) key off = r"
      by (rule bisect_right_eqI) (use m b mid in auto)
  qed
qed

text \<open>Splitting a full page and inserting into one half is inserting and splitting.\<close>

lemma leaf_insert_after_split_eq:
  fixes es :: "('k \<times> 'v) list" and key :: 'k and v :: 'v
  assumes s: "sorted_wrt entry_less es" and n: "length es = n" "2 \<le> n"
    and neq: "\<And>e. e \<in> set es \<Longrightarrow> rank (fst e) \<noteq> rank key"
  defines "es' \<equiv> insert_at (bisect_right cmp es key 0) (key, v) es"
  shows "\<exists>m. n div 2 \<le> m \<and> m \<le> Suc (n div 2) \<and>
    leaf_insert_after_split cmp key v (LeafPage n a (take (n div 2) es)) (LeafPage n b (drop (n div 2) es)) =
      Inr (LeafPage n a (take m es'), LeafPage n b (drop m es'))"
proof -
  have mid: "n div 2 < length es" "0 < n div 2" using n by auto
  have s0: "sorted_wrt entry_less (drop 0 es)" using s by simp
  have ne: "\<And>i. 0 \<le> i \<Longrightarrow> i < length es \<Longrightarrow> rank (fst (es ! i)) \<noteq> rank key" using neq by (simp add: nth_mem)
  note p = split_position [OF s0 le0 mid(1) _ ne]
  have at: "entry_at (drop (n div 2) es) 0 = Inr (es ! (n div 2))" using mid by (simp add: entry_at_def)
  obtain k w where kw: "es ! (n div 2) = (k, w)" by fastforce
  show ?thesis
  proof (cases "rank k < rank key")
    case True
    then have "n div 2 < bisect_right cmp es key 0" "bisect_right cmp (drop (n div 2) es) key 0 = bisect_right cmp es key 0 - n div 2"
      "bisect_right cmp es key 0 \<le> length es" using p kw by auto
    then show ?thesis using True at kw n mid
      by (intro exI [of _ "n div 2"])
        (simp add: leaf_insert_after_split_def leaf_insert_def leaf_insert_at_def cmp_less es'_def take_insert_after drop_insert_after
          del: take_append drop_append)
  next
    case False
    then have "bisect_right cmp es key 0 \<le> n div 2" "bisect_right cmp (take (n div 2) es) key 0 = bisect_right cmp es key 0"
      using p kw by auto
    then show ?thesis using False at kw n mid
      by (intro exI [of _ "Suc (n div 2)"])
        (simp add: leaf_insert_after_split_def leaf_insert_def leaf_insert_at_def cmp_less es'_def take_insert_before drop_insert_before
          del: take_append drop_append take_Suc drop_Suc)
  qed
qed

lemma internal_insert_after_split_eq:
  fixes es :: "('k \<times> pid) list" and key :: 'k and v :: pid
  assumes s: "sorted_wrt entry_less (tl es)" and n: "length es = n" "2 \<le> n"
    and neq: "\<And>e. e \<in> set (tl es) \<Longrightarrow> rank (fst e) \<noteq> rank key"
  defines "es' \<equiv> insert_at (bisect_right cmp es key 1) (key, v) es"
  shows "\<exists>m. n div 2 \<le> m \<and> m \<le> Suc (n div 2) \<and>
    internal_insert_after_split cmp key v (InternalPage n (take (n div 2) es) :: ('k, 'b) bpage) (InternalPage n (drop (n div 2) es)) =
      Inr (InternalPage n (take m es'), InternalPage n (drop m es'))"
proof -
  have mid: "n div 2 < length es" "1 \<le> n div 2" using n by auto
  have s1: "sorted_wrt entry_less (drop 1 es)" using s by (simp add: drop_Suc)
  have ne: "\<And>i. 1 \<le> i \<Longrightarrow> i < length es \<Longrightarrow> rank (fst (es ! i)) \<noteq> rank key"
  proof -
    fix i assume "1 \<le> i" "i < length es"
    then have "es ! i \<in> set (tl es)" by (cases es; cases i) auto
    then show "rank (fst (es ! i)) \<noteq> rank key" by (rule neq)
  qed
  note p = split_position [OF s1 mid(2,1) order_refl ne]
  have at: "entry_at (drop (n div 2) es) 0 = Inr (es ! (n div 2))" using mid by (simp add: entry_at_def)
  obtain k w where kw: "es ! (n div 2) = (k, w)" by fastforce
  show ?thesis
  proof (cases "rank k < rank key")
    case True
    then have "n div 2 < bisect_right cmp es key 1" "bisect_right cmp (drop (n div 2) es) key 1 = bisect_right cmp es key 1 - n div 2"
      "bisect_right cmp es key 1 \<le> length es" using p kw by auto
    then show ?thesis using True at kw n mid
      by (intro exI [of _ "n div 2"])
        (simp add: internal_insert_after_split_def internal_insert_def internal_insert_at_def cmp_less es'_def take_insert_after drop_insert_after
          del: take_append drop_append One_nat_def)
  next
    case False
    then have "bisect_right cmp es key 1 \<le> n div 2" "bisect_right cmp (take (n div 2) es) key 1 = bisect_right cmp es key 1"
      using p kw by auto
    then show ?thesis using False at kw n mid
      by (intro exI [of _ "Suc (n div 2)"])
        (simp add: internal_insert_after_split_def internal_insert_def internal_insert_at_def cmp_less es'_def take_insert_before drop_insert_before
          del: take_append drop_append One_nat_def)
  qed
qed

end

section \<open>Replacing a subtree\<close>

text \<open>Two changes one after the other; what the first made and the second removed leaves no trace.\<close>

lemma evolves_compose:
  assumes e1: "evolves st st1 O1 N1" and e2: "evolves st1 st2 O2 N2"
  shows "evolves st st2 (O1 \<union> (O2 - N1)) ((N1 - O2) \<union> N2)"
proof -
  have d1: "dom (tree_pages st1) = dom (tree_pages st) - O1 \<union> N1" "O1 \<subseteq> dom (tree_pages st)"
    "p \<in> N1 \<Longrightarrow> p \<notin> O1 \<Longrightarrow> p \<notin> dom (tree_pages st)" for p
    using e1 by (auto simp: evolves_def)
  have d2: "dom (tree_pages st2) = dom (tree_pages st1) - O2 \<union> N2" "O2 \<subseteq> dom (tree_pages st1)"
    "p \<in> N2 \<Longrightarrow> p \<notin> O2 \<Longrightarrow> p \<notin> dom (tree_pages st1)" for p
    using e2 by (auto simp: evolves_def)
  have "tree_pages st2 p = tree_pages st p" if "p \<notin> O1 \<union> (O2 - N1) \<union> ((N1 - O2) \<union> N2)" for p
  proof (cases "p \<in> N1")
    case True
    then have "p \<notin> dom (tree_pages st2)" "p \<notin> dom (tree_pages st)" using that d1 d2 by auto
    then show ?thesis by (metis domIff)
  next
    case False
    then show ?thesis using that e1 e2 by (simp add: evolves_def)
  qed
  moreover note in1 = arg_cong [OF d1(1), of "\<lambda>S. p \<in> S" for p, simplified Un_iff Diff_iff]
    and in2 = arg_cong [OF d2(1), of "\<lambda>S. p \<in> S" for p, simplified Un_iff Diff_iff]
  have "p \<in> dom (tree_pages st2) \<longleftrightarrow> p \<in> dom (tree_pages st) - (O1 \<union> (O2 - N1)) \<union> ((N1 - O2) \<union> N2)" for p
    using in1 [of p] in2 [of p] d1(3) [of p] by auto
  then have "dom (tree_pages st2) = dom (tree_pages st) - (O1 \<union> (O2 - N1)) \<union> ((N1 - O2) \<union> N2)" by (rule set_eqI)
  moreover have "p \<notin> dom (tree_pages st)" if "p \<in> (N1 - O2) \<union> N2 - (O1 \<union> (O2 - N1))" for p
    using that in1 [of p] d1(3) [of p] d2(3) [of p] by auto
  moreover have "O1 \<union> (O2 - N1) \<subseteq> dom (tree_pages st)" using in1 d1(2) d2(2) by fastforce
  moreover have "same_params st st2" "alloc_ok st2" using e1 e2 by (simp_all add: evolves_def same_params_def)
  ultimately show ?thesis unfolding evolves_def by (intro conjI ballI allI impI) (simp_all add: domIff)
qed

lemma evolves_trans:
  assumes "evolves st st1 O1 N1" and "evolves st1 st2 O2 N2" and "O2 \<inter> N1 = {}"
  shows "evolves st st2 (O1 \<union> O2) (N1 \<union> N2)"
proof -
  have "O2 - N1 = O2" "N1 - O2 = N1" using assms(3) by auto
  then show ?thesis using evolves_compose [OF assms(1,2)] by simp
qed

lemma write_node_twist: "p \<noteq> q \<Longrightarrow> write_node q x (write_node p y st) = write_node p y (write_node q x st)"
  by (simp add: write_node_def fun_upd_twist)

lemma evolves_write_two:
  assumes "alloc_ok st" and "p \<in> dom (tree_pages st)" and "alloc_page st = (q, st1)"
  shows "evolves st (write_node q x (write_node p y st1)) {p} {p, q}" and "q \<notin> dom (tree_pages st)"
proof -
  show q: "q \<notin> dom (tree_pages st)" by (rule alloc_page_fresh [OF assms(3,1)])
  have "evolves st st {p} {p}" using assms(1,2) by (intro evolves_refl) auto
  then have "evolves st (write_node q x st1) {p} {q, p}" using assms(3) q by (rule evolves_alloc)
  then have "evolves st (write_node p y (write_node q x st1)) {p} {q, p}" by (rule evolves_write) simp
  moreover have "p \<noteq> q" using q assms(2) by auto
  ultimately show "evolves st (write_node q x (write_node p y st1)) {p} {p, q}"
    by (simp add: write_node_twist insert_commute)
qed

lemma leaf_pids_nonempty: "balanced h t \<Longrightarrow> leaf_pids t \<noteq> []"
proof (induction h arbitrary: t)
  case (Suc h)
  then obtain p k c cs where "t = Nd p ((k, c) # cs)" "balanced h c" by (auto simp: neq_Nil_conv)
  then show ?case using Suc.IH by simp
qed auto

lemma good_leaves: "good st h nxt t \<Longrightarrow> leaf_pids t \<noteq> []"
  using leaf_pids_nonempty by (auto simp: good_def)

lemma good_first: "good st h nxt t \<Longrightarrow> first_of (leaf_pids t) n = Some (hd (leaf_pids t))"
  using good_leaves [of st h nxt t] by (cases "leaf_pids t") auto

text \<open>
  The neighbours \<open>t\<close> and \<open>ts\<close> were replaced by \<open>c\<close> and \<open>rs\<close>, and the pages \<open>X\<close> may have changed too.
\<close>

definition replaces :: "('k \<Rightarrow> 'r::linorder) \<Rightarrow> ('r \<times> bool) list \<Rightarrow> ('r \<times> bool) list \<Rightarrow> nat \<Rightarrow> pid option \<Rightarrow> pid set \<Rightarrow>
    ('k, 'v) btree \<Rightarrow> ('k, 'v) btree \<Rightarrow> ('k, 'v) shape \<Rightarrow> ('k \<times> ('k, 'v) shape) list \<Rightarrow> ('k, 'v) shape \<Rightarrow>
    ('k \<times> ('k, 'v) shape) list \<Rightarrow> bool" where
  "replaces rank A B h nxt X st st' t ts c rs \<longleftrightarrow> root_pid c = root_pid t \<and>
     good st' h (first_of (kids leaf_pids rs) nxt) c \<and> good_list st' h nxt rs \<and> set (pids c) \<inter> set (kids pids rs) = {} \<and>
     hd (leaf_pids c) = hd (leaf_pids t) \<and> sorted_wrt (<) (A @ spine rank c @ seps rank rs @ B) \<and>
     evolves st st' (X \<union> (set (pids t) \<union> set (kids pids ts))) (X \<union> (set (pids c) \<union> set (kids pids rs)))"

lemma replaces_kids:
  fixes A B :: "('r::linorder \<times> bool) list"
  assumes g: "good_list st h nxt (xs @ (k, t) # ts @ ys)"
    and r: "replaces rank (A @ lead rank xs k) (seps rank ys @ B) h (first_of (kids leaf_pids ys) nxt) X st st' t ts c rs"
    and X: "X \<inter> set (kids pids (xs @ (k, t) # ts @ ys)) = {}"
  shows "good_list st' h nxt (xs @ (k, c) # rs @ ys)"
    and "sorted_wrt (<) (A @ tl (seps rank (xs @ (k, c) # rs @ ys)) @ B)"
    and "evolves st st' (X \<union> set (kids pids (xs @ (k, t) # ts @ ys))) (X \<union> set (kids pids (xs @ (k, c) # rs @ ys)))"
    and "hd (kids leaf_pids (xs @ (k, c) # rs @ ys)) = hd (kids leaf_pids (xs @ (k, t) # ts @ ys))"
proof -
  have ev: "evolves st st' (X \<union> (set (pids t) \<union> set (kids pids ts))) (X \<union> (set (pids c) \<union> set (kids pids rs)))"
    using r by (simp add: replaces_def)
  have gt: "good st h (first_of (kids leaf_pids ts) (first_of (kids leaf_pids ys) nxt)) t" using g by simp
  have gc: "good st' h (first_of (kids leaf_pids rs) (first_of (kids leaf_pids ys) nxt)) c" using r by (simp add: replaces_def)
  have gs: "good_list st h (Some (hd (leaf_pids t))) xs" "good_list st h nxt ys" using g good_first [OF gt] by simp_all
  have dom: "set (kids pids xs) \<union> set (kids pids ys) \<subseteq> dom (tree_pages st)"
    using good_list_dom [OF gs(1)] good_list_dom [OF gs(2)] by blast
  have sib: "set (kids pids xs) \<inter> set (kids pids ys) = {}"
    "(set (kids pids xs) \<union> set (kids pids ys)) \<inter> (X \<union> (set (pids t) \<union> set (kids pids ts))) = {}" using g X by auto
  have new: "p \<in> set (pids c) \<union> set (kids pids rs) \<Longrightarrow> p \<in> X \<union> (set (pids t) \<union> set (kids pids ts)) \<or> p \<notin> dom (tree_pages st)" for p
    using ev by (auto simp: evolves_def)
  have gx: "good_list st' h (Some (hd (leaf_pids t))) xs" using sib(2) by (intro good_list_frame [OF gs(1) ev]) blast
  have gy: "good_list st' h nxt ys" using sib(2) by (intro good_list_frame [OF gs(2) ev]) blast
  have hd_eq: "hd (leaf_pids c) = hd (leaf_pids t)" using r by (simp add: replaces_def)
  have gr: "good_list st' h (first_of (kids leaf_pids ys) nxt) rs" "set (pids c) \<inter> set (kids pids rs) = {}"
    using r by (simp_all add: replaces_def)
  have dj: "(set (kids pids xs) \<union> set (kids pids ys)) \<inter> (set (pids c) \<union> set (kids pids rs)) = {}"
    using new sib(2) dom by blast
  show "good_list st' h nxt (xs @ (k, c) # rs @ ys)"
    using gx gy gc gr dj sib good_first [OF gc] hd_eq by auto
  show "sorted_wrt (<) (A @ tl (seps rank (xs @ (k, c) # rs @ ys)) @ B)"
    unfolding tl_seps using r by (simp add: replaces_def)
  have "evolves st st' ((set (kids pids xs) \<union> set (kids pids ys)) \<union> (X \<union> (set (pids t) \<union> set (kids pids ts))))
      ((set (kids pids xs) \<union> set (kids pids ys)) \<union> (X \<union> (set (pids c) \<union> set (kids pids rs))))"
    by (rule evolves_more [OF ev dom sib(2)])
  then show "evolves st st' (X \<union> set (kids pids (xs @ (k, t) # ts @ ys))) (X \<union> set (kids pids (xs @ (k, c) # rs @ ys)))"
    by (simp add: Un_ac)
  show "hd (kids leaf_pids (xs @ (k, c) # rs @ ys)) = hd (kids leaf_pids (xs @ (k, t) # ts @ ys))"
    using hd_eq good_leaves [OF gc] good_leaves [OF gt] by (cases "kids leaf_pids xs") auto
qed

text \<open>A subtree was replaced by one or more that hold one more entry.\<close>

definition grown :: "('k \<Rightarrow> 'r::linorder) \<Rightarrow> 'k \<Rightarrow> 'v \<Rightarrow> ('r \<times> bool) list \<Rightarrow> ('r \<times> bool) list \<Rightarrow> nat \<Rightarrow> pid option \<Rightarrow>
    ('k, 'v) shape \<Rightarrow> ('k, 'v) btree \<Rightarrow> ('k, 'v) btree \<Rightarrow> ('k, 'v) shape \<Rightarrow> ('k \<times> ('k, 'v) shape) list \<Rightarrow> bool" where
  "grown rank key v A B h nxt t st st' c rs \<longleftrightarrow> replaces rank A B h nxt {} st st' t [] c rs \<and>
     (\<exists>us vs. flat t = us @ vs \<and> flat c @ kids flat rs = us @ (key, v) # vs)"

lemmas grown_defs = grown_def replaces_def

lemma grown_kids:
  fixes A B :: "('r::linorder \<times> bool) list"
  assumes g: "good_list st h nxt (xs @ (k, t) # ys)"
    and r: "grown rank key v (A @ lead rank xs k) (seps rank ys @ B) h (first_of (kids leaf_pids ys) nxt) t st st' c rs"
  shows "good_list st' h nxt (xs @ (k, c) # rs @ ys)"
    and "sorted_wrt (<) (A @ tl (seps rank (xs @ (k, c) # rs @ ys)) @ B)"
    and "evolves st st' (set (kids pids (xs @ (k, t) # ys))) (set (kids pids (xs @ (k, c) # rs @ ys)))"
    and "hd (kids leaf_pids (xs @ (k, c) # rs @ ys)) = hd (kids leaf_pids (xs @ (k, t) # ys))"
    and "\<exists>us vs. kids flat (xs @ (k, t) # ys) = us @ vs \<and> kids flat (xs @ (k, c) # rs @ ys) = us @ (key, v) # vs"
proof -
  have "replaces rank (A @ lead rank xs k) (seps rank ys @ B) h (first_of (kids leaf_pids ys) nxt) {} st st' t [] c rs"
    using r by (simp add: grown_def)
  note k = replaces_kids [of st h nxt xs k t "[]" ys, OF _ this]
  show "good_list st' h nxt (xs @ (k, c) # rs @ ys)"
    "sorted_wrt (<) (A @ tl (seps rank (xs @ (k, c) # rs @ ys)) @ B)"
    "evolves st st' (set (kids pids (xs @ (k, t) # ys))) (set (kids pids (xs @ (k, c) # rs @ ys)))"
    "hd (kids leaf_pids (xs @ (k, c) # rs @ ys)) = hd (kids leaf_pids (xs @ (k, t) # ys))"
    using k g by (simp_all only: append_Nil Un_empty_left Int_empty_left)
  obtain us vs where "flat t = us @ vs" "flat c @ kids flat rs = us @ (key, v) # vs" using r by (auto simp: grown_def)
  then have "kids flat (xs @ (k, t) # ys) = (kids flat xs @ us) @ (vs @ kids flat ys) \<and>
      kids flat (xs @ (k, c) # rs @ ys) = (kids flat xs @ us) @ (key, v) # (vs @ kids flat ys)"
    by (metis append.assoc append_Cons kids_simps(2,3))
  then show "\<exists>us vs. kids flat (xs @ (k, t) # ys) = us @ vs \<and> kids flat (xs @ (k, c) # rs @ ys) = us @ (key, v) # vs" by blast
qed

text \<open>The children \<open>cs\<close> under one page, or divided between two.\<close>

definition packs :: "('k \<Rightarrow> 'r) \<Rightarrow> ('k, 'v) btree \<Rightarrow> nat \<Rightarrow> pid option \<Rightarrow> pid \<Rightarrow> pid set \<Rightarrow> ('k \<times> ('k, 'v) shape) list \<Rightarrow>
    ('k, 'v) shape \<Rightarrow> ('k \<times> ('k, 'v) shape) list \<Rightarrow> bool" where
  "packs rank st h nxt p P cs c rs \<longleftrightarrow> root_pid c = p \<and>
     good st (Suc h) (first_of (kids leaf_pids rs) nxt) c \<and> good_list st (Suc h) nxt rs \<and> set (pids c) \<inter> set (kids pids rs) = {} \<and>
     spine rank c @ seps rank rs = tl (seps rank cs) \<and> flat c @ kids flat rs = kids flat cs \<and>
     leaf_pids c @ kids leaf_pids rs = kids leaf_pids cs \<and> set (pids c) \<union> set (kids pids rs) = P \<union> set (kids pids cs)"

lemma packs_one:
  assumes "good_list st h nxt cs" and "cs \<noteq> []" and "p \<notin> set (kids pids cs)"
    and "tree_pages st p = Some (InternalPage (internal_max st) (kid_entries cs))"
  shows "packs rank st h nxt p {p} cs (Nd p cs) []"
  using assms by (simp add: packs_def good_Nd)

text \<open>The first key of the second page is never read, so it may be anything.\<close>

lemma seps_divide:
  assumes "0 < m" and "m < length cs"
  shows "tl (seps rank (take m cs)) @ seps rank [(fst (cs ! m), Nd q ((j, snd (cs ! m)) # drop (Suc m) cs))] = tl (seps rank cs)"
proof -
  obtain k c where kc: "cs ! m = (k, c)" by fastforce
  have d: "drop m cs = (k, c) # drop (Suc m) cs" using assms(2) kc by (metis Cons_nth_drop_Suc)
  have ne: "seps rank (take m cs) \<noteq> []" using assms by (cases cs) (auto simp: seps_nonempty)
  have "seps rank cs = seps rank (take m cs) @ seps rank (drop m cs)" by (metis append_take_drop_id seps_simps(3))
  then show ?thesis using ne d kc by simp
qed

lemma packs_two:
  fixes cs :: "('k \<times> ('k, 'v) shape) list" and j :: 'k and m :: nat
  assumes g: "good_list st h nxt cs" and m: "0 < m" "m < length cs" and p: "p \<noteq> q" "p \<notin> set (kids pids cs)" "q \<notin> set (kids pids cs)"
  defines "ds \<equiv> (j, snd (cs ! m)) # drop (Suc m) cs"
  assumes pages: "tree_pages st p = Some (InternalPage (internal_max st) (kid_entries (take m cs)))"
      "tree_pages st q = Some (InternalPage (internal_max st) (kid_entries ds))"
  shows "packs rank st h nxt p {p, q} cs (Nd p (take m cs)) [(fst (cs ! m), Nd q ds)]"
proof -
  obtain us k c vs where c: "cs = us @ (k, c) # vs" "take m cs = us" "cs ! m = (k, c)" "us \<noteq> []" "ds = (j, c) # vs"
  proof (rule that [of "take m cs" "fst (cs ! m)" "snd (cs ! m)" "drop (Suc m) cs"])
    show "cs = take m cs @ (fst (cs ! m), snd (cs ! m)) # drop (Suc m) cs" using m(2) by (simp add: id_take_nth_drop)
  qed (use m in \<open>auto simp: ds_def\<close>)
  have g': "good_list st h (first_of (kids leaf_pids ds) nxt) us" "good_list st h nxt ds"
    "set (kids pids us) \<inter> set (kids pids ds) = {}" using g by (simp_all add: c)
  have q: "p \<notin> set (kids pids us)" "p \<notin> set (kids pids ds)" "q \<notin> set (kids pids us)" "q \<notin> set (kids pids ds)"
    using p by (simp_all add: c)
  have "good st (Suc h) (first_of (kids leaf_pids ds) nxt) (Nd p us)" "good st (Suc h) nxt (Nd q ds)"
    using g' q c(4,5) pages unfolding c(2) by (simp_all add: good_Nd)
  moreover have "set (pids (Nd p us)) \<inter> set (pids (Nd q ds)) = {}" using g'(3) q p(1) by auto
  moreover have "spine rank (Nd p us) @ seps rank [(k, Nd q ds)] = tl (seps rank cs)"
    using seps_divide [OF m, of rank q j] by (simp only: shape_Nd c(2,3) ds_def fst_conv)
  moreover have "set (pids (Nd p us)) \<union> set (pids (Nd q ds)) = {p, q} \<union> set (kids pids cs)" by (auto simp: c(1,5))
  ultimately show ?thesis unfolding packs_def c(2,3) by (simp del: seps_simps add: c(1,5))
qed

lemma replaces_node:
  fixes A B :: "('r::linorder \<times> bool) list"
  assumes "sorted_wrt (<) (A @ tl (seps rank cs') @ B)" and "hd (kids leaf_pids cs') = hd (kids leaf_pids cs)"
    and "evolves st st' (set (pids (Nd p cs))) (P \<union> set (kids pids cs'))" and k: "packs rank st' h nxt p P cs' c rs"
  shows "replaces rank A B (Suc h) nxt {} st st' (Nd p cs) [] c rs"
proof -
  have "leaf_pids c \<noteq> []" using k good_leaves by (auto simp: packs_def)
  then have "hd (leaf_pids c) = hd (kids leaf_pids cs)" using assms(2) k by (metis hd_append2 packs_def)
  moreover have "A @ spine rank c @ seps rank rs @ B = A @ tl (seps rank cs') @ B" using k by (simp add: packs_def)
  then have "sorted_wrt (<) (A @ spine rank c @ seps rank rs @ B)" using assms(1) by metis
  ultimately show ?thesis using assms(3) k by (simp add: replaces_def packs_def)
qed

lemma grown_node:
  fixes A B :: "('r::linorder \<times> bool) list"
  assumes "sorted_wrt (<) (A @ tl (seps rank cs') @ B)"
    and e1: "evolves st st1 (set (kids pids cs)) (set (kids pids cs'))"
    and "hd (kids leaf_pids cs') = hd (kids leaf_pids cs)"
    and "\<exists>us vs. kids flat cs = us @ vs \<and> kids flat cs' = us @ (key, v) # vs"
    and e2: "evolves st1 st2 {p} P" and p: "p \<in> P" "p \<notin> set (kids pids cs')" and k: "packs rank st2 h nxt p P cs' c rs"
  shows "grown rank key v A B (Suc h) nxt (Nd p cs) st st2 c rs"
proof -
  have "evolves st st2 (set (kids pids cs) \<union> {p}) (set (kids pids cs') \<union> P)"
    using p by (intro evolves_trans [OF e1 e2]) auto
  then have "evolves st st2 (set (pids (Nd p cs))) (P \<union> set (kids pids cs'))" by (simp add: Un_ac)
  then have "replaces rank A B (Suc h) nxt {} st st2 (Nd p cs) [] c rs" by (rule replaces_node [OF assms(1,3) _ k])
  then show ?thesis using assms(4) k by (auto simp: grown_def packs_def)
qed

end
