(* ===== verification/BPlusInsert.thy ===== *)
theory BPlusInsert
  imports BPlusSplit
begin

text \<open>
  Insertion.  The recursive insertion replaces a subtree by one or two subtrees (\<open>grown\<close>); splits keep
  the pages half full, chain the new leaf and leave the separators between the keys they separate.
  The optimistic path gives what the pessimistic one gives, and a root split puts a new root on top.
\<close>

section \<open>The recursive insertion\<close>

text \<open>What an insertion reports: the entry was absorbed, or the caller has to link a second page.\<close>

definition insert_outcome :: "nat \<Rightarrow> nat \<Rightarrow> bool \<Rightarrow> nat \<Rightarrow> ('k, 'v) shape \<Rightarrow> ('k \<times> ('k, 'v) shape) list \<Rightarrow> write_set \<Rightarrow>
    'k insert_result \<Rightarrow> write_set \<Rightarrow> bool" where
  "insert_outcome lmax imax is_root h c rs xs res ws \<longleftrightarrow>
     (rs = [] \<and> res = (None, True) \<and> ws = [] \<and> sized lmax imax is_root h c) \<or>
     (\<exists>k d. rs = [(k, d)] \<and> res = (Some (k, root_pid d), True) \<and> ws = xs \<and>
        sized lmax imax False h c \<and> sized lmax imax False h d)"

lemma back_page_snoc [simp]: "back_page (xs @ [Some p]) = Inr p"
  by (simp add: back_page_def)

context key_order begin

text \<open>The separator of a split leaf fits between the halves.\<close>

lemma sorted_separator:
  assumes s: "sorted_wrt (<) (A @ map (\<lambda>(k, v). (rank k, True)) (us @ [e]) @ map (\<lambda>(k, v). (rank k, True)) (w # vs) @ B)"
  shows "sorted_wrt (<) (A @ map (\<lambda>(k, v). (rank k, True)) (us @ [e]) @ (rank (fst w), False) # map (\<lambda>(k, v). (rank k, True)) (w # vs) @ B)"
proof -
  define P where "P = A @ map (\<lambda>(k, v). (rank k, True)) us"
  define Q where "Q = map (\<lambda>(k, v). (rank k, True)) vs @ B"
  have s': "sorted_wrt (<) (P @ (rank (fst e), True) # (rank (fst w), True) # Q)"
    using s by (simp add: P_def Q_def case_prod_beta)
  have ew: "(rank (fst e), True) < (rank (fst w), False)" using s' by (auto simp: sorted_wrt_append less_prod_def)
  have "\<forall>x \<in> set P. x < (rank (fst e), True)" using s' by (simp add: sorted_wrt_append)
  then have P: "\<forall>x \<in> set P. x < (rank (fst w), False)" using ew by (meson less_trans)
  have w: "(rank (fst w), False) < (rank (fst w), True)" by (simp add: less_prod_def)
  have "\<forall>x \<in> set Q. (rank (fst w), True) < x" using s' by (simp add: sorted_wrt_append)
  then have Q: "\<forall>x \<in> set Q. (rank (fst w), False) < x" using w by (meson less_trans)
  have "between (P @ [(rank (fst e), True)]) (rank (fst w), False) ((rank (fst w), True) # Q)"
    using P Q ew w unfolding between_def by auto
  then have "sorted_wrt (<) ((P @ [(rank (fst e), True)]) @ (rank (fst w), False) # (rank (fst w), True) # Q)"
    using sorted_insert [of "P @ [(rank (fst e), True)]" "(rank (fst w), True) # Q" "(rank (fst w), False)"] s' by simp
  then show ?thesis by (simp add: P_def Q_def case_prod_beta)
qed

lemma sorted_divide:
  assumes "sorted_wrt (<) (A @ map (\<lambda>(k, v). (rank k, True)) es @ B)" and "0 < m" and "m < length es"
  shows "sorted_wrt (<) (A @ map (\<lambda>(k, v). (rank k, True)) (take m es) @ (rank (fst (es ! m)), False) # map (\<lambda>(k, v). (rank k, True)) (drop m es) @ B)"
proof -
  have "take m es \<noteq> []" using assms(2,3) by auto
  then obtain us e where u: "take m es = us @ [e]" by (metis append_butlast_last_id)
  have d: "drop m es = es ! m # drop (Suc m) es" using assms(3) by (metis Cons_nth_drop_Suc)
  have "es = (us @ [e]) @ es ! m # drop (Suc m) es" by (metis append_take_drop_id u d)
  then have "map (\<lambda>(k, v). (rank k, True)) es = map (\<lambda>(k, v). (rank k, True)) (us @ [e]) @ map (\<lambda>(k, v). (rank k, True)) (es ! m # drop (Suc m) es)"
    by (metis map_append)
  then show ?thesis unfolding u d using assms(1) by (intro sorted_separator) simp
qed

lemma recursive_insert_leaf_correct:
  fixes t :: "('k, 'v) shape"
  assumes g: "good st 0 nxt t" and a: "alloc_ok st" and z: "sized (leaf_max st) (internal_max st) rt 0 t"
    and s: "sorted_wrt (<) (A @ spine rank t @ B)" and b: "between A (rank key, True) B"
    and l: "lookup_entry rank (flat t) key = None" and two: "2 \<le> leaf_max st"
  shows "\<exists>res ws st' c rs. recursive_insert_leaf cmp key v (xs @ [Some (root_pid t)]) st = Inr (res, ws, st') \<and>
    grown rank key v A B 0 nxt t st st' c rs \<and> insert_outcome (leaf_max st) (internal_max st) rt 0 c rs xs res ws"
proof -
  let ?T = "map (\<lambda>(k :: 'k, v :: 'v). (rank k, True))"
  obtain p es where t: "t = Lf p es" using g by (auto simp: good_def)
  have pg: "tree_pages st p = Some (LeafPage (leaf_max st) nxt es)"
    using g by (auto simp: good_def t next_of_def)
  have z': "(if rt then 1 else leaf_max st div 2) \<le> length es" "length es \<le> leaf_max st" using z by (simp_all add: t)
  have so: "sorted_wrt entry_less es" using s by (simp add: t sorted_wrt_append sorted_leaf)
  have neq: "\<And>e. e \<in> set es \<Longrightarrow> rank (fst e) \<noteq> rank key" using lookup_NoneD [of rank es key] l by (simp add: t)
  obtain us vs where u: "es = us @ vs" "bisect_right cmp es key 0 = length us"
    "\<And>e. e \<in> set us \<Longrightarrow> rank (fst e) \<le> rank key" "\<And>e. e \<in> set vs \<Longrightarrow> rank key < rank (fst e)"
    by (rule bisect_entries [OF so, of key]) blast
  define es' where "es' = insert_at (bisect_right cmp es key 0) (key, v) es"
  have es': "es' = us @ (key, v) # vs" by (simp add: es'_def u(2)) (simp add: u(1))
  have "rank (fst e) < rank key" if "e \<in> set us" for e using u(3) [OF that] neq [of e] that u(1) by simp
  then have "between (?T us) (rank key, True) []" by (auto simp: between_def less_prod_def)
  moreover have "between [] (rank key, True) (?T vs)" using u(4) by (auto simp: between_def less_prod_def)
  ultimately have "between (A @ ?T us) (rank key, True) (?T vs @ B)" using b by (intro between_extend)
  then have s': "sorted_wrt (<) (A @ ?T es' @ B)"
    using sorted_insert [of "A @ ?T us" "?T vs @ B" "(rank key, True)"] s by (simp add: t u(1) es')
  have in': "\<exists>us vs. flat t = us @ vs \<and> es' = us @ (key, v) # vs" using es' u(1) by (auto simp: t)
  have nc: "\<not> contains_key cmp es key (- 1)" using contains_key_leaf [OF so, of key] l by (simp add: t)
  have dom: "p \<in> dom (tree_pages st)" using pg by auto
  show ?thesis
  proof (cases "length es < leaf_max st")
    case True
    let ?st = "write_node p (LeafPage (leaf_max st) nxt es') st"
    have "recursive_insert_leaf cmp key v (xs @ [Some p]) st = Inr ((None, True), [], ?st)"
      using True pg nc by (simp add: recursive_insert_leaf_def read_node_def leaf_insert_at_def es'_def Let_def)
    moreover have "evolves st ?st {p} {p}" using a dom by (intro evolves_write evolves_refl) auto
    then have "grown rank key v A B 0 nxt t st ?st (Lf p es') []"
      using s' in' by (simp add: grown_defs good_def t next_of_def)
    moreover have "insert_outcome (leaf_max st) (internal_max st) rt 0 (Lf p es') [] xs (None, True) []"
      using z' True by (auto simp: insert_outcome_def es' u(1))
    ultimately show ?thesis unfolding t root_pid.simps by blast
  next
    case False
    then have full: "length es = leaf_max st" using z' by simp
    obtain q st1 where q: "alloc_page st = (q, st1)" by fastforce
    obtain m where m: "leaf_max st div 2 \<le> m" "m \<le> Suc (leaf_max st div 2)"
      "leaf_insert_after_split cmp key v (LeafPage (leaf_max st) (Some q) (take (leaf_max st div 2) es))
         (LeafPage (leaf_max st) nxt (drop (leaf_max st div 2) es)) =
       Inr (LeafPage (leaf_max st) (Some q) (take m es'), LeafPage (leaf_max st) nxt (drop m es'))"
      using leaf_insert_after_split_eq [OF so full two neq, of v "Some q" nxt] unfolding es'_def by blast
    have len: "length es' = Suc (leaf_max st)" using full by (simp add: es' u(1))
    have m': "0 < m" "m < length es'" using m(1,2) two len by linarith+
    let ?st = "write_node q (LeafPage (leaf_max st) nxt (drop m es')) (write_node p (LeafPage (leaf_max st) (Some q) (take m es')) st1)"
    let ?d = "Lf q (drop m es')"
    obtain k w where kw: "es' ! m = (k, w)" by fastforce
    note ev = evolves_write_two [OF a dom q]
    have pq: "p \<noteq> q" using ev(2) dom by auto
    have "entry_at (drop m es') 0 = Inr (k, w)" using m' kw by (simp add: entry_at_def)
    then have "recursive_insert_leaf cmp key v (xs @ [Some p]) st = Inr ((Some (k, q), True), xs, ?st)"
      using full pg nc q m(3) by (simp add: recursive_insert_leaf_def read_node_def leaf_split_def leaf_init_def Let_def)
    moreover have "grown rank key v A B 0 nxt t st ?st (Lf p (take m es')) [(k, ?d)]"
      using pq ev(1) in' sorted_divide [OF s' m'] kw alloc_page_same [OF q]
      by (auto simp: grown_defs good_def t next_of_def same_params_def insert_commute)
    moreover have "insert_outcome (leaf_max st) (internal_max st) rt 0 (Lf p (take m es')) [(k, ?d)] xs (Some (k, q), True) xs"
      using m(1,2) len two by (auto simp: insert_outcome_def)
    ultimately show ?thesis unfolding t root_pid.simps by blast
  qed
qed


lemma bisect_new_child:
  fixes us vs :: "('k \<times> 'a) list"
  assumes s: "sorted_wrt entry_less (tl (us @ (nk, x) # vs))" and ne: "us \<noteq> []"
  shows "sorted_wrt entry_less (tl (us @ vs))" and "bisect_right cmp (us @ vs) nk 1 = length us"
    and "\<And>e. e \<in> set (tl (us @ vs)) \<Longrightarrow> rank (fst e) \<noteq> rank nk"
proof -
  obtain u us' where u: "us = u # us'" using ne by (cases us) auto
  have lt: "\<And>e. e \<in> set us' \<Longrightarrow> rank (fst e) < rank nk" "\<And>e. e \<in> set vs \<Longrightarrow> rank nk < rank (fst e)"
    using s by (auto simp: u sorted_wrt_append)
  show so: "sorted_wrt entry_less (tl (us @ vs))" using s by (auto simp: u sorted_wrt_append)
  show "\<And>e. e \<in> set (tl (us @ vs)) \<Longrightarrow> rank (fst e) \<noteq> rank nk" using lt by (fastforce simp: u)
  show "bisect_right cmp (us @ vs) nk 1 = length us"
  proof (rule bisect_right_eqI)
    show "sorted_wrt entry_less (drop 1 (us @ vs))" using so by (simp add: u)
    show "rank (fst ((us @ vs) ! i)) \<le> rank nk" if "1 \<le> i" "i < length us" for i
      using that lt(1) [of "us' ! (i - 1)"] by (cases i) (auto simp: u nth_append order_less_imp_le)
    show "rank nk < rank (fst ((us @ vs) ! i))" if "length us \<le> i" "i < length (us @ vs)" for i
      using that by (intro lt(2)) (simp add: nth_append)
  qed (simp_all add: u)
qed

lemma insert_separator_correct:
  fixes st :: "('k, 'v) btree"
  assumes g: "good_list st h nxt cs" and a: "alloc_ok st"
    and pg: "tree_pages st p = Some (InternalPage (internal_max st) (us @ vs))"
    and ent: "kid_entries cs = us @ (nk, np) # vs" and ne: "us \<noteq> []" and p: "p \<notin> set (kids pids cs)"
    and so: "sorted_wrt entry_less (tl (kid_entries cs))"
    and z: "\<forall>c \<in> set cs. sized (leaf_max st) (internal_max st) False h (snd c)"
    and n: "(if rt then 2 else internal_max st div 2) \<le> length (us @ vs)" "length (us @ vs) \<le> internal_max st" "2 \<le> internal_max st"
    and zs: "zs = xs \<or> length (us @ vs) < internal_max st"
  shows "\<exists>res ws st' c rs P. insert_separator cmp nk np True p (zs @ [Some p]) st = Inr (res, ws, st') \<and>
    p \<in> P \<and> evolves st st' {p} P \<and> packs rank st' h nxt p P cs c rs \<and>
    insert_outcome (leaf_max st) (internal_max st) rt (Suc h) c rs xs res ws"
proof -
  have bs: "bisect_right cmp (us @ vs) nk 1 = length us" "sorted_wrt entry_less (tl (us @ vs))"
    "\<And>e. e \<in> set (tl (us @ vs)) \<Longrightarrow> rank (fst e) \<noteq> rank nk"
    using bisect_new_child [OF so [unfolded ent] ne] by auto
  have ins: "insert_at (bisect_right cmp (us @ vs) nk 1) (nk, np) (us @ vs) = kid_entries cs" unfolding bs(1) ent by simp
  have len: "length cs = Suc (length (us @ vs))" using arg_cong [OF ent, of length] by simp
  have dom: "p \<in> dom (tree_pages st)" using pg by auto
  have gd: "set (kids pids cs) \<subseteq> dom (tree_pages st)" by (rule good_list_dom [OF g])
  show ?thesis
  proof (cases "length (us @ vs) < internal_max st")
    case True
    let ?st = "write_node p (InternalPage (internal_max st) (kid_entries cs)) st"
    have "insert_separator cmp nk np True p (zs @ [Some p]) st = Inr ((None, True), [], ?st)"
      using True pg bs(1) by (simp add: insert_separator_def read_node_def internal_insert_def internal_insert_at_def ent)
    moreover have ev: "evolves st ?st {p} {p}" using a dom by (intro evolves_write evolves_refl) auto
    moreover have "good_list ?st h nxt cs" using p by (intro good_list_frame [OF g ev]) auto
    then have "packs rank ?st h nxt p {p} cs (Nd p cs) []" using p len by (intro packs_one) auto
    moreover have "insert_outcome (leaf_max st) (internal_max st) rt (Suc h) (Nd p cs) [] xs (None, True) []"
      using z n True len by (auto simp: insert_outcome_def)
    ultimately show ?thesis by blast
  next
    case False
    then have full: "length (us @ vs) = internal_max st" using n by simp
    obtain q st1 where q: "alloc_page st = (q, st1)" by fastforce
    let ?h = "internal_max st div 2"
    obtain m where m: "?h \<le> m" "m \<le> Suc ?h"
      "internal_insert_after_split cmp nk np (InternalPage (internal_max st) (take ?h (us @ vs)) :: ('k, 'v) bpage)
         (InternalPage (internal_max st) (drop ?h (us @ vs))) =
       Inr (InternalPage (internal_max st) (take m (kid_entries cs)), InternalPage (internal_max st) (drop m (kid_entries cs)))"
      using internal_insert_after_split_eq [OF bs(2) full n(3) bs(3), of np, unfolded ins] by blast
    have m': "0 < m" "m < length cs" using m(1,2) n(3) len full by linarith+
    let ?st = "write_node q (InternalPage (internal_max st) (kid_entries (drop m cs)))
      (write_node p (InternalPage (internal_max st) (kid_entries (take m cs))) st1)"
    note ev = evolves_write_two [OF a dom q]
    have pq: "p \<noteq> q" "q \<notin> set (kids pids cs)" using ev(2) dom gd by auto
    obtain k d where kd: "cs ! m = (k, d)" by fastforce
    have "entry_at (drop m (kid_entries cs)) 0 = Inr (k, root_pid d)" using m' kd by (simp add: entry_at_def)
    moreover have "zs = xs" using zs full by simp
    ultimately have "insert_separator cmp nk np True p (zs @ [Some p]) st = Inr ((Some (k, q), True), xs, ?st)"
      using full pg q m(3) by (simp add: insert_separator_def read_node_def internal_split_def internal_init_def take_map drop_map Let_def)
    moreover have dr: "(fst (cs ! m), snd (cs ! m)) # drop (Suc m) cs = drop m cs" using m'(2) by (metis Cons_nth_drop_Suc prod.collapse)
    have "good_list ?st h nxt cs" using p by (intro good_list_frame [OF g ev(1)]) auto
    then have "packs rank ?st h nxt p {p, q} cs (Nd p (take m cs)) [(fst (cs ! m), Nd q (drop m cs))]"
      using m' pq p alloc_page_same [OF q]
      by (intro packs_two [where j = "fst (cs ! m)" and cs = cs and m = m, unfolded dr]) (auto simp: same_params_def)
    moreover have "insert_outcome (leaf_max st) (internal_max st) rt (Suc h) (Nd p (take m cs)) [(k, Nd q (drop m cs))] xs (Some (k, q), True) xs"
      using z m(1,2) n(3) len full by (auto simp: insert_outcome_def dest: in_set_takeD in_set_dropD)
    ultimately show ?thesis using ev(1) kd by (metis fst_conv insertI1)
  qed
qed


lemma recursive_insert_correct:
  fixes t :: "('k, 'v) shape" and st :: "('k, 'v) btree"
  assumes a: "alloc_ok st" and two: "2 \<le> leaf_max st" "2 \<le> internal_max st"
    and "good st h nxt t" and "sized (leaf_max st) (internal_max st) rt h t"
    and "sorted_wrt (<) (A @ spine rank t @ B)" and "between A (rank key, True) B" and "lookup_entry rank (flat t) key = None"
  shows "\<exists>res ws st' c rs. recursive_insert cmp key v (xs @ [Some (root_pid t)]) st = Some (Inr (res, ws, st')) \<and>
    grown rank key v A B h nxt t st st' c rs \<and> insert_outcome (leaf_max st) (internal_max st) rt h c rs xs res ws"
  using assms(4-)
proof (induction h arbitrary: t nxt A B rt xs)
  case 0
  then obtain p es where t: "t = Lf p es" by (auto simp: good_def)
  then obtain nx where "tree_pages st p = Some (LeafPage (leaf_max st) nx es)" using 0 by (auto simp: good_def)
  then have "recursive_insert cmp key v (xs @ [Some (root_pid t)]) st = Some (recursive_insert_leaf cmp key v (xs @ [Some (root_pid t)]) st)"
    by (subst recursive_insert.simps) (simp add: read_node_def t)
  then show ?case using recursive_insert_leaf_correct [OF "0.prems"(1) a "0.prems"(2-5) two(1), of v xs] by fastforce
next
  case (Suc h)
  obtain p cs where t: "t = Nd p cs" using Suc.prems(1) by (auto simp: good_def)
  have pg: "tree_pages st p = Some (InternalPage (internal_max st) (kid_entries cs))" "p \<notin> set (kids pids cs)" "cs \<noteq> []" "good_list st h nxt cs"
    using Suc.prems(1) unfolding t good_Nd by auto
  obtain us k d ys where c: "cs = us @ (k, d) # ys" "bisect_right cmp (kid_entries cs) key 1 = Suc (length us)"
    "sorted_wrt (<) ((A @ lead rank us k) @ spine rank d @ (seps rank ys @ B))"
    "between (A @ lead rank us k) (rank key, True) (seps rank ys @ B)"
    using select_child [of A p cs B key] Suc.prems pg(3) t by metis
  define zs where "zs = (if length cs < internal_max st then [] else xs)"
  have rel: "release_above (InternalPage (internal_max st) (kid_entries cs) :: ('k, 'v) bpage) (xs @ [Some p]) = zs @ [Some p]"
    by (simp add: release_above_def zs_def)
  have gd: "good st h (first_of (kids leaf_pids ys) nxt) d" using pg(4) c(1) by simp
  have z: "(if rt then 2 else internal_max st div 2) \<le> length cs" "length cs \<le> internal_max st"
    "\<forall>x \<in> set cs. sized (leaf_max st) (internal_max st) False h (snd x)" using Suc.prems(2) by (simp_all add: t)
  have ld: "lookup_entry rank (flat d) key = None" using Suc.prems(5) unfolding lookup_None_iff by (simp add: t c(1))
  obtain res ws st1 e rs where ih: "recursive_insert cmp key v ((zs @ [Some p]) @ [Some (root_pid d)]) st = Some (Inr (res, ws, st1))"
    "grown rank key v (A @ lead rank us k) (seps rank ys @ B) h (first_of (kids leaf_pids ys) nxt) d st st1 e rs"
    "insert_outcome (leaf_max st) (internal_max st) False h e rs (zs @ [Some p]) res ws"
    using Suc.IH [OF gd _ c(3,4) ld, of False "zs @ [Some p]"] z(3) c(1) by auto
  define cs' where "cs' = us @ (k, e) # rs @ ys"
  note gk = grown_kids [OF pg(4) [unfolded c(1)] ih(2), folded c(1) cs'_def]
  have params: "leaf_max st1 = leaf_max st" "internal_max st1 = internal_max st" "alloc_ok st1"
    using evolves_params [OF gk(3)] by (simp_all add: same_params_def)
  have dom: "p \<in> dom (tree_pages st)" using pg(1) by auto
  have p1: "tree_pages st1 p = Some (InternalPage (internal_max st1) (kid_entries cs))" "p \<notin> set (kids pids cs')"
    using evolves_same [OF gk(3) dom pg(2)] pg(1,2) dom gk(3) params by (auto simp: evolves_def)
  have root: "root_pid e = root_pid d" using ih(2) by (simp add: grown_defs)
  have step: "recursive_insert cmp key v (xs @ [Some (root_pid t)]) st =
    Some (case res of (None, ins) \<Rightarrow> Inr ((None, ins), ws, st1) | (Some (nk, np), ins) \<Rightarrow> insert_separator cmp nk np ins p ws st1)"
    using pg(1) child_for_selected [OF c(1,2)] ih(1) rel
    by (subst recursive_insert.simps) (simp add: read_node_def t split: prod.splits option.splits)
  consider "rs = []" "res = (None, True)" "ws = []" "sized (leaf_max st) (internal_max st) False h e"
    | nk f where "rs = [(nk, f)]" "res = (Some (nk, root_pid f), True)" "ws = zs @ [Some p]"
      "sized (leaf_max st) (internal_max st) False h e" "sized (leaf_max st) (internal_max st) False h f"
    using ih(3) by (auto simp: insert_outcome_def)
  then show ?case
  proof cases
    case 1
    have "kid_entries cs' = kid_entries cs" using root 1 by (simp add: cs'_def c(1))
    then have "packs rank st1 h nxt p {p} cs' (Nd p cs') []" using gk(1) p1 by (intro packs_one) (auto simp: cs'_def)
    moreover have "evolves st1 st1 {p} {p}" using params p1(1) by (intro evolves_refl) auto
    ultimately have "grown rank key v A B (Suc h) nxt t st st1 (Nd p cs') []"
      unfolding t using p1(2) by (intro grown_node [OF gk(2-5)]) auto
    moreover have "insert_outcome (leaf_max st) (internal_max st) rt (Suc h) (Nd p cs') [] xs (None, True) []"
      using z 1 by (auto simp: insert_outcome_def cs'_def c(1))
    ultimately show ?thesis using step 1 by auto
  next
    case 2
    let ?us = "kid_entries us @ [(k, root_pid d)]"
    have ent: "kid_entries cs = ?us @ kid_entries ys" "kid_entries cs' = ?us @ (nk, root_pid f) # kid_entries ys"
      using root 2 by (simp_all add: cs'_def c(1))
    have so: "sorted_wrt entry_less (tl (kid_entries cs'))"
      using gk(2) by (intro sorted_kid_entries sorted_kids) (simp add: sorted_wrt_append)
    have len: "length (?us @ kid_entries ys) = length cs" by (simp add: c(1))
    have z': "\<forall>x \<in> set cs'. sized (leaf_max st1) (internal_max st1) False h (snd x)"
      using z(3) 2 unfolding params by (auto simp: cs'_def c(1))
    have n': "(if rt then 2 else internal_max st1 div 2) \<le> length (?us @ kid_entries ys)" "length (?us @ kid_entries ys) \<le> internal_max st1"
      "2 \<le> internal_max st1" "zs = xs \<or> length (?us @ kid_entries ys) < internal_max st1"
      using z(1,2) two unfolding params len by (auto simp: zs_def)
    obtain res' ws' st2 c' rs' P where sep: "insert_separator cmp nk (root_pid f) True p (zs @ [Some p]) st1 = Inr (res', ws', st2)"
      "p \<in> P" "evolves st1 st2 {p} P" "packs rank st2 h nxt p P cs' c' rs'"
      "insert_outcome (leaf_max st1) (internal_max st1) rt (Suc h) c' rs' xs res' ws'"
      using insert_separator_correct [OF gk(1) params(3) p1(1) [unfolded ent(1)] ent(2) _ p1(2) so z' n'] by auto
    then have "grown rank key v A B (Suc h) nxt t st st2 c' rs'"
      unfolding t using p1(2) by (intro grown_node [OF gk(2-5)]) auto
    then show ?thesis using step 2 sep(1,5) params by auto
  qed
qed


text \<open>A key that is there is refused, whatever path the insertion takes.\<close>

lemma recursive_insert_duplicate:
  fixes t :: "('k, 'v) shape" and st :: "('k, 'v) btree"
  assumes "good st h nxt t" and "sorted_wrt (<) (A @ spine rank t @ B)" and "between A (rank key, True) B"
    and "lookup_entry rank (flat t) key \<noteq> None"
  shows "recursive_insert cmp key v (xs @ [Some (root_pid t)]) st = Some (Inr ((None, False), [], st))"
  using assms
proof (induction h arbitrary: t nxt A B xs)
  case 0
  then obtain p es where t: "t = Lf p es" by (auto simp: good_def)
  then obtain nx where pg: "tree_pages st p = Some (LeafPage (leaf_max st) nx es)" using 0 by (auto simp: good_def)
  have so: "sorted_wrt entry_less es" using 0 by (simp add: t sorted_wrt_append sorted_leaf)
  have "contains_key cmp es key (- 1)" using contains_key_leaf [OF so, of key] 0 by (simp add: t)
  then show ?case using pg by (subst recursive_insert.simps) (simp add: read_node_def t recursive_insert_leaf_def)
next
  case (Suc h)
  obtain p cs where t: "t = Nd p cs" using Suc.prems(1) by (auto simp: good_def)
  have pg: "tree_pages st p = Some (InternalPage (internal_max st) (kid_entries cs))" "cs \<noteq> []" "good_list st h nxt cs"
    using Suc.prems(1) unfolding t good_Nd by auto
  obtain us k d ys where c: "cs = us @ (k, d) # ys" "bisect_right cmp (kid_entries cs) key 1 = Suc (length us)"
    "sorted_wrt (<) ((A @ lead rank us k) @ spine rank d @ (seps rank ys @ B))"
    "between (A @ lead rank us k) (rank key, True) (seps rank ys @ B)"
    using select_child [of A p cs B key] Suc.prems pg(2) t by metis
  have gd: "good st h (first_of (kids leaf_pids ys) nxt) d" using pg(3) c(1) by simp
  have "e \<in> set (kids flat us) \<Longrightarrow> rank (fst e) \<noteq> rank key" "e \<in> set (kids flat ys) \<Longrightarrow> rank (fst e) \<noteq> rank key" for e
    using before_kids [of us k key e] after_kids [of key ys e] between_parts [OF c(4)] by auto
  then have ld: "lookup_entry rank (flat d) key \<noteq> None" using Suc.prems(4) unfolding lookup_None_iff by (auto simp: t c(1))
  show ?case using pg(1) child_for_selected [OF c(1,2)] Suc.IH [OF gd c(3,4) ld]
    by (subst recursive_insert.simps) (simp add: read_node_def t)
qed

text \<open>The optimistic path, where it applies, gives what the pessimistic one gives.\<close>

lemma optimistic_agrees:
  fixes t :: "('k, 'v) shape" and st :: "('k, 'v) btree"
  assumes "good st h nxt t" and "find_leaf cmp key st (root_pid t) = Some (Inr p)"
    and "tree_pages st p = Some leaf" and "page_size leaf < max_size leaf"
  shows "recursive_insert cmp key v (xs @ [Some (root_pid t)]) st = Some (recursive_insert_leaf cmp key v [Some p] st)"
  using assms
proof (induction h arbitrary: t nxt xs)
  case 0
  then obtain q es where t: "t = Lf q es" by (auto simp: good_def)
  then obtain nx where pg: "tree_pages st q = Some (LeafPage (leaf_max st) nx es)" using 0 by (auto simp: good_def)
  then have "q = p" using "0.prems"(2) by (subst (asm) find_leaf.simps) (simp add: read_node_def t)
  moreover have "recursive_insert cmp key v (xs @ [Some q]) st = Some (recursive_insert_leaf cmp key v (xs @ [Some q]) st)"
    using pg by (subst recursive_insert.simps) (simp add: read_node_def)
  moreover have "recursive_insert_leaf cmp key v (xs @ [Some p]) st = recursive_insert_leaf cmp key v ([] @ [Some p]) st"
    using "0.prems"(3,4) by (simp only: recursive_insert_leaf_def back_page_snoc) (simp add: read_node_def Let_def)
  ultimately show ?case by (simp add: t)
next
  case (Suc h)
  obtain q cs where t: "t = Nd q cs" using Suc.prems(1) by (auto simp: good_def)
  have pg: "tree_pages st q = Some (InternalPage (internal_max st) (kid_entries cs))" "good_list st h nxt cs"
    using Suc.prems(1) unfolding t good_Nd by auto
  have f: "find_leaf cmp key st q = (case child_for cmp key (kid_entries cs) of Inl e \<Rightarrow> Some (Inl e) | Inr c \<Rightarrow> find_leaf cmp key st c)"
    using pg(1) by (subst find_leaf.simps) (simp add: read_node_def)
  obtain c where c: "child_for cmp key (kid_entries cs) = Inr c" "find_leaf cmp key st c = Some (Inr p)"
    using Suc.prems(2) f by (auto simp: t split: sum.splits)
  then obtain k d where d: "(k, d) \<in> set cs" "c = root_pid d"
    by (auto simp: child_for_def entry_at_def split: if_splits prod.splits) (metis nth_mem)
  then obtain us ys where cs: "cs = us @ (k, d) # ys" by (meson split_list)
  then have gd: "good st h (first_of (kids leaf_pids ys) nxt) d" using pg(2) by simp
  note ih = Suc.IH [OF gd c(2) [unfolded d(2)] Suc.prems(3,4)]
  have "\<exists>ins st'. recursive_insert_leaf cmp key v [Some p] st = Inr ((None, ins), [], st') \<or>
      (\<exists>e. recursive_insert_leaf cmp key v [Some p] st = Inl e)"
    using Suc.prems(3,4) by (auto simp: recursive_insert_leaf_def back_page_def read_node_def Let_def split: sum.splits)
  then show ?case using pg(1) c(1) d(2) ih
    by (subst recursive_insert.simps) (auto simp: read_node_def t)
qed

lemma optimistic_insert:
  fixes st :: "('k, 'v) btree"
  assumes "root_page st = Some (root_pid t)" and "good st h nxt t" and "sorted_wrt (<) (spine rank t)"
  shows "btree_insert cmp key v st =
    Option.bind (recursive_insert cmp key v [None, Some (root_pid t)] st) (\<lambda>res.
      case res of
        Inl e \<Rightarrow> Some (Inl e)
      | Inr ((None, ins), ws, st') \<Rightarrow> Some (Inr (ins, st'))
      | Inr ((Some (k, np), ins), ws, st') \<Rightarrow>
          if \<not> ins then Some (Inr (False, st'))
          else (case insert_new_root ws (root_pid t) k np st' of Inl e \<Rightarrow> Some (Inl e) | Inr st'' \<Rightarrow> Some (Inr (True, st''))))"
proof -
  obtain p nx es where p: "find_leaf cmp key st (root_pid t) = Some (Inr p)" "tree_pages st p = Some (LeafPage (leaf_max st) nx es)"
    using find_leaf_correct [of st h nxt t "[]" "[]" key] assms by (auto simp: between_def)
  show ?thesis
  proof (cases "length es < leaf_max st")
    case True
    have o: "recursive_insert cmp key v [None, Some (root_pid t)] st = Some (recursive_insert_leaf cmp key v [Some p] st)"
      using optimistic_agrees [OF assms(2) p, of v "[None]"] True by simp
    have "\<exists>ins st'. recursive_insert_leaf cmp key v [Some p] st = Inr ((None, ins), [], st')"
      using p(2) True by (auto simp: recursive_insert_leaf_def back_page_def read_node_def leaf_insert_at_def Let_def)
    then show ?thesis unfolding o using assms(1) p True
      by (auto simp: btree_insert_def try_optimistic_insert_def read_node_def)
  next
    case False
    then show ?thesis using assms(1) p by (simp add: btree_insert_def try_optimistic_insert_def read_node_def)
  qed
qed


text \<open>A whole tree: what the recursion gives for the root, and the new root above a split one.\<close>

lemma btree_insert_present:
  fixes st :: "('k, 'v) btree"
  assumes "btree_rep rank st es" and "lookup_entry rank es key \<noteq> None"
  shows "btree_insert cmp key v st = Some (Inr (False, st))"
proof -
  obtain h t where t: "root_page st = Some (root_pid t)" "flat t = es" "good st h None t" "sorted_wrt (<) (spine rank t)"
    using assms by (auto simp: btree_rep_def split: option.splits)
  have "recursive_insert cmp key v ([None] @ [Some (root_pid t)]) st = Some (Inr ((None, False), [], st))"
    using t assms(2) by (intro recursive_insert_duplicate [where A = "[]" and B = "[]"]) (auto simp: between_def)
  then show ?thesis using optimistic_insert [OF t(1,3,4), of key v] by simp
qed

lemma insert_new_root_rep:
  fixes st :: "('k, 'v) btree"
  assumes a: "alloc_ok st" and two: "2 \<le> leaf_max st" "2 \<le> internal_max st"
    and g: "good_list st h None [(stale_key st, c), (k, d)]" and s: "sorted_wrt (<) (spine rank c @ seps rank [(k, d)])"
    and z: "sized (leaf_max st) (internal_max st) False h c" "sized (leaf_max st) (internal_max st) False h d"
    and dm: "dom (tree_pages st) = set (pids c) \<union> set (pids d)"
  shows "\<exists>st'. insert_new_root [None] (root_pid c) k (root_pid d) st = Inr st' \<and> btree_rep rank st' (flat c @ flat d)"
proof -
  let ?cs = "[(stale_key st, c), (k, d)]"
  obtain q st1 where q: "alloc_page st = (q, st1)" by fastforce
  let ?pg = "InternalPage (internal_max st) (kid_entries ?cs)"
  let ?st = "write_node q ?pg st1"
  have fresh: "q \<notin> dom (tree_pages st)" by (rule alloc_page_fresh [OF q a])
  have ev: "evolves st ?st {} {q}" using evolves_alloc [OF evolves_refl [OF a empty_subsetI] q fresh] by simp
  have par: "leaf_max ?st = leaf_max st" "internal_max ?st = internal_max st" using alloc_page_same [OF q] by (simp_all add: same_params_def)
  have gl: "good_list ?st h None ?cs" by (rule good_list_frame [OF g ev]) simp
  have ndq: "q \<notin> set (kids pids ?cs)" using fresh dm by simp
  have good_root: "good (?st\<lparr>root_page := Some q\<rparr>) (Suc h) None (Nd q ?cs)"
    using gl ndq par unfolding good_Nd by (simp add: good_def good_list_def)
  have "sized (leaf_max st) (internal_max st) True (Suc h) (Nd q ?cs)" using z two by simp
  moreover have "sorted_wrt (<) (spine rank (Nd q ?cs))" using s by simp
  moreover have "dom (tree_pages ?st) = set (pids (Nd q ?cs))" using ev dm by (auto simp: evolves_def)
  moreover have "alloc_ok (?st\<lparr>root_page := Some q\<rparr>)" using ev by (simp add: evolves_def alloc_ok_def)
  ultimately have "btree_rep rank (?st\<lparr>root_page := Some q\<rparr>) (flat (Nd q ?cs))"
    using good_root two par by (intro btree_repI [where h = "Suc h"]) simp_all
  then show ?thesis using q two by (simp add: insert_new_root_def)
qed

lemma btree_insert_new:
  fixes st :: "('k, 'v) btree"
  assumes r: "btree_rep rank st es" and l: "lookup_entry rank es key = None"
  shows "\<exists>st' us vs. btree_insert cmp key v st = Some (Inr (True, st')) \<and> es = us @ vs \<and> btree_rep rank st' (us @ (key, v) # vs)"
proof (cases "root_page st")
  case None
  then have e: "tree_pages st = Map.empty" "es = []" "alloc_ok st" "2 \<le> leaf_max st" "2 \<le> internal_max st"
    using r by (simp_all add: btree_rep_def)
  obtain q st1 where q: "alloc_page st = (q, st1)" by fastforce
  let ?st = "(write_node q (LeafPage (leaf_max st) None [(key, v)]) st1)\<lparr>root_page := Some q\<rparr>"
  have "btree_insert cmp key v st = Some (Inr (True, ?st))"
    using None q e by (simp add: btree_insert_def try_optimistic_insert_def init_btree_def leaf_init_def leaf_insert_at_def)
  moreover note f = alloc_page_fresh [OF q e(3)]
  have "alloc_ok ?st" using f(4) by (simp add: alloc_ok_def)
  then have "btree_rep rank ?st [(key, v)]"
    using f(2,3) e btree_repI [of ?st "Lf q [(key, v)]" 0 rank] by (simp add: same_params_def good_def next_of_def)
  ultimately show ?thesis using e(2) by (intro exI [of _ ?st] exI [of _ "[]"]) simp
next
  case (Some p)
  then obtain h t where t: "root_page st = Some (root_pid t)" "flat t = es" "good st h None t" "sorted_wrt (<) (spine rank t)"
    "sized (leaf_max st) (internal_max st) True h t" "dom (tree_pages st) = set (pids t)"
    and a: "alloc_ok st" "2 \<le> leaf_max st" "2 \<le> internal_max st"
    using r by (auto simp: btree_rep_def)
  obtain res ws st' c rs where ins: "recursive_insert cmp key v ([None] @ [Some (root_pid t)]) st = Some (Inr (res, ws, st'))"
    "grown rank key v [] [] h None t st st' c rs" "insert_outcome (leaf_max st) (internal_max st) True h c rs [None] res ws"
    using recursive_insert_correct [OF a t(3,5), of "[]" "[]" key v "[None]"] t(2,4) l by (auto simp: between_def)
  have gr: "root_pid c = root_pid t" "good st' h (first_of (kids leaf_pids rs) None) c" "good_list st' h None rs"
    "set (pids c) \<inter> set (kids pids rs) = {}" "sorted_wrt (<) (spine rank c @ seps rank rs)"
    "evolves st st' (set (pids t)) (set (pids c) \<union> set (kids pids rs))" using ins(2) by (simp_all add: grown_defs)
  obtain us vs where f: "es = us @ vs" "flat c @ kids flat rs = us @ (key, v) # vs" using ins(2) t(2) by (auto simp: grown_defs)
  have st': "alloc_ok st'" "leaf_max st' = leaf_max st" "internal_max st' = internal_max st" "root_page st' = Some (root_pid t)"
    "dom (tree_pages st') = set (pids c) \<union> set (kids pids rs)"
    using gr(6) t(1,6) by (auto simp: evolves_def same_params_def)
  note top = optimistic_insert [OF t(1,3,4), of key v]
  consider "rs = []" "res = (None, True)" "sized (leaf_max st) (internal_max st) True h c"
    | k d where "rs = [(k, d)]" "res = (Some (k, root_pid d), True)" "ws = [None]"
      "sized (leaf_max st) (internal_max st) False h c" "sized (leaf_max st) (internal_max st) False h d"
    using ins(3) by (auto simp: insert_outcome_def)
  then show ?thesis
  proof cases
    case 1
    then have "btree_rep rank st' (flat c)" using st' a gr by (intro btree_repI [where h = h]) simp_all
    then show ?thesis using top ins(1) 1 f by auto
  next
    case 2
    have "good_list st' h None [(stale_key st', c), (k, d)]" using gr 2 by simp
    then obtain st'' where "insert_new_root [None] (root_pid c) k (root_pid d) st' = Inr st''" "btree_rep rank st'' (flat c @ flat d)"
      using insert_new_root_rep [of st' h c k d] st' a gr 2 by auto
    then show ?thesis using top ins(1) 2 f gr(1) by auto
  qed
qed

end

section \<open>Insertions in an index\<close>

text \<open>
  (C0) \<open>Insert\<close> adds a key that is not there and refuses one that is.  A duplicate leaves the tree as it
  was.  A new key ends up in its place among the entries of a tree that satisfies the invariant again:
  all leaves at one depth, pages at least half full, leaves chained in order, separators between the
  keys they separate, no page lost or shared.  Afterwards \<open>GetValue\<close> finds the new value under the key
  and under every other key what it found before.
\<close>

theorem btree_insert_stores:
  assumes "btree_rep (key_rank cs) st es"
  shows "if lookup_entry (key_rank cs) es key \<noteq> None then btree_insert (key_cmp cs) key v st = Some (Inr (False, st))
    else \<exists>st' us vs. btree_insert (key_cmp cs) key v st = Some (Inr (True, st')) \<and>
      es = us @ vs \<and> btree_rep (key_rank cs) st' (us @ (key, v) # vs) \<and>
      (\<forall>k. get_value (key_cmp cs) k st' =
        Some (Inr (if key_rank cs k = key_rank cs key then Some v else lookup_entry (key_rank cs) es k)))"
proof (cases "lookup_entry (key_rank cs) es key = None")
  case True
  obtain st' us vs where r: "btree_insert (key_cmp cs) key v st = Some (Inr (True, st'))" "es = us @ vs"
    "btree_rep (key_rank cs) st' (us @ (key, v) # vs)"
    using index_key.btree_insert_new [OF assms True] by blast
  have us: "lookup_entry (key_rank cs) us key = None" using True by (simp add: r(2) split: option.splits)
  have "get_value (key_cmp cs) k st' =
      Some (Inr (if key_rank cs k = key_rank cs key then Some v else lookup_entry (key_rank cs) es k))" for k
    using index_key.get_value_correct [OF r(3), of k] us lookup_same_rank [of "key_rank cs" k key us]
    by (auto simp: r(2) split: option.splits)
  then show ?thesis using True r by auto
next
  case False
  then show ?thesis using index_key.btree_insert_present [OF assms False, of v] by simp
qed

theorem btree_insert_stores_witness:
  "btree_insert (key_cmp demo_schema) [4] 0 demo_tree = Some (Inr (False, demo_tree)) \<and>
   (\<exists>st'. btree_insert (key_cmp demo_schema) [3] 30 demo_tree = Some (Inr (True, st')) \<and>
      get_value (key_cmp demo_schema) [3] st' = Some (Inr (Some 30)) \<and>
      get_value (key_cmp demo_schema) [4] st' = Some (Inr (Some 40)))"
proof -
  have new: "\<not> lookup_entry (key_rank demo_schema) [([1], 10), ([2], 20), ([4], 40)] [3] \<noteq> None" by simp
  obtain st' where "btree_insert (key_cmp demo_schema) [3] 30 demo_tree = Some (Inr (True, st'))"
    "\<forall>k. get_value (key_cmp demo_schema) k st' = Some (Inr (if key_rank demo_schema k = key_rank demo_schema [3]
       then Some 30 else lookup_entry (key_rank demo_schema) [([1], 10), ([2], 20), ([4], 40)] k))"
    using btree_insert_stores [OF demo_rep, of "[3]" 30, unfolded if_not_P [OF new]] by blast
  then show ?thesis using btree_insert_stores [OF demo_rep, of "[4]" 0] by simp
qed

end
