(* ===== verification/BPlusIterate.thy ===== *)
theory BPlusIterate
  imports BPlusInsert
begin

text \<open>
  Iteration and dropping the tree.  An iterator stands for the entries it has not delivered yet
  (\<open>remaining\<close>); reading and advancing it take the head and the tail of them along the chain of leaves.
  An iteration from the beginning delivers every entry in key order, one from a key the entries from
  that key on.  Dropping the tree returns every page to the allocator.
\<close>

section \<open>The chain of leaves\<close>

definition entries_of :: "('k, 'v) btree \<Rightarrow> pid \<Rightarrow> ('k \<times> 'v) list" where
  "entries_of st p = (case tree_pages st p of Some (LeafPage n nx es) \<Rightarrow> es | _ \<Rightarrow> [])"

definition chain :: "('k, 'v) btree \<Rightarrow> pid list \<Rightarrow> bool" where
  "chain st ps \<longleftrightarrow> link (tree_pages st) ps None \<and>
     (\<forall>p \<in> set ps. \<exists>n nx es. tree_pages st p = Some (LeafPage n nx es) \<and> es \<noteq> [])"

definition remaining :: "('k, 'v) btree \<Rightarrow> index_iterator \<Rightarrow> ('k \<times> 'v) list \<Rightarrow> bool" where
  "remaining st it kvs \<longleftrightarrow>
     (case it of
        None \<Rightarrow> kvs = []
      | Some (p, i) \<Rightarrow> \<exists>ps. chain st (p # ps) \<and> i < length (entries_of st p) \<and>
          kvs = drop i (entries_of st p) @ concat (map (entries_of st) ps))"

lemma kids_concat:
  "\<forall>c \<in> set cs. flat (snd c) = concat (map f (leaf_pids (snd c))) \<Longrightarrow> kids flat cs = concat (map f (kids leaf_pids cs))"
  by (induction cs) auto

lemma flat_entries:
  assumes "holds lmax imax (tree_pages st) t"
  shows "flat t = concat (map (entries_of st) (leaf_pids t))"
  using assms
proof (induction t)
  case (Nd p cs)
  have "flat t = concat (map (entries_of st) (leaf_pids t))" if "(k, t) \<in> set cs" for k t
    using that Nd.prems by (intro Nd.IH [OF that]) auto
  then have "kids flat cs = concat (map (entries_of st) (kids leaf_pids cs))" by (intro kids_concat) auto
  then show ?case by simp
qed (auto simp: entries_of_def)

lemma kids_entries: "good_list st h nxt cs \<Longrightarrow> kids flat cs = concat (map (entries_of st) (kids leaf_pids cs))"
  using flat_entries [of "leaf_max st" "internal_max st" st] by (intro kids_concat) (simp add: good_list_def)

lemma leaf_pages:
  assumes "holds lmax imax (tree_pages st) t" and "sized lmax imax rt h t" and "2 \<le> lmax" and "p \<in> set (leaf_pids t)"
  shows "\<exists>n nx es. tree_pages st p = Some (LeafPage n nx es) \<and> es \<noteq> []"
  using assms
proof (induction h arbitrary: t rt)
  case 0
  then obtain q es where t: "t = Lf q es" "(if rt then 1 else lmax div 2) \<le> length es" by auto
  then have "0 < length es" using "0.prems"(3) by (cases rt) auto
  then show ?case using 0 t by auto
next
  case (Suc h)
  then obtain q cs where t: "t = Nd q cs" "\<forall>c \<in> set cs. sized lmax imax False h (snd c)" by auto
  obtain k c where "(k, c) \<in> set cs" "p \<in> set (leaf_pids c)" using Suc.prems(4) by (auto simp: t in_kids)
  then show ?case using t Suc.prems by (intro Suc.IH [of c False]) auto
qed

lemma good_chain:
  assumes "good st h None t" and "sized (leaf_max st) (internal_max st) rt h t" and "2 \<le> leaf_max st"
  shows "chain st (leaf_pids t)"
  using assms leaf_pages by (auto simp: chain_def good_def)

lemma chain_suffix: "chain st (ps @ qs) \<Longrightarrow> chain st qs"
  by (simp add: chain_def)

section \<open>Advancing an iterator\<close>

lemma remaining_start:
  assumes "chain st (p # ps)"
  shows "iterator_at p st = Inr (Some (p, 0))" and "remaining st (Some (p, 0)) (concat (map (entries_of st) (p # ps)))"
proof -
  obtain n nx es where p: "tree_pages st p = Some (LeafPage n nx es)" "es \<noteq> []" using assms by (auto simp: chain_def)
  then show "iterator_at p st = Inr (Some (p, 0))" by (simp add: iterator_at_def read_node_def)
  show "remaining st (Some (p, 0)) (concat (map (entries_of st) (p # ps)))"
    using assms p by (auto simp: remaining_def entries_of_def)
qed

lemma remaining_step:
  assumes "remaining st (Some x) kvs"
  obtains kv kvs' it where "kvs = kv # kvs'" and "iterator_get x st = Inr kv" and "iterator_next x st = Inr it" and "remaining st it kvs'"
proof -
  obtain p i where x: "x = (p, i)" by (cases x)
  then obtain ps where c: "chain st (p # ps)" "i < length (entries_of st p)" "kvs = drop i (entries_of st p) @ concat (map (entries_of st) ps)"
    using assms by (auto simp: remaining_def)
  obtain n nx es where p: "tree_pages st p = Some (LeafPage n nx es)" using c(1) by (auto simp: chain_def)
  then have es: "entries_of st p = es" "nx = first_of ps None" using c(1) by (auto simp: entries_of_def chain_def next_of_def)
  have kvs: "kvs = es ! i # drop (Suc i) es @ concat (map (entries_of st) ps)" using c(2,3) by (simp add: es(1) Cons_nth_drop_Suc)
  have get: "iterator_get x st = Inr (es ! i)" using p c(2) by (simp add: x iterator_get_def read_node_def entry_at_def es)
  show ?thesis
  proof (cases "Suc i < length es")
    case True
    then have "iterator_next x st = Inr (Some (p, Suc i))" using p by (simp add: x iterator_next_def read_node_def)
    moreover have "remaining st (Some (p, Suc i)) (drop (Suc i) es @ concat (map (entries_of st) ps))"
      using c(1) True by (auto simp: remaining_def es(1))
    ultimately show ?thesis using that kvs get by blast
  next
    case False
    then have d: "drop (Suc i) es = []" by simp
    show ?thesis
    proof (cases ps)
      case Nil
      then have "iterator_next x st = Inr None" using p False es by (simp add: x iterator_next_def read_node_def)
      then show ?thesis using that kvs get d Nil by (simp add: remaining_def)
    next
      case (Cons q qs)
      have q: "chain st (q # qs)" using c(1) chain_suffix [of st "[p]"] Cons by simp
      have "iterator_next x st = Inr (Some (q, 0))"
        using p False es remaining_start(1) [OF q] Cons by (simp add: x iterator_next_def read_node_def)
      then show ?thesis using that [OF kvs get] remaining_start(2) [OF q] d Cons by simp
    qed
  qed
qed

lemma iterate_remaining: "remaining st it kvs \<Longrightarrow> iterate st it = Some (Inr kvs)"
proof (induction kvs arbitrary: it)
  case Nil
  then have "it = None" by (cases it) (auto elim: remaining_step)
  then show ?case by (subst iterate.simps) simp
next
  case (Cons kv kvs)
  then obtain x where x: "it = Some x" by (cases it) (auto simp: remaining_def)
  obtain it' where "iterator_get x st = Inr kv" "iterator_next x st = Inr it'" "remaining st it' kvs"
    using Cons.prems unfolding x by (elim remaining_step) auto
  then show ?case using Cons.IH x by (subst iterate.simps) simp
qed

lemma skip_remaining:
  "remaining st it kvs \<Longrightarrow> \<exists>it'. skip_below cmp key st it = Some (Inr it') \<and> remaining st it' (dropWhile (\<lambda>e. cmp (fst e) key < 0) kvs)"
proof (induction kvs arbitrary: it)
  case Nil
  then have "it = None" by (cases it) (auto elim: remaining_step)
  then show ?case using Nil by (subst skip_below.simps) simp
next
  case (Cons kv kvs)
  then obtain x where x: "it = Some x" by (cases it) (auto simp: remaining_def)
  obtain it' where s: "iterator_get x st = Inr kv" "iterator_next x st = Inr it'" "remaining st it' kvs"
    using Cons.prems unfolding x by (elim remaining_step) auto
  show ?case
  proof (cases "cmp (fst kv) key < 0")
    case True
    then show ?thesis using Cons.IH [OF s(3)] s x by (subst skip_below.simps) (simp add: case_prod_beta)
  next
    case False
    then show ?thesis using Cons.prems s x by (subst skip_below.simps) (simp add: case_prod_beta)
  qed
qed

lemma leftmost_leaf_correct: "good st h nxt t \<Longrightarrow> leftmost_leaf st (root_pid t) = Some (Inr (hd (leaf_pids t)))"
proof (induction h arbitrary: t nxt)
  case 0
  then obtain p es where "t = Lf p es" by (auto simp: good_def)
  then show ?case using 0 by (subst leftmost_leaf.simps) (auto simp: good_def read_node_def)
next
  case (Suc h)
  then obtain p k c cs where t: "t = Nd p ((k, c) # cs)" by (auto simp: good_def neq_Nil_conv)
  have g: "good st h (first_of (kids leaf_pids cs) nxt) c"
    "tree_pages st p = Some (InternalPage (internal_max st) ((k, root_pid c) # kid_entries cs))"
    using Suc.prems unfolding t good_Nd by simp_all
  then show ?case using Suc.IH [OF g(1)] good_leaves [OF g(1)]
    by (subst leftmost_leaf.simps) (simp add: t read_node_def entry_at_def)
qed

context key_order begin

lemma find_leaf_position:
  assumes "good st h nxt t" and "sorted_wrt (<) (A @ spine rank t @ B)" and "between A (rank key, True) B"
  shows "\<exists>p ps qs. find_leaf cmp key st (root_pid t) = Some (Inr p) \<and> leaf_pids t = ps @ p # qs \<and>
    (\<forall>e \<in> set (concat (map (entries_of st) ps)). rank (fst e) < rank key)"
  using assms
proof (induction h arbitrary: t nxt A B)
  case 0
  then obtain p es where t: "t = Lf p es" by (auto simp: good_def)
  then have "find_leaf cmp key st p = Some (Inr p)" using 0 by (subst find_leaf.simps) (auto simp: read_node_def good_def)
  then show ?case by (intro exI [of _ p] exI [of _ "[]"]) (simp add: t)
next
  case (Suc h)
  then obtain p cs where t: "t = Nd p cs" by (auto simp: good_def)
  have pg: "tree_pages st p = Some (InternalPage (internal_max st) (kid_entries cs))" "cs \<noteq> []" "good_list st h nxt cs"
    using Suc.prems(1) unfolding t good_Nd by auto
  obtain xs k c ys where c: "cs = xs @ (k, c) # ys" "bisect_right cmp (kid_entries cs) key 1 = Suc (length xs)"
    "sorted_wrt (<) ((A @ lead rank xs k) @ spine rank c @ (seps rank ys @ B))"
    "between (A @ lead rank xs k) (rank key, True) (seps rank ys @ B)"
    using select_child [of A p cs B key] Suc.prems pg(2) t by metis
  have gc: "good st h (first_of (kids leaf_pids ys) nxt) c" "good_list st h (first_of (leaf_pids c) (first_of (kids leaf_pids ys) nxt)) xs"
    using pg(3) c(1) by simp_all
  have "find_leaf cmp key st p = find_leaf cmp key st (root_pid c)"
    using pg(1) child_for_selected [OF c(1,2)] by (subst find_leaf.simps) (simp add: read_node_def)
  moreover obtain q ps qs where q: "find_leaf cmp key st (root_pid c) = Some (Inr q)" "leaf_pids c = ps @ q # qs"
    "\<forall>e \<in> set (concat (map (entries_of st) ps)). rank (fst e) < rank key"
    using Suc.IH [OF gc(1) c(3,4)] by blast
  moreover have "leaf_pids t = (kids leaf_pids xs @ ps) @ q # (qs @ kids leaf_pids ys)" by (simp add: t c(1) q(2))
  moreover have "rank (fst e) < rank key" if "e \<in> set (concat (map (entries_of st) (kids leaf_pids xs @ ps)))" for e
  proof (cases "e \<in> set (kids flat xs)")
    case True
    then show ?thesis using between_parts [OF c(4)] before_kids by blast
  next
    case False
    then show ?thesis using that q(3) unfolding kids_entries [OF gc(2)] by auto
  qed
  ultimately show ?case unfolding t by (metis root_pid.simps(2))
qed

lemma iterate_all:
  assumes "btree_rep rank st es"
  shows "Option.bind (btree_begin st) (\<lambda>r. case r of Inl e \<Rightarrow> Some (Inl e) | Inr it \<Rightarrow> iterate st it) = Some (Inr es)"
proof (cases "root_page st")
  case None
  then show ?thesis using assms by (simp add: btree_begin_def btree_rep_def) (subst iterate.simps, simp)
next
  case (Some r)
  then obtain h t where t: "root_pid t = r" "flat t = es" "good st h None t" "sized (leaf_max st) (internal_max st) True h t" "2 \<le> leaf_max st"
    using assms by (auto simp: btree_rep_def)
  have c: "chain st (leaf_pids t)" using t by (intro good_chain)
  obtain p ps where p: "leaf_pids t = p # ps" using good_leaves [OF t(3)] by (cases "leaf_pids t") auto
  have "es = concat (map (entries_of st) (p # ps))" using flat_entries [of "leaf_max st" "internal_max st" st t] t(2,3) p by (auto simp: good_def)
  then show ?thesis
    using Some leftmost_leaf_correct [OF t(3)] t(1) p remaining_start [of st p ps] c iterate_remaining
    by (simp add: btree_begin_def)
qed

lemma iterate_from:
  assumes "btree_rep rank st es"
  shows "Option.bind (btree_begin_at cmp key st) (\<lambda>r. case r of Inl e \<Rightarrow> Some (Inl e) | Inr it \<Rightarrow> iterate st it) =
    Some (Inr (dropWhile (\<lambda>e. rank (fst e) < rank key) es))"
proof (cases "root_page st")
  case None
  then show ?thesis using assms by (simp add: btree_begin_at_def btree_rep_def) (subst iterate.simps, simp)
next
  case (Some r)
  then obtain h t where t: "root_pid t = r" "flat t = es" "good st h None t" "sized (leaf_max st) (internal_max st) True h t" "2 \<le> leaf_max st"
    "sorted_wrt (<) (spine rank t)"
    using assms by (auto simp: btree_rep_def)
  obtain p ps qs where p: "find_leaf cmp key st r = Some (Inr p)" "leaf_pids t = ps @ p # qs"
    "\<forall>e \<in> set (concat (map (entries_of st) ps)). rank (fst e) < rank key"
    using find_leaf_position [OF t(3), of "[]" "[]" key] t(1,6) by (auto simp: between_def)
  have c: "chain st (p # qs)" using good_chain [OF t(3,4,5)] p(2) chain_suffix by metis
  have es: "es = concat (map (entries_of st) ps) @ concat (map (entries_of st) (p # qs))"
    using flat_entries [of "leaf_max st" "internal_max st" st t] t(2,3) p(2) by (auto simp: good_def)
  have "dropWhile (\<lambda>e. rank (fst e) < rank key) es = dropWhile (\<lambda>e. cmp (fst e) key < 0) (concat (map (entries_of st) (p # qs)))"
    unfolding es using p(3) by (subst dropWhile_append2) (auto simp: cmp_less)
  moreover obtain it where "skip_below cmp key st (Some (p, 0)) = Some (Inr it)"
    "remaining st it (dropWhile (\<lambda>e. cmp (fst e) key < 0) (concat (map (entries_of st) (p # qs))))"
    using skip_remaining [OF remaining_start(2) [OF c], of cmp key] by blast
  ultimately show ?thesis
    using Some p(1) remaining_start(1) [OF c] iterate_remaining by (simp add: btree_begin_at_def)
qed

end

section \<open>Entries in key order\<close>

lemma filter_seps:
  "\<forall>c \<in> set cs. filter snd (spine rank (snd c)) = map (\<lambda>(k, v). (rank k, True)) (flat (snd c)) \<Longrightarrow>
   filter snd (seps rank cs) = map (\<lambda>(k, v). (rank k, True)) (kids flat cs)"
  by (induction cs) auto

lemma filter_tl_seps: "filter snd (tl (seps rank cs)) = filter snd (seps rank cs)"
  by (cases cs) auto

lemma filter_spine: "filter snd (spine rank t) = map (\<lambda>(k, v). (rank k, True)) (flat t)"
proof (induction t)
  case (Nd p cs)
  then have "filter snd (seps rank cs) = map (\<lambda>(k, v). (rank k, True)) (kids flat cs)" by (intro filter_seps) auto
  then show ?case by (simp only: shape_Nd filter_tl_seps)
qed (auto simp: filter_map comp_def case_prod_beta)

context key_order begin

lemma rep_sorted: "btree_rep rank st es \<Longrightarrow> sorted_wrt entry_less es"
proof (cases "root_page st")
  case (Some r)
  assume "btree_rep rank st es"
  then obtain t where "flat t = es" "sorted_wrt (<) (spine rank t)" using Some by (auto simp: btree_rep_def)
  then have "sorted_wrt (<) (map (\<lambda>(k, v). (rank k, True)) es)" by (metis filter_spine sorted_wrt_filter)
  then show ?thesis by (simp only: sorted_leaf)
qed (simp add: btree_rep_def)

end

section \<open>Dropping the tree\<close>

lemma drop_evolves:
  assumes "alloc_ok st" and "p \<in> dom (tree_pages st)"
  shows "evolves st (drop_page p st) {p} {}"
  using evolves_drop [OF evolves_refl [OF assms(1), of "{p}"], of p] assms(2) by simp

lemma free_subtrees_correct:
  "good_list st h nxt cs \<Longrightarrow> alloc_ok st \<Longrightarrow>
   \<exists>st'. free_subtrees (map snd (kid_entries cs)) st = Some (Inr st') \<and> evolves st st' (set (kids pids cs)) {} \<and>
     set (free_ids st') = set (free_ids st) \<union> set (kids pids cs)"
proof (induction h arbitrary: st nxt cs)
  case 0
  then show ?case
  proof (induction cs arbitrary: st)
    case Nil
    then show ?case by (subst free_subtrees.simps) (simp add: evolves_refl)
  next
    case (Cons x cs)
    obtain k p es where x: "x = (k, Lf p es)" using Cons.prems by (cases x) (auto simp: good_def)
    have pg: "\<exists>nx. tree_pages st p = Some (LeafPage (leaf_max st) nx es)" using Cons.prems(1) by (auto simp: x good_def)
    then have ev: "evolves st (drop_page p st) {p} {}" using Cons.prems(2) by (intro drop_evolves) auto
    have rest: "good_list st 0 nxt cs" "p \<notin> set (kids pids cs)" using Cons.prems(1) by (simp_all add: x)
    have "good_list (drop_page p st) 0 nxt cs" using rest by (intro good_list_frame [OF _ ev]) auto
    then obtain st' where st': "free_subtrees (map snd (kid_entries cs)) (drop_page p st) = Some (Inr st')"
      "evolves (drop_page p st) st' (set (kids pids cs)) {}" "set (free_ids st') = set (free_ids (drop_page p st)) \<union> set (kids pids cs)"
      using Cons.IH evolves_params [OF ev] by blast
    have "free_subtrees (map snd (kid_entries (x # cs))) st = Some (Inr st')"
      using pg st'(1) by (subst free_subtrees.simps) (auto simp: x read_node_def free_subtrees.simps [of "[]"])
    moreover have "evolves st st' (set (kids pids (x # cs))) {}" using evolves_trans [OF ev st'(2)] by (simp add: x)
    ultimately show ?case using st'(3) by (auto simp: x)
  qed
next
  case (Suc h)
  show ?case using Suc.prems
  proof (induction cs arbitrary: st)
    case Nil
    then show ?case by (subst free_subtrees.simps) (simp add: evolves_refl)
  next
    case (Cons x cs)
    obtain k p ds where x: "x = (k, Nd p ds)" using Cons.prems by (cases x) (auto simp: good_def)
    have g: "good_list st h (first_of (kids leaf_pids cs) nxt) ds" "p \<notin> set (kids pids ds)" "good_list st (Suc h) nxt cs"
      "set (p # kids pids ds) \<inter> set (kids pids cs) = {}"
      and pg: "tree_pages st p = Some (InternalPage (internal_max st) (kid_entries ds))"
      using Cons.prems(1) by (auto simp: x good_Nd)
    obtain st1 where st1: "free_subtrees (map snd (kid_entries ds)) st = Some (Inr st1)" "evolves st st1 (set (kids pids ds)) {}"
      "set (free_ids st1) = set (free_ids st) \<union> set (kids pids ds)"
      using Suc.IH [OF g(1) Cons.prems(2)] by blast
    have "p \<in> dom (tree_pages st1)" using evolves_same [OF st1(2), of p] pg g(2) by auto
    then have ev1: "evolves st1 (drop_page p st1) {p} {}" using evolves_params [OF st1(2)] by (intro drop_evolves) auto
    have ev: "evolves st (drop_page p st1) (set (kids pids ds) \<union> {p}) {}" using evolves_trans [OF st1(2) ev1] by simp
    have "good_list (drop_page p st1) (Suc h) nxt cs" using g(4) by (intro good_list_frame [OF g(3) ev]) auto
    then obtain st' where st': "free_subtrees (map snd (kid_entries cs)) (drop_page p st1) = Some (Inr st')"
      "evolves (drop_page p st1) st' (set (kids pids cs)) {}" "set (free_ids st') = set (free_ids (drop_page p st1)) \<union> set (kids pids cs)"
      using Cons.IH evolves_params [OF ev] by blast
    have "free_subtrees (map snd (kid_entries (x # cs))) st = Some (Inr st')"
      using pg st'(1) st1(1) by (subst free_subtrees.simps) (simp add: x read_node_def)
    moreover have "evolves st st' (set (kids pids (x # cs))) {}" using evolves_trans [OF ev st'(2)] by (simp add: x)
    ultimately show ?case using st'(3) st1(3) by (auto simp: x)
  qed
qed

lemma free_all_pages_correct:
  assumes "btree_rep rank st es"
  shows "\<exists>st'. btree_free_all_pages st = Some (Inr st') \<and> tree_pages st' = Map.empty \<and> distinct (free_ids st') \<and>
    set (free_ids st') = set (free_ids st) \<union> dom (tree_pages st) \<union> {header_id st}"
proof (cases "root_page st")
  case None
  then show ?thesis using assms by (auto simp: btree_free_all_pages_def btree_rep_def alloc_ok_def)
next
  case (Some r)
  then obtain h t where t: "root_pid t = r" "good st h None t" "dom (tree_pages st) = set (pids t)" "alloc_ok st"
    using assms by (auto simp: btree_rep_def)
  obtain st1 where st1: "free_subtrees [r] st = Some (Inr st1)" "evolves st st1 (set (pids t)) {}"
    "set (free_ids st1) = set (free_ids st) \<union> set (pids t)"
    using free_subtrees_correct [of st h None "[(undefined, t)]"] t by auto
  have "dom (tree_pages st1) = {}" "alloc_ok st1" "header_id st1 = header_id st"
    using st1(2) t(3) by (auto simp: evolves_def same_params_def)
  then show ?thesis using Some st1 t(3) by (auto simp: btree_free_all_pages_def alloc_ok_def)
qed

section \<open>Scans of an index\<close>

text \<open>
  (C0) An iteration delivers the entries in key order, each once: \<open>Begin()\<close> advanced to the end yields
  every entry of the tree in strictly increasing key order, and \<open>Begin(key)\<close> yields those from the key
  on.  No step reads a page that is not there.
\<close>

theorem iteration_in_key_order:
  assumes "btree_rep (key_rank cs) st es"
  shows "sorted_wrt (\<lambda>a b. key_rank cs (fst a) < key_rank cs (fst b)) es \<and>
    Option.bind (btree_begin st) (\<lambda>r. case r of Inl e \<Rightarrow> Some (Inl e) | Inr it \<Rightarrow> iterate st it) = Some (Inr es) \<and>
    Option.bind (btree_begin_at (key_cmp cs) key st) (\<lambda>r. case r of Inl e \<Rightarrow> Some (Inl e) | Inr it \<Rightarrow> iterate st it) =
      Some (Inr (filter (\<lambda>e. key_rank cs key \<le> key_rank cs (fst e)) es))"
proof -
  have s: "sorted_wrt (\<lambda>a b. key_rank cs (fst a) < key_rank cs (fst b)) es" by (rule index_key.rep_sorted [OF assms])
  then have "dropWhile (\<lambda>e. key_rank cs (fst e) < key_rank cs key) es = filter (\<lambda>e. key_rank cs key \<le> key_rank cs (fst e)) es"
    by (induction es) (auto simp: not_less intro!: filter_True [symmetric] dest: order_less_imp_le order_trans)
  then show ?thesis using s index_key.iterate_all [OF assms] index_key.iterate_from [OF assms, of key] by simp
qed

theorem iteration_in_key_order_witness:
  "Option.bind (btree_begin demo_tree) (\<lambda>r. case r of Inl e \<Rightarrow> Some (Inl e) | Inr it \<Rightarrow> iterate demo_tree it) =
     Some (Inr [([1], 10), ([2], 20), ([4], 40)]) \<and>
   Option.bind (btree_begin_at (key_cmp demo_schema) [2] demo_tree) (\<lambda>r. case r of Inl e \<Rightarrow> Some (Inl e) | Inr it \<Rightarrow> iterate demo_tree it) =
     Some (Inr [([2], 20), ([4], 40)])"
  using iteration_in_key_order [OF demo_rep, of "[2]"] by simp

text \<open>
  (C0) Dropping an index frees its pages: after \<open>FreeAllPages\<close> no page of the tree is left, and the
  allocator holds, each once, the ids it held before, every page of the tree and the header page.
\<close>

theorem drop_frees_every_page:
  assumes "btree_rep (key_rank cs) st es"
  shows "\<exists>st'. btree_free_all_pages st = Some (Inr st') \<and> tree_pages st' = Map.empty \<and> distinct (free_ids st') \<and>
    set (free_ids st') = set (free_ids st) \<union> dom (tree_pages st) \<union> {header_id st}"
  using assms by (rule free_all_pages_correct)

theorem drop_frees_every_page_witness:
  "\<exists>st'. btree_free_all_pages demo_tree = Some (Inr st') \<and> tree_pages st' = Map.empty \<and> set (free_ids st') = {0, 1, 2, 3}"
proof -
  have "dom (tree_pages demo_tree) = {1, 2, 3}" "free_ids demo_tree = []" "header_id demo_tree = 0"
    by (auto simp: demo_tree_def split: if_splits)
  then show ?thesis using drop_frees_every_page [OF demo_rep] by auto
qed

end
