(* ===== verification/Spec2Isabelle.thy ===== *)
theory Spec2Isabelle
  imports Rid WriteConflicts Timestamp BufferPoolProofs SortKeyOrder BPlusIterate
begin

text \<open>
  \<^bold>\<open>BumbleBeeDB: verification development.\<close>

  BumbleBeeDB is an embedded SQL database. A statement is parsed, bound, planned and run by
  vectorised operators over tables. A table is a chain of slotted pages in a buffer pool over a
  paged file. Rows carry a timestamp, older versions live in undo logs of the transactions that
  replaced them, and a transaction reads the versions of its snapshot. This development models
  the storage and transaction layers, which hold the state that has to stay consistent, and the
  value layer: types, validity, numbers, dates, timestamps and sort keys. All file names below
  are relative to \<^verbatim>\<open>src/src\<close> (headers to \<^verbatim>\<open>src/src/include\<close>).

  \<^bold>\<open>Conventions.\<close>
  Effects are state passing: an operation takes the record of the object and returns it updated.
  A throw, a failed assertion and an access that the C++ does not define are values of \<open>exn\<close>
  (theory \<open>Prelude\<close>), and a fallible operation returns \<open>'a result\<close>, that is \<open>exn + 'a\<close>. Byte
  buffers are lists of 8-bit words with explicit \<^verbatim>\<open>memcpy\<close>. Integers are \<open>nat\<close> or \<open>int\<close> with the
  wrap-around written out where the code can reach it (\<open>to_u16\<close>, \<open>to_size_t\<close>), and machine words
  where the code works on bits. A loop that follows stored links, and so might not end, is a
  \<open>partial_function (option)\<close>: \<open>None\<close> is a run that does not return, and the properties state that
  the result is \<open>Some\<close>. No fuel is used. Code that is not in the repository is a parameter (the
  exponent suffix of the number parser, the file system below the single-file disk manager, the
  integer rendering of the fmt library).

  \<^bold>\<open>Storage.\<close>
  \<^item> \<open>Rid\<close>: record ids and their packed form (\<^verbatim>\<open>storage/table/rid.h\<close>).
  \<^item> \<open>TablePage\<close>: the slotted page (\<^verbatim>\<open>storage/page/table_page.{h,cpp}\<close>); \<open>page_wf\<close> says that the
    payloads lie between the slot array and the end of the page and do not overlap, \<open>page_rows\<close> is
    the abstraction to a list of rows, and every operation is a list operation on it. The fit test
    of \<^verbatim>\<open>UpdateRow\<close> wraps around, which is a theorem of its own.
  \<^item> \<open>TableHeap\<close>: the page chain of a table, its directory, append, fetch, delete, update, recovery
    and the morsel cursor of parallel scans (\<^verbatim>\<open>storage/table/table_heap.{h,cpp}\<close>). Reopening a heap
    follows the next-page links, and is shown to end on every well-formed chain.
  \<^item> \<open>ArcReplacer\<close>: the replacement policy with its two live and two ghost lists
    (\<^verbatim>\<open>storage/buffer/arc_replacer.{h,cpp}\<close>), the bounds of its lists and the choice of the victim. The
    locale \<open>replacer\<close> is what the pool relies on, interpreted on the ARC functions.
  \<^item> \<open>DiskManager\<close>: the in-memory and the single-file block device
    (\<^verbatim>\<open>storage/disk/memory_disk_manager.h\<close>, \<^verbatim>\<open>single_file_disk_manager.{h,cpp}\<close>) with stream failures.
    The locale \<open>block_device\<close> is what the pool relies on, interpreted on both.
  \<^item> \<open>BufferPool\<close>: frames, page table, free list and every critical section of
    \<^verbatim>\<open>storage/buffer/buffer_pool_manager.{h,cpp}\<close> and \<^verbatim>\<open>storage/page/page_guard.cpp\<close>, and the whole
    operations as one thread runs them.
  \<^item> \<open>PoolSteps\<close>: the pool under concurrency, as a step relation in which a step is one critical
    section, one disk access or one latch operation of some thread, for any number of threads.
    Recycling a victim's frame and reserving it for the new page are two steps, although the code
    performs them under one hold of the latch, so the relation allows more interleavings than the
    code. Reads and the writes of explicit flushes are the successful ones.
  \<^item> \<open>PoolEffects\<close>, \<open>PoolOutcomes\<close>: the invariant \<open>pool_inv\<close> under every change, and the outcome of
    every critical section in a state that satisfies it.
  \<^item> \<open>PoolRefinement\<close>, \<open>BufferPoolProofs\<close>: every run of the pool is a run of an abstract page store;
    guards exclude each other and see their page; sections do not raise; a fetch returns; and two
    interleavings or failures the code does not handle.

  \<^bold>\<open>Transactions.\<close>
  \<^item> \<open>Watermark\<close>, \<open>Transaction\<close>: the oldest active snapshot and the transaction object
    (\<^verbatim>\<open>concurrency/watermark.{h,cpp}\<close>, \<^verbatim>\<open>concurrency/transaction.h\<close>).
  \<^item> \<open>Mvcc\<close>: reading through the undo chain, insert, update, delete, commit stamping and rollback of a
    row (\<^verbatim>\<open>storage/mvcc/mvcc.{h,cpp}\<close>). Rows are byte strings; the heap of \<open>TableHeap\<close> is the store.
  \<^item> \<open>TransactionManager\<close>: begin, commit with serializable validation, abort and garbage collection
    (\<^verbatim>\<open>concurrency/transaction_manager.{h,cpp}\<close>).
  \<^item> \<open>VersionChains\<close>, \<open>MvccInvariant\<close>, \<open>SnapshotSteps\<close>: the invariant \<open>db_inv\<close> (chains descend in
    time, a row in progress has one owner, links lead to logs that are still kept) and that every
    operation keeps it and every snapshot.
  \<^item> \<open>SnapshotIsolation\<close>: runs of any number of transactions as a labelled step relation; stable
    snapshots, own writes, publication by commit, restoration by abort, collection of garbage.
  \<^item> \<open>WriteConflicts\<close>: first-updater-wins, no lost update, and what serializable validation
    guarantees.

  \<^bold>\<open>Values.\<close>
  \<^item> \<open>Numeric\<close>: integer limits, checked conversion, integer and decimal text and the integer parser
    (\<^verbatim>\<open>common/limits\<close>, \<^verbatim>\<open>common/numeric_utils\<close>, \<^verbatim>\<open>type/vector/operator/cast_operators.h\<close>).
  \<^item> \<open>Date\<close>, \<open>DateConvert\<close>, \<open>Timestamp\<close>: calendar dates and timestamps with their text
    (\<^verbatim>\<open>type/date.{h,cpp}\<close>, \<^verbatim>\<open>type/timestamp.{h,cpp}\<close>); the table-driven conversions equal the
    proleptic Gregorian calendar.
  \<^item> \<open>LogicalType\<close>: SQL types, operand promotion and type names (\<^verbatim>\<open>type/logical_type.{h,cpp}\<close>).
  \<^item> \<open>ValidityMask\<close>: NULL bitmaps and selections (\<^verbatim>\<open>type/vector/validity_mask.{h,cpp}\<close>,
    \<^verbatim>\<open>type/vector/selection_vector.{h,cpp}\<close>).
  \<^item> \<open>SortKeyEncoding\<close>, \<open>CreateSortKey\<close>, \<open>SortKeyOrder\<close>: the byte-comparable keys of ORDER BY
    (\<^verbatim>\<open>common/sort_key_encoding.h\<close>, \<^verbatim>\<open>common/bswap.h\<close>, \<^verbatim>\<open>type/vector/operations/create_sort_key.{h,cpp}\<close>,
    the order of \<^verbatim>\<open>type/bumble_string.h\<close>). The locale \<open>float_encoder\<close> is interpreted on the encoders
    of both widths, the locale \<open>column_encoding\<close> on the column encoders.

  \<^bold>\<open>Not modelled.\<close>
  The SQL front end, planner and optimiser (tree rewriting over classes of a third-party parser),
  the vectorised operators, hash tables and aggregate kernels (raw vector memory), row scatter and
  gather, Parquet, the task scheduler, floating-point arithmetic beyond comparison, the shell and
  the Python bindings. Multi-threading is modelled where the code's correctness rests on it: the
  buffer pool and the transaction layer, whose operations are atomic steps because the code runs
  them under its latches.
\<close>

end
